(* ===== verification/Prelude.thy ===== *)
theory Prelude
  imports Main "HOL-Library.Char_ord"
begin

text \<open>
  Shared vocabulary of the development: the Rust integers and strings the components use, and the
  generic facts about them.

  Unsigned integers are \<open>nat\<close>. Where Rust saturates or converts between widths the bound is
  written out (\<open>sat_u32\<close>, \<open>i64_add\<close>, \<open>i64_clamp\<close>); \<open>saturating_sub\<close> on an unsigned integer is the
  subtraction of \<open>nat\<close>. A Rust \<open>str\<close> is its list of UTF-8 bytes, one \<open>char\<close> a byte, so \<open>length\<close> is
  Rust's \<open>len\<close> and an index is a byte offset.
\<close>

named_theorems str_laws \<open>what the string operations do to a string of a known shape\<close>

type_synonym bytes = string
type_synonym u32 = nat
type_synonym u64 = nat
type_synonym i64 = int

section \<open>Integers\<close>

definition u32_max :: u32 where
  "u32_max = 4294967295"

definition i64_max :: i64 where
  "i64_max = 9223372036854775807"

definition i64_min :: i64 where
  "i64_min = - 9223372036854775808"

text \<open>\<open>u32::try_from(n).unwrap_or(u32::MAX)\<close>.\<close>

definition sat_u32 :: "nat \<Rightarrow> u32" where
  "sat_u32 n = min n u32_max"

definition i64_clamp :: "int \<Rightarrow> i64" where
  "i64_clamp n = max i64_min (min i64_max n)"

text \<open>\<open>i64::saturating_add\<close>.\<close>

definition i64_add :: "i64 \<Rightarrow> i64 \<Rightarrow> i64" where
  "i64_add a b = i64_clamp (a + b)"

lemma sat_u32_le: "sat_u32 n \<le> n"
  by (simp add: sat_u32_def)

lemma sat_u32_id [simp]: "n \<le> u32_max \<Longrightarrow> sat_u32 n = n"
  by (simp add: sat_u32_def)

lemma i64_clamp_bounds: "i64_min \<le> i64_clamp n \<and> i64_clamp n \<le> i64_max"
  by (simp add: i64_clamp_def i64_min_def i64_max_def)

lemma i64_clamp_id: "i64_min \<le> n \<Longrightarrow> n \<le> i64_max \<Longrightarrow> i64_clamp n = n"
  by (simp add: i64_clamp_def)

section \<open>Decimal digits\<close>

text \<open>\<open>to_string\<close> of an unsigned integer: its decimal digits, most significant first.\<close>

definition digit_char :: "nat \<Rightarrow> char" where
  "digit_char d = char_of (48 + d)"

fun nat_to_string :: "nat \<Rightarrow> string" where
  "nat_to_string n =
     (if n < 10 then [digit_char n] else nat_to_string (n div 10) @ [digit_char (n mod 10)])"

declare nat_to_string.simps [simp del]

lemma nat_to_string_nonempty [simp]: "nat_to_string n \<noteq> []"
  by (subst nat_to_string.simps) simp

definition is_ascii_digit :: "char \<Rightarrow> bool" where
  "is_ascii_digit c \<longleftrightarrow> 48 \<le> (of_char c :: nat) \<and> (of_char c :: nat) \<le> 57"

definition is_ascii_upper :: "char \<Rightarrow> bool" where
  "is_ascii_upper c \<longleftrightarrow> 65 \<le> (of_char c :: nat) \<and> (of_char c :: nat) \<le> 90"

definition is_ascii_lower :: "char \<Rightarrow> bool" where
  "is_ascii_lower c \<longleftrightarrow> 97 \<le> (of_char c :: nat) \<and> (of_char c :: nat) \<le> 122"

definition is_ascii_alphanumeric :: "char \<Rightarrow> bool" where
  "is_ascii_alphanumeric c \<longleftrightarrow> is_ascii_digit c \<or> is_ascii_upper c \<or> is_ascii_lower c"

lemma of_char_digit_char: "d < 10 \<Longrightarrow> (of_char (digit_char d) :: nat) = 48 + d"
  by (simp add: digit_char_def)

lemma digit_char_is_digit: "d < 10 \<Longrightarrow> is_ascii_digit (digit_char d)"
  by (simp add: is_ascii_digit_def of_char_digit_char)

lemma nat_to_string_digits: "\<forall>c \<in> set (nat_to_string n). is_ascii_digit c"
proof (induction n rule: nat_to_string.induct)
  case (1 n)
  then show ?case
    by (subst nat_to_string.simps) (auto simp: digit_char_is_digit)
qed

text \<open>Reading the digits back.\<close>

definition digits_value :: "string \<Rightarrow> nat" where
  "digits_value s = foldl (\<lambda>n c. 10 * n + (of_char c - 48)) 0 s"

lemma digits_value_snoc: "digits_value (s @ [c]) = 10 * digits_value s + (of_char c - 48)"
  by (simp add: digits_value_def)

lemma digits_value_nat_to_string [simp]: "digits_value (nat_to_string n) = n"
proof (induction n rule: nat_to_string.induct)
  case (1 n)
  show ?case
  proof (cases "n < 10")
    case True
    then show ?thesis
      by (subst nat_to_string.simps) (simp add: digits_value_def of_char_digit_char)
  next
    case False
    with 1 show ?thesis
      by (subst nat_to_string.simps) (simp add: digits_value_snoc of_char_digit_char)
  qed
qed

section \<open>Strings\<close>

text \<open>\<open>str::strip_prefix\<close>, \<open>str::starts_with\<close>, \<open>str::strip_suffix\<close>, \<open>str::ends_with\<close>.\<close>

fun strip_prefix :: "'a list \<Rightarrow> 'a list \<Rightarrow> 'a list option" where
  "strip_prefix [] s = Some s"
| "strip_prefix (p # ps) [] = None"
| "strip_prefix (p # ps) (c # cs) = (if p = c then strip_prefix ps cs else None)"

definition starts_with :: "'a list \<Rightarrow> 'a list \<Rightarrow> bool" where
  "starts_with s p \<longleftrightarrow> strip_prefix p s \<noteq> None"

definition strip_suffix :: "'a list \<Rightarrow> 'a list \<Rightarrow> 'a list option" where
  "strip_suffix p s = map_option rev (strip_prefix (rev p) (rev s))"

definition ends_with :: "'a list \<Rightarrow> 'a list \<Rightarrow> bool" where
  "ends_with s p \<longleftrightarrow> strip_suffix p s \<noteq> None"

lemma strip_prefix_iff: "strip_prefix p s = Some r \<longleftrightarrow> s = p @ r"
  by (induction p s rule: strip_prefix.induct) auto

lemma strip_prefix_append [simp]: "strip_prefix p (p @ r) = Some r"
  by (simp add: strip_prefix_iff)

lemma starts_with_iff: "starts_with s p \<longleftrightarrow> (\<exists>r. s = p @ r)"
  by (auto simp: starts_with_def strip_prefix_iff)

lemma strip_suffix_iff: "strip_suffix p s = Some r \<longleftrightarrow> s = r @ p"
proof -
  have "strip_suffix p s = Some r \<longleftrightarrow> rev s = rev p @ rev r"
    by (auto simp: strip_suffix_def strip_prefix_iff)
  also have "\<dots> \<longleftrightarrow> s = r @ p"
    by (metis rev_append rev_rev_ident)
  finally show ?thesis .
qed

lemma strip_suffix_append [simp]: "strip_suffix p (r @ p) = Some r"
  by (simp add: strip_suffix_iff)

lemma ends_with_iff: "ends_with s p \<longleftrightarrow> (\<exists>r. s = r @ p)"
  by (auto simp: ends_with_def strip_suffix_iff)

text \<open>\<open>str::split_once\<close>: the text before and after the first occurrence.\<close>

fun split_once :: "'a list \<Rightarrow> 'a list \<Rightarrow> ('a list \<times> 'a list) option" where
  "split_once p [] = (case strip_prefix p [] of Some r \<Rightarrow> Some ([], r) | None \<Rightarrow> None)"
| "split_once p (c # cs) =
     (case strip_prefix p (c # cs) of
        Some r \<Rightarrow> Some ([], r)
      | None \<Rightarrow> map_option (\<lambda>(a, b). (c # a, b)) (split_once p cs))"

lemma split_once_parts: "split_once p s = Some (a, b) \<Longrightarrow> s = a @ p @ b"
proof (induction p s arbitrary: a b rule: split_once.induct)
  case (1 p)
  then show ?case by (auto simp: strip_prefix_iff split: option.splits)
next
  case (2 p c cs)
  show ?case
  proof (cases "strip_prefix p (c # cs)")
    case None
    with 2 show ?thesis by (auto split: prod.splits)
  next
    case (Some r)
    with 2 show ?thesis by (simp add: strip_prefix_iff)
  qed
qed

text \<open>A single-character separator absent from the head: the first occurrence is the one named.\<close>

lemma split_once_char [str_laws]:
  "x \<notin> set a \<Longrightarrow> split_once [x] (a @ x # b) = Some (a, b)"
  by (induction a) auto

lemma split_once_char_None [str_laws]: "split_once [x] s = None \<longleftrightarrow> x \<notin> set s"
  by (induction s) auto

lemma split_once_char_free: "split_once [x] s = Some (a, b) \<Longrightarrow> x \<notin> set a"
proof (induction s arbitrary: a b)
  case Nil
  then show ?case by simp
next
  case (Cons c cs)
  then show ?case by (auto split: if_splits prod.splits)
qed

text \<open>\<open>str::rsplit_once\<close> on a single character: around its last occurrence.\<close>

definition rsplit_once_char :: "'a \<Rightarrow> 'a list \<Rightarrow> ('a list \<times> 'a list) option" where
  "rsplit_once_char x s = map_option (\<lambda>(a, b). (rev b, rev a)) (split_once [x] (rev s))"

lemma rsplit_once_char_parts: "rsplit_once_char x s = Some (a, b) \<Longrightarrow> s = a @ x # b"
  by (auto simp: rsplit_once_char_def dest!: split_once_parts)
    (metis append.assoc append_Cons append_Nil rev.simps(2) rev_append rev_rev_ident)

text \<open>\<open>str::contains\<close>.\<close>

definition str_contains :: "'a list \<Rightarrow> 'a list \<Rightarrow> bool" where
  "str_contains s p \<longleftrightarrow> split_once p s \<noteq> None"

text \<open>\<open>str::to_ascii_lowercase\<close> and \<open>str::eq_ignore_ascii_case\<close>.\<close>

definition ascii_lower_char :: "char \<Rightarrow> char" where
  "ascii_lower_char c = (if is_ascii_upper c then char_of ((of_char c :: nat) + 32) else c)"

definition to_ascii_lowercase :: "string \<Rightarrow> string" where
  "to_ascii_lowercase s = map ascii_lower_char s"

definition eq_ignore_ascii_case :: "string \<Rightarrow> string \<Rightarrow> bool" where
  "eq_ignore_ascii_case a b \<longleftrightarrow> to_ascii_lowercase a = to_ascii_lowercase b"

lemma ascii_lower_char_idem [simp]: "ascii_lower_char (ascii_lower_char c) = ascii_lower_char c"
  by (auto simp: ascii_lower_char_def is_ascii_upper_def)

lemma to_ascii_lowercase_idem [simp]:
  "to_ascii_lowercase (to_ascii_lowercase s) = to_ascii_lowercase s"
  by (simp add: to_ascii_lowercase_def)

lemma eq_ignore_ascii_case_refl [simp]: "eq_ignore_ascii_case s s"
  by (simp add: eq_ignore_ascii_case_def)

text \<open>
  \<open>char::is_whitespace\<close> at the head of a string of UTF-8 bytes: how many bytes the whitespace
  character there has, 0 when the first character is no whitespace (Unicode's White_Space).
\<close>

definition ws_len :: "string \<Rightarrow> nat" where
  "ws_len s =
     (let b = map (of_char :: char \<Rightarrow> nat) (take 3 s) in
      case b of
        [] \<Rightarrow> 0
      | x # r \<Rightarrow>
          if (9 \<le> x \<and> x \<le> 13) \<or> x = 32 then 1
          else if take 1 r = [0x85] \<and> x = 0xC2 \<or> take 1 r = [0xA0] \<and> x = 0xC2 then 2
          else if x = 0xE1 \<and> r = [0x9A, 0x80] then 3
          else if x = 0xE2 \<and> length r = 2 \<and> hd r = 0x80
                  \<and> (0x80 \<le> r ! 1 \<and> r ! 1 \<le> 0x8A \<or> r ! 1 \<in> {0xA8, 0xA9, 0xAF}) then 3
          else if x = 0xE2 \<and> r = [0x81, 0x9F] then 3
          else if x = 0xE3 \<and> r = [0x80, 0x80] then 3
          else 0)"

text \<open>\<open>str::trim_start\<close> and \<open>trim_start_matches(' ')\<close>.\<close>

function trim_start :: "string \<Rightarrow> string" where
  "trim_start s = (if s = [] \<or> ws_len s = 0 then s else trim_start (drop (ws_len s) s))"
  by pat_completeness auto
termination
  by (relation "measure length") auto

declare trim_start.simps [simp del]

text \<open>\<open>str::trim_end\<close> and \<open>str::trim\<close>: a whitespace character at the end takes one to three bytes.\<close>

definition ws_len_end :: "string \<Rightarrow> nat" where
  "ws_len_end s =
     (case filter (\<lambda>n. n \<le> length s \<and> ws_len (drop (length s - n) s) = n) [1, 2, 3] of
        [] \<Rightarrow> 0 | n # _ \<Rightarrow> n)"

function trim_end :: "string \<Rightarrow> string" where
  "trim_end s = (if s = [] \<or> ws_len_end s = 0 then s else trim_end (take (length s - ws_len_end s) s))"
  by pat_completeness auto
termination
  by (relation "measure length") auto

declare trim_end.simps [simp del]

definition str_trim :: "string \<Rightarrow> string" where
  "str_trim s = trim_end (trim_start s)"

definition trim_spaces :: "string \<Rightarrow> string" where
  "trim_spaces s = dropWhile (\<lambda>c. c = CHR '' '') s"

lemma trim_start_suffix: "\<exists>p. s = p @ trim_start s"
proof (induction s rule: trim_start.induct)
  case (1 s)
  show ?case
  proof (cases "s = [] \<or> ws_len s = 0")
    case True
    then show ?thesis by (subst trim_start.simps) auto
  next
    case False
    with 1 obtain p where "drop (ws_len s) s = p @ trim_start (drop (ws_len s) s)" by blast
    with False have "s = (take (ws_len s) s @ p) @ trim_start s"
      by (metis append.assoc append_take_drop_id trim_start.simps)
    then show ?thesis by blast
  qed
qed

section \<open>Options, lists and maps\<close>

lemma map_option_Some_iff: "map_option f x = Some y \<longleftrightarrow> (\<exists>z. x = Some z \<and> y = f z)"
  by (cases x) auto

lemma count_list_filter_length: "count_list xs x = length (filter (\<lambda>y. x = y) xs)"
  by (induction xs) auto

lemma last_filter_snoc: "P x \<Longrightarrow> filter P (xs @ [x]) = filter P xs @ [x]"
  by simp

lemma set_map_filter [simp]: "set (List.map_filter f xs) = {y. \<exists>x \<in> set xs. f x = Some y}"
  by (induction xs) (auto simp: List.map_filter_simps split: option.split)

text \<open>Taking one key out of an association list with distinct keys.\<close>

lemma distinct_filter_keys: "distinct (map fst ts) \<Longrightarrow> distinct (map fst (filter P ts))"
  by (induction ts) auto

lemma length_filter_remove_key:
  assumes "distinct (map fst ts)" and "map_of ts k = Some t"
  shows "length (filter (\<lambda>(j, u). P u) ts) =
           length (filter (\<lambda>(j, u). P u) (filter (\<lambda>(j, _). j \<noteq> k) ts)) + (if P t then 1 else 0)"
  using assms
proof (induction ts)
  case Nil
  then show ?case by simp
next
  case (Cons p ts)
  obtain j u where p: "p = (j, u)" by fastforce
  show ?case
  proof (cases "j = k")
    case True
    with Cons.prems p have "k \<notin> fst ` set ts" "u = t" by auto
    moreover from this have "filter (\<lambda>(j, _). j \<noteq> k) ts = ts"
      by (force simp: filter_id_conv)
    ultimately show ?thesis using p True by simp
  next
    case False
    with Cons p show ?thesis by auto
  qed
qed

text \<open>\<open>str::split\<close> at a pattern that is not empty.\<close>

function pieces :: "string \<Rightarrow> string \<Rightarrow> string list" where
  "pieces old s =
     (if old = [] then [s]
      else case split_once old s of None \<Rightarrow> [s] | Some (before, after) \<Rightarrow> before # pieces old after)"
  by pat_completeness auto
termination
  by (relation "measure (\<lambda>(_, s). length s)") (auto dest!: split_once_parts)

declare pieces.simps [simp del]

text \<open>\<open>str::match_indices\<close>: where a pattern that is not empty occurs, without overlaps, from an offset on.\<close>

function matches_from :: "string \<Rightarrow> nat \<Rightarrow> string \<Rightarrow> nat list" where
  "matches_from needle from rest =
     (if needle = [] then []
      else case split_once needle rest of
             None \<Rightarrow> []
           | Some (before, after) \<Rightarrow>
               (from + length before) # matches_from needle (from + length before + length needle) after)"
  by pat_completeness auto
termination
  by (relation "measure (\<lambda>(_, _, rest). length rest)") (auto dest!: split_once_parts)

declare matches_from.simps [simp del]

lemma matches_sound:
  "off \<in> set (matches_from needle n s) \<Longrightarrow> \<exists>pre post. s = pre @ needle @ post \<and> off = n + length pre"
proof (induction needle n s rule: matches_from.induct)
  case (1 needle n s)
  obtain before after where parts: "needle \<noteq> []" "split_once needle s = Some (before, after)"
    using 1(2) by (cases "split_once needle s") (auto simp: matches_from.simps [of needle n s] split: if_splits)
  then consider "off = n + length before"
    | "off \<in> set (matches_from needle (n + length before + length needle) after)"
    using 1(2) by (auto simp: matches_from.simps [of needle n s])
  then show ?case
  proof cases
    case 2
    with 1(1) [OF parts(1,2) refl] obtain pre post where
      "after = pre @ needle @ post" "off = n + length before + length needle + length pre" by blast
    then show ?thesis
      using split_once_parts [OF parts(2)] by (intro exI [of _ "before @ needle @ pre"] exI [of _ post]) simp
  qed (use split_once_parts [OF parts(2)] in blast)
qed

section \<open>UTF-8 and lines\<close>

text \<open>\<open>String::from_utf8\<close>'s check: the well-formed byte sequences, by the length of their first byte.\<close>

definition utf8_tail :: "nat \<Rightarrow> nat \<Rightarrow> nat \<Rightarrow> bool" where
  "utf8_tail lo hi b \<longleftrightarrow> lo \<le> b \<and> b \<le> hi"

fun valid_utf8_bytes :: "nat list \<Rightarrow> bool" where
  "valid_utf8_bytes [] = True"
| "valid_utf8_bytes (a # bs) =
     (if a < 0x80 then valid_utf8_bytes bs
      else if 0xC2 \<le> a \<and> a \<le> 0xDF then
        (case bs of b # r \<Rightarrow> utf8_tail 0x80 0xBF b \<and> valid_utf8_bytes r | _ \<Rightarrow> False)
      else if 0xE0 \<le> a \<and> a \<le> 0xEF then
        (case bs of
           b # c # r \<Rightarrow>
             utf8_tail (if a = 0xE0 then 0xA0 else 0x80) (if a = 0xED then 0x9F else 0xBF) b
             \<and> utf8_tail 0x80 0xBF c \<and> valid_utf8_bytes r
         | _ \<Rightarrow> False)
      else if 0xF0 \<le> a \<and> a \<le> 0xF4 then
        (case bs of
           b # c # d # r \<Rightarrow>
             utf8_tail (if a = 0xF0 then 0x90 else 0x80) (if a = 0xF4 then 0x8F else 0xBF) b
             \<and> utf8_tail 0x80 0xBF c \<and> utf8_tail 0x80 0xBF d \<and> valid_utf8_bytes r
         | _ \<Rightarrow> False)
      else False)"

definition valid_utf8 :: "bytes \<Rightarrow> bool" where
  "valid_utf8 s = valid_utf8_bytes (map of_char s)"

text \<open>Well-formed bytes are a sequence of units, so they can be cut wherever one side of the cut is an ASCII byte.\<close>

definition utf8_unit :: "nat list \<Rightarrow> bool" where
  "utf8_unit u =
     (case u of
        [a] \<Rightarrow> a < 0x80
      | [a, b] \<Rightarrow> 0xC2 \<le> a \<and> a \<le> 0xDF \<and> utf8_tail 0x80 0xBF b
      | [a, b, c] \<Rightarrow> 0xE0 \<le> a \<and> a \<le> 0xEF
          \<and> utf8_tail (if a = 0xE0 then 0xA0 else 0x80) (if a = 0xED then 0x9F else 0xBF) b \<and> utf8_tail 0x80 0xBF c
      | [a, b, c, d] \<Rightarrow> 0xF0 \<le> a \<and> a \<le> 0xF4
          \<and> utf8_tail (if a = 0xF0 then 0x90 else 0x80) (if a = 0xF4 then 0x8F else 0xBF) b
          \<and> utf8_tail 0x80 0xBF c \<and> utf8_tail 0x80 0xBF d
      | _ \<Rightarrow> False)"

lemma utf8_unit_shape:
  assumes "utf8_unit u"
  obtains (1) a where "u = [a]" | (2) a b where "u = [a, b]" | (3) a b c where "u = [a, b, c]"
    | (4) a b c d where "u = [a, b, c, d]"
  using assms by (auto simp: utf8_unit_def split: list.splits)

lemma valid_utf8_unit_append:
  assumes "utf8_unit u"
  shows "valid_utf8_bytes (u @ r) = valid_utf8_bytes r"
  using assms by (cases rule: utf8_unit_shape [OF assms]) (simp_all add: utf8_unit_def)

lemma valid_utf8_unit:
  assumes "valid_utf8_bytes s" "s \<noteq> []"
  obtains u r where "s = u @ r" "utf8_unit u" "valid_utf8_bytes r"
proof -
  obtain a bs where s: "s = a # bs" using assms(2) by (cases s) auto
  consider "a < 0x80" | "0xC2 \<le> a" "a \<le> 0xDF" | "0xE0 \<le> a" "a \<le> 0xEF" | "0xF0 \<le> a" "a \<le> 0xF4"
    using assms(1) unfolding s by (auto split: if_splits)
  then show thesis
  proof cases
    case 1
    then show thesis using assms(1) that [of "[a]" bs] by (simp add: s utf8_unit_def)
  next
    case 2
    then show thesis using assms(1) that [of "[a, hd bs]" "tl bs"] by (cases bs) (simp_all add: s utf8_unit_def)
  next
    case 3
    then show thesis using assms(1) that [of "[a, bs ! 0, bs ! 1]" "drop 2 bs"]
      by (simp add: s utf8_unit_def split: list.splits)
  next
    case 4
    then show thesis using assms(1) that [of "[a, bs ! 0, bs ! 1, bs ! 2]" "drop 3 bs"]
      by (simp add: s utf8_unit_def split: list.splits)
  qed
qed

lemma utf8_unit_high:
  assumes "utf8_unit u" "1 < length u" "b \<in> set u"
  shows "0x80 \<le> b"
  using assms by (cases rule: utf8_unit_shape [OF assms(1)]) (auto simp: utf8_unit_def utf8_tail_def split: if_splits)

lemma valid_utf8_bytes_append: "valid_utf8_bytes p \<Longrightarrow> valid_utf8_bytes (p @ q) = valid_utf8_bytes q"
proof (induction p rule: length_induct)
  case (1 p)
  show ?case
  proof (cases "p = []")
    case False
    with 1 obtain u r where "p = u @ r" "utf8_unit u" "valid_utf8_bytes r" by (metis valid_utf8_unit)
    with 1(1) show ?thesis by (auto simp: valid_utf8_unit_append elim: utf8_unit_shape)
  qed simp
qed

lemma valid_utf8_bytes_cut:
  "valid_utf8_bytes (p @ q) \<Longrightarrow> q = [] \<or> p = [] \<or> hd q < 0x80 \<or> last p < 0x80 \<Longrightarrow> valid_utf8_bytes p"
proof (induction p rule: length_induct)
  case (1 p)
  show ?case
  proof (cases "p = [] \<or> q = []")
    case False
    with 1(2) obtain u r where u: "p @ q = u @ r" "utf8_unit u" "valid_utf8_bytes r" by (metis Nil_is_append_conv valid_utf8_unit)
    show ?thesis
    proof (cases "length u \<le> length p")
      case True
      then obtain p' where p: "p = u @ p'" "r = p' @ q" using u(1) by (auto simp: append_eq_append_conv_if split: if_splits) (metis append_take_drop_id)
      have "length p' < length p" using u(2) p(1) by (auto elim: utf8_unit_shape)
      moreover have "q = [] \<or> p' = [] \<or> hd q < 0x80 \<or> last p' < 0x80" using 1(3) False p(1) by auto
      ultimately show ?thesis using 1(1) u p by (auto simp: valid_utf8_unit_append)
    next
      case False
      with u(1) obtain q' where q: "u = p @ q'" "q = q' @ r" "q' \<noteq> []"
        by (auto simp: append_eq_append_conv2)
      with \<open>\<not> (p = [] \<or> q = [])\<close> have "1 < length u" "hd q \<in> set u" "last p \<in> set u"
        by (auto simp: Suc_less_eq2 neq_Nil_conv)
      with 1(3) False utf8_unit_high [OF u(2)] \<open>\<not> (p = [] \<or> q = [])\<close> show ?thesis by fastforce
    qed
  qed (use 1 in auto)
qed

lemma valid_utf8_append: "valid_utf8 p \<Longrightarrow> valid_utf8 (p @ q) = valid_utf8 q"
  by (simp add: valid_utf8_def valid_utf8_bytes_append)

abbreviation is_ascii :: "char \<Rightarrow> bool" where
  "is_ascii c \<equiv> (of_char c :: nat) < 0x80"

lemma valid_utf8_ascii: "list_all is_ascii s \<Longrightarrow> valid_utf8 s"
  by (induction s) (auto simp: valid_utf8_def)

definition char_cut :: "string \<Rightarrow> nat \<Rightarrow> bool" where
  "char_cut s i \<longleftrightarrow> i = 0 \<or> i = length s \<or> i < length s \<and> (is_ascii (s ! i) \<or> is_ascii (s ! (i - 1)))"

lemma valid_utf8_cut: 
  assumes "valid_utf8 s" "char_cut s i"
  shows "valid_utf8 (take i s)"
proof (cases "i = 0 \<or> i = length s")
  case False
  then have i: "0 < i" "i < length s" using assms(2) by (auto simp: char_cut_def)
  then have "hd (map of_char (drop i s)) = (of_char (s ! i) :: nat)" "last (map of_char (take i s)) = (of_char (s ! (i - 1)) :: nat)"
    by (cases i; simp add: hd_map hd_drop_conv_nth last_map take_Suc_conv_app_nth)+
  then show ?thesis
    using assms i False valid_utf8_bytes_cut [of "map of_char (take i s)" "map of_char (drop i s)"]
    by (simp add: valid_utf8_def char_cut_def flip: map_append)
qed (use assms in \<open>auto simp: valid_utf8_def\<close>)

text \<open>A UTF-8 continuation byte; a character of a string is one byte that isn't, with those after it.\<close>

definition is_continuation :: "char \<Rightarrow> bool" where
  "is_continuation c \<longleftrightarrow> 128 \<le> (of_char c :: nat) \<and> (of_char c :: nat) < 192"

text \<open>\<open>str::is_char_boundary\<close>.\<close>

definition is_char_boundary :: "string \<Rightarrow> nat \<Rightarrow> bool" where
  "is_char_boundary s k \<longleftrightarrow> k = length s \<or> k < length s \<and> \<not> is_continuation (s ! k)"

text \<open>The characters of a UTF-8 text: a byte that continues none, with the ones after it that do.\<close>

function utf8_chars :: "string \<Rightarrow> string list" where
  "utf8_chars [] = []"
| "utf8_chars (c # cs) = (c # takeWhile is_continuation cs) # utf8_chars (dropWhile is_continuation cs)"
  by pat_completeness auto
termination
  by (relation "measure length") (auto simp: le_imp_less_Suc length_dropWhile_le)

lemma utf8_chars_nonempty: "ch \<in> set (utf8_chars s) \<Longrightarrow> ch \<noteq> []"
  by (induction s rule: utf8_chars.induct) auto

lemma concat_utf8_chars [simp]: "concat (utf8_chars s) = s"
  by (induction s rule: utf8_chars.induct) auto

text \<open>\<open>str::split_inclusive('\n')\<close>, and \<open>str::lines\<close>: each line without its line feed and a carriage return before it.\<close>

definition nl :: char where
  "nl = char_of (10::nat)"

fun split_lines :: "string \<Rightarrow> string list" where
  "split_lines [] = []"
| "split_lines (c # cs) =
     (if c = nl then [c] # split_lines cs
      else case split_lines cs of [] \<Rightarrow> [[c]] | l # ls \<Rightarrow> (c # l) # ls)"

definition line_text :: "string \<Rightarrow> string" where
  "line_text line =
     (case strip_suffix [nl] line of
        None \<Rightarrow> line
      | Some l \<Rightarrow> (case strip_suffix [char_of (13::nat)] l of None \<Rightarrow> l | Some l' \<Rightarrow> l'))"

definition str_lines :: "string \<Rightarrow> string list" where
  "str_lines s = map line_text (split_lines s)"

lemma concat_split_lines [simp]: "concat (split_lines s) = s"
  by (induction s) (auto split: list.split)

lemma split_lines_ends: "split_lines s = pre @ l # ls \<Longrightarrow> l \<noteq> [] \<and> (ls = [] \<or> last l = nl)"
proof (induction s arbitrary: pre l ls)
  case (Cons c cs)
  show ?case
  proof (cases "c = nl \<or> split_lines cs = []")
    case True
    then show ?thesis using Cons by (cases pre) (auto split: if_splits)
  next
    case False
    then obtain m ms where m: "split_lines cs = m # ms" by (cases "split_lines cs") auto
    show ?thesis
    proof (cases pre)
      case Nil
      then show ?thesis using Cons(2) Cons(1) [of "[]" m ms] m False by auto
    next
      case (Cons p pre')
      then show ?thesis using Cons.prems Cons.IH [of "m # pre'"] m False by auto
    qed
  qed
qed simp

section \<open>Searching a list\<close>

lemma find_append: "List.find P (xs @ ys) = (case List.find P xs of None \<Rightarrow> List.find P ys | Some x \<Rightarrow> Some x)"
  by (induction xs) auto

lemma find_SomeD: "List.find P xs = Some x \<Longrightarrow> x \<in> set xs \<and> P x"
  by (auto simp: find_Some_iff)

lemma find_map: "List.find P (map f xs) = map_option f (List.find (\<lambda>x. P (f x)) xs)"
  by (induction xs) auto

lemma find_upt_Some:
  "List.find P [a..<b] = Some n \<longleftrightarrow> a \<le> n \<and> n < b \<and> P n \<and> (\<forall>m. a \<le> m \<and> m < n \<longrightarrow> \<not> P m)"
proof
  assume "List.find P [a..<b] = Some n"
  then obtain i where i: "i < b - a" "P (a + i)" "n = a + i" "\<forall>j < i. \<not> P (a + j)"
    by (auto simp: find_Some_iff)
  then have "\<not> P m" if "a \<le> m" "m < n" for m
    using that spec [OF i(4), of "m - a"] by auto
  with i show "a \<le> n \<and> n < b \<and> P n \<and> (\<forall>m. a \<le> m \<and> m < n \<longrightarrow> \<not> P m)" by auto
next
  assume "a \<le> n \<and> n < b \<and> P n \<and> (\<forall>m. a \<le> m \<and> m < n \<longrightarrow> \<not> P m)"
  then show "List.find P [a..<b] = Some n"
    unfolding find_Some_iff by (intro exI [of _ "n - a"]) auto
qed

end
