(* ===== verification/Window_Budget.thy ===== *)
theory Window_Budget
  imports Prelude
begin

text \<open>
  How much of a model's context window a request may take and how long its reply may be:
  the size arithmetic of \<open>src/turn/compaction.rs\<close>, the window-stop rules and the wordings of
  \<open>src/turn/overflow.rs\<close>, and \<open>MIN_REPLY_TOKENS\<close> of \<open>src/turn/run.rs\<close>.
\<close>

section \<open>Usage, budgets and constants\<close>

record token_usage =
  input_tokens :: i64
  output_tokens :: i64
  cache_creation_input_tokens :: i64
  cache_read_input_tokens :: i64

datatype reply_limit = OutputCap | ModelMaximum | HalfWindow | RoomLeft | LaunchCap

record reply_budget_t =
  tokens :: u32
  limit_of :: reply_limit

datatype provider_kind = Anthropic | Ollama | LlamaCpp | Other | ClaudeCli

definition MIN_REPLY_TOKENS :: u32 where
  "MIN_REPLY_TOKENS = 16384"

definition COMPACTION_SAFETY_BUFFER :: u32 where
  "COMPACTION_SAFETY_BUFFER = 4096"

section \<open>The compaction trigger and the reply budget\<close>

definition compaction_ceiling :: "u32 \<Rightarrow> u64" where
  "compaction_ceiling context_window =
     context_window - max MIN_REPLY_TOKENS COMPACTION_SAFETY_BUFFER"

text \<open>The additions of the usage's four counts are plain \<open>i64\<close> additions in the source.\<close>

definition projected_input :: "token_usage option \<Rightarrow> u64 \<Rightarrow> u64 option" where
  "projected_input last_usage new_content_estimate =
     (case last_usage of
        None \<Rightarrow> None
      | Some u \<Rightarrow>
          (let already_used = nat (max 0 (input_tokens u + output_tokens u
                 + cache_creation_input_tokens u + cache_read_input_tokens u))
           in Some (already_used + new_content_estimate)))"

definition budget_within_room :: "reply_budget_t \<Rightarrow> u32 \<Rightarrow> u64 \<Rightarrow> reply_budget_t" where
  "budget_within_room budget context_window projected =
     (let room = context_window - projected - COMPACTION_SAFETY_BUFFER;
          room = max (sat_u32 room) 1
      in if room < tokens budget then \<lparr>tokens = room, limit_of = RoomLeft\<rparr> else budget)"

definition reply_budget :: "u32 \<Rightarrow> u64 \<Rightarrow> u32 option \<Rightarrow> reply_budget_t" where
  "reply_budget context_window projected output_cap =
     (let half = context_window div 2;
          room = sat_u32 (context_window - projected - COMPACTION_SAFETY_BUFFER);
          budget = max (min room half) (min MIN_REPLY_TOKENS half);
          toks = max (case output_cap of None \<Rightarrow> budget | Some cap \<Rightarrow> min budget cap) 1;
          lim = (if output_cap = Some toks then OutputCap
                 else if toks = half then HalfWindow
                 else RoomLeft)
      in \<lparr>tokens = toks, limit_of = lim\<rparr>)"

section \<open>Wordings\<close>

text \<open>A token count with thousands commas.\<close>

fun grouped_from :: "nat \<Rightarrow> nat \<Rightarrow> string \<Rightarrow> string" where
  "grouped_from len i [] = []"
| "grouped_from len i (c # cs) =
     (if 0 < i \<and> (len - i) mod 3 = 0 then [CHR '','', c] else [c]) @ grouped_from len (Suc i) cs"

definition grouped :: "u64 \<Rightarrow> string" where
  "grouped n = (let digits = nat_to_string n in grouped_from (length digits) 0 digits)"

definition refused_reason :: "u32 option \<Rightarrow> string" where
  "refused_reason window =
     (case window of
        Some w \<Rightarrow> ''the model's server refused a request that didn't fit its '' @ grouped w
                  @ ''-token window''
      | None \<Rightarrow> ''the model's server refused a request that didn't fit'')"

definition still_did_not_fit :: "string \<Rightarrow> u32 option \<Rightarrow> bool \<Rightarrow> string \<Rightarrow> string" where
  "still_did_not_fit model window compacted said =
     (let w = (case window of Some w \<Rightarrow> '' ('' @ grouped w @ '' tokens)'' | None \<Rightarrow> []);
          c = (if compacted then '' after compacting'' else [])
      in ''The conversation still didn't fit `'' @ model @ ''`'s context window'' @ w @ c
         @ ''. The server said: '' @ said)"

definition window_too_small :: "string \<Rightarrow> u32 \<Rightarrow> u64 \<Rightarrow> string" where
  "window_too_small model window alone =
     ''`'' @ model @ ''`'s context window ('' @ grouped window
     @ '' tokens) is too small for smelt's system prompt and tools (about '' @ grouped alone
     @ '' tokens). Give the model a larger context on its server, or pick another model.''"

section \<open>Stops that mean the window ran out\<close>

definition WINDOW_STOP_SLACK :: i64 where
  "WINDOW_STOP_SLACK = 64"

definition MIN_PLAUSIBLE_WINDOW :: i64 where
  "MIN_PLAUSIBLE_WINDOW = 1024"

definition WINDOW_STOP_MARGIN :: i64 where
  "WINDOW_STOP_MARGIN = 4096"

definition MIN_WINDOW_STOP_OUTPUT :: i64 where
  "MIN_WINDOW_STOP_OUTPUT = 32"

definition window_stop :: "provider_kind \<Rightarrow> string \<Rightarrow> i64 \<Rightarrow> u32 \<Rightarrow> bool" where
  "window_stop kind stop_reason written budget =
     (if stop_reason = ''model_context_window_exceeded'' then True
      else if stop_reason = ''max_tokens''
        then kind = LlamaCpp \<and> 0 < written \<and> written + WINDOW_STOP_SLACK < int budget
      else False)"

definition reported_per_request :: "int option \<Rightarrow> provider_kind \<Rightarrow> u32 option \<Rightarrow> i64 option" where
  "reported_per_request reported kind total_slots =
     (case reported of
        None \<Rightarrow> None
      | Some w \<Rightarrow>
          if \<not> 0 < w then None
          else if kind = LlamaCpp
            then (case total_slots of
                    Some slots \<Rightarrow> if 1 < slots then Some (w div int slots) else Some w
                  | None \<Rightarrow> Some w)
          else Some w)"

definition stop_reads_plausible :: "i64 \<Rightarrow> i64 option \<Rightarrow> bool" where
  "stop_reads_plausible measured reported =
     (case reported of None \<Rightarrow> False | Some r \<Rightarrow> \<bar>measured - r\<bar> \<le> WINDOW_STOP_MARGIN)"

definition DEGENERATE_TAIL_TOKENS :: nat where
  "DEGENERATE_TAIL_TOKENS = 40"

definition DEGENERATE_REPEATS :: nat where
  "DEGENERATE_REPEATS = 24"

definition is_ascii_punctuation :: "char \<Rightarrow> bool" where
  "is_ascii_punctuation c \<longleftrightarrow>
     (let n = (of_char c :: nat)
      in 33 \<le> n \<and> n \<le> 47 \<or> 58 \<le> n \<and> n \<le> 64 \<or> 91 \<le> n \<and> n \<le> 96 \<or> 123 \<le> n \<and> n \<le> 126)"

text \<open>
  The reply's words: the runs between whitespace and ASCII punctuation, empty ones dropped.
  \<open>acc\<close> is the word being read, reversed.
\<close>

definition end_word :: "string \<Rightarrow> string list \<Rightarrow> string list" where
  "end_word acc ws = (if acc = [] then ws else rev acc # ws)"

function words_of :: "string \<Rightarrow> string \<Rightarrow> string list" where
  "words_of acc s =
     (case s of
        [] \<Rightarrow> end_word acc []
      | c # cs \<Rightarrow>
          if 0 < ws_len s then end_word acc (words_of [] (drop (ws_len s) s))
          else if is_ascii_punctuation c then end_word acc (words_of [] cs)
          else words_of (c # acc) cs)"
  by pat_completeness auto
termination
  by (relation "measure (\<lambda>(acc, s). length s)") auto

declare words_of.simps [simp del]

fun tail_repeats :: "(string \<Rightarrow> nat) \<Rightarrow> string list \<Rightarrow> bool" where
  "tail_repeats counts [] = False"
| "tail_repeats counts (t # ts) =
     (let n = counts t + 1
      in DEGENERATE_REPEATS \<le> n \<or> tail_repeats (counts(t := n)) ts)"

definition looks_degenerate :: "string \<Rightarrow> bool" where
  "looks_degenerate text =
     (let words = words_of [] text
      in tail_repeats (\<lambda>_. 0) (drop (length words - DEGENERATE_TAIL_TOKENS) words))"

text \<open>
  What a learner did with a measured window (the \<open>decision\<close> words of the trace), and the record of
  window stops that nothing has confirmed yet: per provider and model, the size measured and the
  turn that measured it.
\<close>

datatype window_decision =
  IgnoredShort | IgnoredDegenerate | NotLower | Saved | WriteFailed | Candidate | TurnOnly

type_synonym candidates = "(i64 \<times> string) \<rightharpoonup> (i64 \<times> u64)"

definition u32_of_i64 :: "i64 \<Rightarrow> u32" where
  "u32_of_i64 n = (if 0 \<le> n \<and> n \<le> int u32_max then nat n else u32_max)"

definition measured_total :: "token_usage \<Rightarrow> i64" where
  "measured_total u =
     i64_add (i64_add (i64_add (input_tokens u) (output_tokens u)) (cache_creation_input_tokens u))
       (cache_read_input_tokens u)"

text \<open>
  \<open>learn_as\<close>: the turn's own copy of the window takes a smaller one, and the store is asked to keep
  it. \<open>stored\<close> is the store's answer (\<open>providers::learn_context_window\<close> over the database).
\<close>

definition learn_as :: "window_decision \<Rightarrow> u32 \<Rightarrow> u32 \<Rightarrow> window_decision \<times> u32" where
  "learn_as stored context_window window =
     (stored, if window < context_window then window else context_window)"

definition learn_window_stop ::
  "window_decision \<Rightarrow> i64 option \<Rightarrow> u64 \<Rightarrow> i64 \<times> string \<Rightarrow> u32 \<Rightarrow> token_usage \<Rightarrow> string \<Rightarrow> string \<Rightarrow>
     candidates \<Rightarrow> (window_decision \<times> u32) \<times> candidates" where
  "learn_window_stop stored per_request stop_turn key context_window usage text stop_reason cands =
     (let measured = measured_total usage;
          window = u32_of_i64 measured
      in if output_tokens usage < MIN_WINDOW_STOP_OUTPUT then ((IgnoredShort, context_window), cands)
         else if looks_degenerate text then ((IgnoredDegenerate, context_window), cands)
         else if measured < MIN_PLAUSIBLE_WINDOW then ((NotLower, context_window), cands)
         else
           (let unambiguous = (stop_reason = ''model_context_window_exceeded'');
                save = (unambiguous \<or> stop_reads_plausible measured per_request);
                (repeats, cands') =
                  (if save then (True, cands(key := None))
                   else
                     (case cands key of
                        Some (prev, prev_turn) \<Rightarrow>
                          if prev_turn \<noteq> stop_turn \<and> \<bar>prev - measured\<bar> \<le> WINDOW_STOP_MARGIN
                          then (True, cands(key := None))
                          else (False, cands(key \<mapsto> (measured, stop_turn)))
                      | None \<Rightarrow> (False, cands(key \<mapsto> (measured, stop_turn)))))
            in if repeats then (learn_as stored context_window window, cands')
               else if per_request \<noteq> None then ((Candidate, context_window), cands')
               else ((TurnOnly, min context_window window), cands')))"

definition OLLAMA_CHECK_MIN_ESTIMATE :: u64 where
  "OLLAMA_CHECK_MIN_ESTIMATE = 8192"

definition ollama_tell_says_truncated :: "u64 \<Rightarrow> u64 \<Rightarrow> bool" where
  "ollama_tell_says_truncated estimate measured \<longleftrightarrow>
     OLLAMA_CHECK_MIN_ESTIMATE \<le> estimate \<and> measured < estimate div 2"

section \<open>Facts about budgets\<close>

lemmas budget_consts = MIN_REPLY_TOKENS_def COMPACTION_SAFETY_BUFFER_def

lemma reply_budget_pos: "1 \<le> tokens (reply_budget w p cap)"
  by (simp add: reply_budget_def Let_def)

lemma reply_budget_le_cap: "tokens (reply_budget w p (Some cap)) \<le> max cap 1"
  by (auto simp: reply_budget_def Let_def)

lemma reply_budget_le_half: "tokens (reply_budget w p cap) \<le> max (w div 2) 1"
  by (auto simp: reply_budget_def Let_def split: option.splits)

lemma budget_within_room_le: "tokens (budget_within_room b w p) \<le> tokens b"
  by (auto simp: budget_within_room_def Let_def)

lemma budget_within_room_fits:
  assumes "p + COMPACTION_SAFETY_BUFFER < w"
  shows "p + tokens (budget_within_room b w p) + COMPACTION_SAFETY_BUFFER \<le> w"
proof -
  have "tokens (budget_within_room b w p) \<le> max (sat_u32 (w - p - COMPACTION_SAFETY_BUFFER)) 1"
    by (auto simp: budget_within_room_def Let_def)
  also have "\<dots> \<le> w - p - COMPACTION_SAFETY_BUFFER"
    using assms sat_u32_le [of "w - p - COMPACTION_SAFETY_BUFFER"] by simp
  finally show ?thesis using assms by linarith
qed

text \<open>Below the trigger the floor of the budget is room the request leaves.\<close>

lemma reply_budget_fits_below_ceiling:
  assumes "p < compaction_ceiling w"
  shows "p + tokens (reply_budget w p cap) \<le> w"
proof -
  let ?room = "sat_u32 (w - p - COMPACTION_SAFETY_BUFFER)"
  have p: "p + MIN_REPLY_TOKENS < w"
    using assms by (simp add: compaction_ceiling_def budget_consts)
  have "?room \<le> w - p"
    using sat_u32_le [of "w - p - COMPACTION_SAFETY_BUFFER"] by linarith
  moreover have "tokens (reply_budget w p cap) \<le> max (max ?room MIN_REPLY_TOKENS) 1"
    by (simp add: reply_budget_def Let_def max_def min_def split: option.splits)
  ultimately show ?thesis using p by (simp add: budget_consts)
qed

section \<open>Facts about the degenerate tell\<close>

lemma tail_repeats_counts:
  "(\<forall>t. counts t < DEGENERATE_REPEATS) \<Longrightarrow>
     tail_repeats counts ts \<longleftrightarrow> (\<exists>t \<in> set ts. DEGENERATE_REPEATS \<le> counts t + count_list ts t)"
proof (induction ts arbitrary: counts)
  case Nil
  then show ?case by simp
next
  case (Cons t ts)
  show ?case
  proof (cases "DEGENERATE_REPEATS \<le> counts t + 1")
    case True
    then show ?thesis by (auto simp: Let_def)
  next
    case False
    with Cons.prems have "\<forall>u. (counts(t := counts t + 1)) u < DEGENERATE_REPEATS"
      by auto
    note ih = Cons.IH [OF this]
    have split: "(\<exists>u \<in> set ts. DEGENERATE_REPEATS \<le> (counts(t := counts t + 1)) u + count_list ts u)
        \<longleftrightarrow> (\<exists>u \<in> set (t # ts). DEGENERATE_REPEATS \<le> counts u + count_list (t # ts) u)"
    proof
      assume "\<exists>u \<in> set ts. DEGENERATE_REPEATS \<le> (counts(t := counts t + 1)) u + count_list ts u"
      then show "\<exists>u \<in> set (t # ts). DEGENERATE_REPEATS \<le> counts u + count_list (t # ts) u"
        by (auto split: if_splits)
    next
      assume "\<exists>u \<in> set (t # ts). DEGENERATE_REPEATS \<le> counts u + count_list (t # ts) u"
      then obtain u where u: "u \<in> set (t # ts)"
        "DEGENERATE_REPEATS \<le> counts u + count_list (t # ts) u" by blast
      moreover have "u \<in> set ts"
      proof (rule ccontr)
        assume "u \<notin> set ts"
        with u(1) have "u = t" "count_list ts u = 0" by auto
        with u(2) False show False by simp
      qed
      ultimately show "\<exists>u \<in> set ts. DEGENERATE_REPEATS \<le> (counts(t := counts t + 1)) u + count_list ts u"
        by (intro bexI [of _ u]) (auto split: if_splits)
    qed
    have "tail_repeats counts (t # ts) \<longleftrightarrow> tail_repeats (counts(t := counts t + 1)) ts"
      using False by (simp add: Let_def)
    then show ?thesis unfolding ih split .
  qed
qed

lemma looks_degenerate_iff:
  "looks_degenerate text \<longleftrightarrow>
     (let words = words_of [] text; tail = drop (length words - 40) words
      in \<exists>t \<in> set tail. 24 \<le> count_list tail t)"
  unfolding looks_degenerate_def Let_def DEGENERATE_TAIL_TOKENS_def
  by (subst tail_repeats_counts) (simp_all add: DEGENERATE_REPEATS_def)

section \<open>Facts about grouping\<close>

text \<open>Taking the commas out of a grouped number gives its digits back.\<close>

lemma grouped_from_no_commas:
  "CHR '','' \<notin> set s \<Longrightarrow> filter (\<lambda>c. c \<noteq> CHR '','') (grouped_from len i s) = s"
  by (induction len i s rule: grouped_from.induct) auto

lemma nat_to_string_no_comma: "CHR '','' \<notin> set (nat_to_string n)"
  using nat_to_string_digits [of n] by (auto simp: is_ascii_digit_def)

lemma grouped_digits: "filter (\<lambda>c. c \<noteq> CHR '','') (grouped n) = nat_to_string n"
  by (simp add: grouped_def Let_def grouped_from_no_commas nat_to_string_no_comma)

section \<open>Properties\<close>

text \<open>
  A window stop is saved as the model's window only on evidence: a reply of some length that is no
  repetition loop, a plausible size, and either the server's own word, a size close to what the server
  reports per request, or a stop of about the same size in an earlier turn. The record of unconfirmed
  stops is cleared by it, and the turn's own belief never grows.
\<close>

theorem window_stop_saves_only_on_evidence:
  assumes "learn_window_stop stored per_request turn key cw u text stop_reason cands
             = ((Saved, cw'), cands')"
  shows "32 \<le> output_tokens u \<and> \<not> looks_degenerate text \<and> 1024 \<le> measured_total u
       \<and> (stop_reason = ''model_context_window_exceeded''
          \<or> stop_reads_plausible (measured_total u) per_request
          \<or> (\<exists>prev t. cands key = Some (prev, t) \<and> t \<noteq> turn
               \<and> \<bar>prev - measured_total u\<bar> \<le> 4096))
       \<and> cands' key = None \<and> cw' \<le> cw"
  using assms
  by (auto simp: learn_window_stop_def learn_as_def Let_def MIN_WINDOW_STOP_OUTPUT_def
      MIN_PLAUSIBLE_WINDOW_def WINDOW_STOP_MARGIN_def
      split: if_splits option.splits prod.splits)

definition stop_usage :: token_usage where
  "stop_usage = \<lparr>input_tokens = 20000, output_tokens = 500, cache_creation_input_tokens = 0,
     cache_read_input_tokens = 0\<rparr>"

theorem window_stop_saves_only_on_evidence_witness:
  "\<exists>cw' cands'. learn_window_stop Saved (Some 20480) 7 (1, ''m'') 32768 stop_usage ''done'' ''max_tokens''
       Map.empty = ((Saved, cw'), cands') \<and> cw' \<le> 32768"
proof -
  have words: "words_of [] ''done'' = [''done'']"
    by (simp add: words_of.simps ws_len_def end_word_def is_ascii_punctuation_def)
  have f: "learn_window_stop Saved (Some 20480) 7 (1, ''m'') 32768 stop_usage ''done'' ''max_tokens''
       Map.empty = ((Saved, 20500), Map.empty)"
    by (simp add: learn_window_stop_def learn_as_def stop_usage_def measured_total_def
        looks_degenerate_iff words i64_add_def i64_clamp_def i64_max_def i64_min_def u32_of_i64_def
        u32_max_def stop_reads_plausible_def MIN_WINDOW_STOP_OUTPUT_def MIN_PLAUSIBLE_WINDOW_def
        WINDOW_STOP_MARGIN_def fun_eq_iff)
  from window_stop_saves_only_on_evidence [OF f] f show ?thesis by blast
qed

text \<open>
  The repetition tell is what its comment says: a reply is degenerate exactly when one token fills at
  least 24 of its last 40, however the counts are kept while scanning.
\<close>

theorem looks_degenerate_counts:
  "looks_degenerate text \<longleftrightarrow>
     (\<exists>t. 24 \<le> count_list (drop (length (words_of [] text) - 40) (words_of [] text)) t)"
proof -
  have "t \<in> set xs" if "24 \<le> count_list xs t" for t and xs :: "string list"
    using that by (metis count_list_0_iff not_numeral_le_zero)
  then show ?thesis
    unfolding looks_degenerate_iff Let_def by blast
qed

end
