(* ===== verification/Machines.thy ===== *)
theory Machines
  imports Prelude
begin

text \<open>
  The contract every stateful component of the development is given: a start state, a step for each
  operation, and an invariant the start has and every step keeps. A component discharges it once, by
  interpreting the locale on its own definitions, and gets the invariant of every run.
\<close>

locale machine =
  fixes start :: 's
    and step :: "'s \<Rightarrow> 'e \<Rightarrow> 's"
    and inv :: "'s \<Rightarrow> bool"
  assumes inv_start: "inv start"
    and inv_step: "inv s \<Longrightarrow> inv (step s e)"
begin

lemma inv_run_from: "inv s \<Longrightarrow> inv (foldl step s es)"
  by (induction es arbitrary: s) (auto intro: inv_step)

lemma inv_run: "inv (foldl step start es)"
  by (intro inv_run_from inv_start)

end

text \<open>Every operation of a run is one the flag's keeper allows in the state it meets.\<close>

fun kept_run :: "('s \<Rightarrow> 'e \<Rightarrow> 's) \<Rightarrow> ('s \<Rightarrow> 'e \<Rightarrow> bool) \<Rightarrow> 's \<Rightarrow> 'e list \<Rightarrow> bool" where
  "kept_run step keeps s [] = True"
| "kept_run step keeps s (e # es) = (keeps s e \<and> kept_run step keeps (step s e) es)"

text \<open>
  A machine with a flag that, once up, only some operations take down: the flag stays up along every
  run of the other operations.
\<close>

locale latch = machine start step inv
  for start :: 's and step :: "'s \<Rightarrow> 'e \<Rightarrow> 's" and inv :: "'s \<Rightarrow> bool" +
  fixes up :: "'s \<Rightarrow> bool"
    and keeps :: "'s \<Rightarrow> 'e \<Rightarrow> bool"
  assumes up_step: "inv s \<Longrightarrow> up s \<Longrightarrow> keeps s e \<Longrightarrow> up (step s e)"
begin

lemma up_run: "inv s \<Longrightarrow> up s \<Longrightarrow> kept_run step keeps s es \<Longrightarrow> up (foldl step s es)"
  by (induction es arbitrary: s) (auto intro: inv_step up_step)

end

end
