(* ===== verification/Compaction_Progress.thy ===== *)
theory Compaction_Progress
  imports Window_Budget Machines
begin

text \<open>
  \<open>src/turn/compaction_progress.rs\<close>: a conversation's record of what its compactions left, which
  decides before each model call whether to compact, to send, or to end the turn because the
  conversation does not fit. One record (\<open>compaction_progress\<close>), one definition per method, and an
  operation type (\<open>progress_op\<close>) with the step the \<open>machine\<close> and \<open>latch\<close> contracts are discharged for.
\<close>

section \<open>The record\<close>

definition MIN_ROOM_TO_WORK :: u64 where "MIN_ROOM_TO_WORK = 4096"
definition TIGHT_RESULTS :: u32 where "TIGHT_RESULTS = 2"
definition SHORT_REPLY_TOKENS :: u64 where "SHORT_REPLY_TOKENS = 2048"
definition MIN_USEFUL_REPLY :: u32 where "MIN_USEFUL_REPLY = 1024"
definition MAX_AT_LIMIT :: u32 where "MAX_AT_LIMIT = 3"
definition MAX_REFUSAL_COMPACTIONS :: u32 where "MAX_REFUSAL_COMPACTIONS = 3"

lemmas progress_consts =
  MIN_ROOM_TO_WORK_def TIGHT_RESULTS_def SHORT_REPLY_TOKENS_def MIN_USEFUL_REPLY_def
  MAX_AT_LIMIT_def MAX_REFUSAL_COMPACTIONS_def budget_consts

datatype compaction_step = Go | Compact | Stuck string

datatype floor_answer = Believe u64 | TryAnyway | NoRoom string

record compaction_progress =
  cp_window :: "u32 option"
  cp_awaiting :: bool
  cp_after :: "u64 option"
  cp_tight_results :: u32
  cp_tight :: bool
  cp_at_limit :: u32
  cp_stuck :: bool
  cp_guess :: "u32 option"
  cp_refusal_compactions :: u32
  cp_refused_out :: bool
  cp_compact_for_room :: bool
  cp_room_retried :: bool
  cp_try_anyway :: bool
  cp_believing :: bool
  cp_too_small :: "u64 option"

definition default_progress :: compaction_progress where
  "default_progress =
     \<lparr>cp_window = None, cp_awaiting = False, cp_after = None, cp_tight_results = 0,
      cp_tight = False, cp_at_limit = 0, cp_stuck = False, cp_guess = None,
      cp_refusal_compactions = 0, cp_refused_out = False, cp_compact_for_room = False,
      cp_room_retried = False, cp_try_anyway = False, cp_believing = False, cp_too_small = None\<rparr>"

definition limit :: "u32 \<Rightarrow> u64" where
  "limit context_window = context_window - (COMPACTION_SAFETY_BUFFER + SHORT_REPLY_TOKENS)"

section \<open>The methods\<close>

definition forget_measures :: "compaction_progress \<Rightarrow> compaction_progress" where
  "forget_measures p =
     p\<lparr>cp_after := None, cp_awaiting := False, cp_tight := False, cp_tight_results := 0,
       cp_at_limit := 0\<rparr>"

definition sync :: "u32 \<Rightarrow> compaction_progress \<Rightarrow> compaction_progress" where
  "sync context_window p =
     (if cp_guess p = Some context_window then p
      else if cp_window p \<noteq> Some context_window
        then default_progress\<lparr>cp_window := Some context_window\<rparr>
      else if cp_guess p \<noteq> None then forget_measures (p\<lparr>cp_guess := None\<rparr>)
      else p)"

definition guessed :: "u32 \<Rightarrow> u32 \<Rightarrow> compaction_progress \<Rightarrow> compaction_progress" where
  "guessed believed guess p = forget_measures ((sync believed p)\<lparr>cp_guess := Some guess\<rparr>)"

definition compacted :: "u32 \<Rightarrow> compaction_progress \<Rightarrow> compaction_progress" where
  "compacted context_window p = (sync context_window p)\<lparr>cp_awaiting := True\<rparr>"

definition refusal_compacted :: "u32 \<Rightarrow> compaction_progress \<Rightarrow> compaction_progress" where
  "refusal_compacted context_window p =
     (let p = compacted context_window p
      in p\<lparr>cp_refusal_compactions := cp_refusal_compactions p + 1\<rparr>)"

definition step_taken :: "compaction_progress \<Rightarrow> compaction_progress" where
  "step_taken p = p\<lparr>cp_refusal_compactions := 0, cp_try_anyway := False, cp_believing := False\<rparr>"

definition retry_taken :: "compaction_progress \<Rightarrow> compaction_progress" where
  "retry_taken p = p\<lparr>cp_try_anyway := False, cp_believing := False\<rparr>"

definition refused :: "u64 option \<Rightarrow> compaction_progress \<Rightarrow> compaction_progress" where
  "refused input p =
     (if cp_believing p
      then p\<lparr>cp_believing := False,
             cp_after := map_option (\<lambda>i. case cp_after p of None \<Rightarrow> i | Some a \<Rightarrow> max a i) input\<rparr>
      else p)"

definition too_small :: "u64 \<Rightarrow> u32 \<Rightarrow> compaction_progress \<Rightarrow> compaction_progress" where
  "too_small alone context_window p =
     (sync context_window p)\<lparr>cp_too_small := Some alone, cp_stuck := True\<rparr>"

definition why_stuck :: "string \<Rightarrow> u32 \<Rightarrow> compaction_progress \<Rightarrow> string" where
  "why_stuck model context_window p =
     (case cp_too_small p of
        Some alone \<Rightarrow> window_too_small model context_window alone
      | None \<Rightarrow>
          if cp_refused_out p then
            ''`'' @ model @ ''`'s server kept refusing this conversation as too big for its context window, however much smelt compacted it. Give the model a larger context on its server, or pick another model.''
          else
            (let size = (case cp_after p of None \<Rightarrow> []
                         | Some after \<Rightarrow> '' about '' @ grouped after @ '' tokens,'')
             in ''`'' @ model @ ''`'s context window ('' @ grouped context_window
                @ '' tokens) is too small for this conversation: even compacted, a request takes''
                @ size @ '' which leaves too little room for a reply, and compacting again wouldn't free any more. Give the model a larger context window on its server and on its provider's page, or pick another model.''))"

definition why_refused_out ::
  "string \<Rightarrow> u32 \<Rightarrow> compaction_progress \<Rightarrow> string option \<times> compaction_progress" where
  "why_refused_out model context_window p =
     (let p = sync context_window p
      in if cp_refusal_compactions p < MAX_REFUSAL_COMPACTIONS then (None, p)
         else (let p = p\<lparr>cp_stuck := True, cp_refused_out := True\<rparr>
               in (Some (why_stuck model context_window p), p)))"

definition progress_step ::
  "string \<Rightarrow> u32 \<Rightarrow> u64 option \<Rightarrow> compaction_progress \<Rightarrow> compaction_step \<times> compaction_progress" where
  "progress_step model context_window projected p =
     (let p = sync context_window p
      in if cp_stuck p then (Stuck (why_stuck model context_window p), p)
         else if cp_compact_for_room p then (Compact, p\<lparr>cp_compact_for_room := False\<rparr>)
         else if cp_guess p \<noteq> None
                 \<and> (case cp_after p of None \<Rightarrow> False | Some after \<Rightarrow> limit context_window \<le> after)
           then (Go, p)
         else
           (let trigger = (if cp_tight p \<or> cp_guess p \<noteq> None then limit context_window
                           else compaction_ceiling context_window)
            in if (case projected of None \<Rightarrow> False | Some q \<Rightarrow> trigger \<le> q) then (Compact, p)
               else (Go, p)))"

definition input_of :: "token_usage \<Rightarrow> u64" where
  "input_of usage =
     nat (max 0 (i64_add (i64_add (input_tokens usage) (cache_creation_input_tokens usage))
                   (cache_read_input_tokens usage)))"

definition measured :: "token_usage \<Rightarrow> u32 \<Rightarrow> compaction_progress \<Rightarrow> compaction_progress" where
  "measured usage context_window p =
     (let p = sync context_window p; input = input_of usage
      in if \<not> cp_awaiting p \<or> input = 0 then p
         else
           (let p = p\<lparr>cp_awaiting := False, cp_after := Some input\<rparr>
            in if cp_guess p \<noteq> None then p
               else if input + MIN_ROOM_TO_WORK \<le> compaction_ceiling context_window
                 then p\<lparr>cp_tight_results := 0, cp_tight := False, cp_at_limit := 0\<rparr>
               else
                 (let p = p\<lparr>cp_tight_results := cp_tight_results p + 1\<rparr>;
                      p = p\<lparr>cp_tight := cp_tight p \<or> TIGHT_RESULTS \<le> cp_tight_results p\<rparr>
                  in if limit context_window < input + SHORT_REPLY_TOKENS
                     then (let p = p\<lparr>cp_at_limit := cp_at_limit p + 1\<rparr>
                           in p\<lparr>cp_stuck := cp_stuck p \<or> MAX_AT_LIMIT \<le> cp_at_limit p\<rparr>)
                     else p\<lparr>cp_at_limit := 0\<rparr>)))"

definition room_only :: "compaction_progress \<Rightarrow> bool" where
  "room_only p \<longleftrightarrow> cp_tight p \<and> cp_guess p = None"

definition cut_for_room ::
  "u64 option \<Rightarrow> u32 \<Rightarrow> compaction_progress \<Rightarrow> bool \<times> compaction_progress" where
  "cut_for_room sized context_window p =
     (let p = sync context_window p;
          frees_room = (case (sized, cp_after p) of
                          (Some s, Some after) \<Rightarrow> after + SHORT_REPLY_TOKENS < s
                        | _ \<Rightarrow> False)
      in if \<not> room_only p \<or> cp_room_retried p \<or> \<not> frees_room then (False, p)
         else (True, p\<lparr>cp_compact_for_room := True, cp_room_retried := True\<rparr>))"

definition reply_finished :: "compaction_progress \<Rightarrow> compaction_progress" where
  "reply_finished p = p\<lparr>cp_room_retried := False\<rparr>"

definition fits_short :: "u32 \<Rightarrow> u64 \<Rightarrow> bool" where
  "fits_short context_window after \<longleftrightarrow>
     after + COMPACTION_SAFETY_BUFFER + MIN_USEFUL_REPLY \<le> context_window"

definition floor_fired ::
  "u64 \<Rightarrow> string \<Rightarrow> u32 \<Rightarrow> compaction_progress \<Rightarrow> floor_answer \<times> compaction_progress" where
  "floor_fired sz model context_window p =
     (let p = sync context_window p
      in case cp_after p of
           Some after \<Rightarrow>
             if fits_short context_window after
             then (Believe after, p\<lparr>cp_believing := True\<rparr>)
             else if cp_try_anyway p then (TryAnyway, p\<lparr>cp_try_anyway := False\<rparr>)
             else (let p = p\<lparr>cp_stuck := True\<rparr> in (NoRoom (why_stuck model context_window p), p))
         | None \<Rightarrow>
             if cp_try_anyway p then (TryAnyway, p\<lparr>cp_try_anyway := False\<rparr>)
             else (let p = p\<lparr>cp_after := Some sz, cp_stuck := True\<rparr>
                   in (NoRoom (why_stuck model context_window p), p)))"

definition why_if_stuck :: "string \<Rightarrow> u32 \<Rightarrow> compaction_progress \<Rightarrow> string option" where
  "why_if_stuck model context_window p =
     (if cp_stuck p then Some (why_stuck model context_window p) else None)"

definition user_wrote :: "compaction_progress \<Rightarrow> compaction_progress" where
  "user_wrote p =
     p\<lparr>cp_try_anyway := cp_try_anyway p \<or> cp_stuck p, cp_stuck := False, cp_refused_out := False,
       cp_too_small := None, cp_room_retried := False, cp_compact_for_room := False,
       cp_at_limit := min (cp_at_limit p) (MAX_AT_LIMIT - 1),
       cp_refusal_compactions := min (cp_refusal_compactions p) (MAX_REFUSAL_COMPACTIONS - 1)\<rparr>"

definition room_only_at :: "u32 \<Rightarrow> compaction_progress \<Rightarrow> bool \<times> compaction_progress" where
  "room_only_at context_window p = (let p = sync context_window p in (room_only p, p))"

section \<open>Every use of the record, as one operation type\<close>

datatype progress_op =
    Op_step string u32 "u64 option"
  | Op_compacted u32
  | Op_refusal_compacted u32
  | Op_measured token_usage u32
  | Op_guessed u32 u32
  | Op_step_taken
  | Op_retry_taken
  | Op_refused "u64 option"
  | Op_too_small u64 u32
  | Op_why_refused_out string u32
  | Op_cut_for_room "u64 option" u32
  | Op_reply_finished
  | Op_floor_fired u64 string u32
  | Op_user_wrote
  | Op_room_only_at u32

fun progress_run_op :: "compaction_progress \<Rightarrow> progress_op \<Rightarrow> compaction_progress" where
  "progress_run_op p (Op_step m w q) = snd (progress_step m w q p)"
| "progress_run_op p (Op_compacted w) = compacted w p"
| "progress_run_op p (Op_refusal_compacted w) = refusal_compacted w p"
| "progress_run_op p (Op_measured u w) = measured u w p"
| "progress_run_op p (Op_guessed b g) = guessed b g p"
| "progress_run_op p Op_step_taken = step_taken p"
| "progress_run_op p Op_retry_taken = retry_taken p"
| "progress_run_op p (Op_refused i) = refused i p"
| "progress_run_op p (Op_too_small a w) = too_small a w p"
| "progress_run_op p (Op_why_refused_out m w) = snd (why_refused_out m w p)"
| "progress_run_op p (Op_cut_for_room s w) = snd (cut_for_room s w p)"
| "progress_run_op p Op_reply_finished = reply_finished p"
| "progress_run_op p (Op_floor_fired s m w) = snd (floor_fired s m w p)"
| "progress_run_op p Op_user_wrote = user_wrote p"
| "progress_run_op p (Op_room_only_at w) = snd (room_only_at w p)"

text \<open>The window an operation is asked about; \<open>guessed\<close> names the window believed before the guess.\<close>

fun op_window :: "progress_op \<Rightarrow> u32 option" where
  "op_window (Op_step m w q) = Some w"
| "op_window (Op_compacted w) = Some w"
| "op_window (Op_refusal_compacted w) = Some w"
| "op_window (Op_measured u w) = Some w"
| "op_window (Op_guessed b g) = Some b"
| "op_window (Op_too_small a w) = Some w"
| "op_window (Op_why_refused_out m w) = Some w"
| "op_window (Op_cut_for_room s w) = Some w"
| "op_window (Op_floor_fired s m w) = Some w"
| "op_window (Op_room_only_at w) = Some w"
| "op_window _ = None"

section \<open>The invariant\<close>

text \<open>
  \<open>tight\<close> is the count of tight results having reached its bound; a result at the limit is a tight
  one; a count at its bound, a refusal bound or a window too small for the prompt mean \<open>stuck\<close>; and
  nothing is learned against a guess.
\<close>

definition progress_inv :: "compaction_progress \<Rightarrow> bool" where
  "progress_inv p \<longleftrightarrow>
     (cp_tight p \<longleftrightarrow> TIGHT_RESULTS \<le> cp_tight_results p)
   \<and> cp_at_limit p \<le> cp_tight_results p
   \<and> (MAX_AT_LIMIT \<le> cp_at_limit p \<longrightarrow> cp_stuck p)
   \<and> (cp_refused_out p \<longrightarrow> cp_stuck p)
   \<and> (cp_too_small p \<noteq> None \<longrightarrow> cp_stuck p)
   \<and> (cp_guess p \<noteq> None \<longrightarrow> cp_tight_results p = 0)"

lemmas progress_defs =
  forget_measures_def guessed_def compacted_def refusal_compacted_def step_taken_def
  retry_taken_def refused_def too_small_def why_refused_out_def progress_step_def measured_def
  cut_for_room_def reply_finished_def floor_fired_def user_wrote_def room_only_at_def

lemma progress_inv_default [simp]: "progress_inv (default_progress\<lparr>cp_window := w\<rparr>)"
  by (simp add: progress_inv_def default_progress_def progress_consts)

lemma progress_inv_sync [simp]: "progress_inv p \<Longrightarrow> progress_inv (sync w p)"
  by (auto simp: sync_def progress_inv_def forget_measures_def default_progress_def progress_consts)

lemma progress_inv_measured [simp]: "progress_inv p \<Longrightarrow> progress_inv (measured u w p)"
proof -
  assume "progress_inv p"
  then have "progress_inv (sync w p)" by simp
  then show ?thesis
    by (auto simp: measured_def Let_def progress_inv_def progress_consts)
qed

text \<open>Fields the invariant does not read, and the ways \<open>stuck\<close> is set.\<close>

lemma progress_inv_frame [simp]:
  "progress_inv (p\<lparr>cp_awaiting := b\<rparr>) = progress_inv p"
  "progress_inv (p\<lparr>cp_after := a\<rparr>) = progress_inv p"
  "progress_inv (p\<lparr>cp_refusal_compactions := n\<rparr>) = progress_inv p"
  "progress_inv (p\<lparr>cp_compact_for_room := b\<rparr>) = progress_inv p"
  "progress_inv (p\<lparr>cp_room_retried := b\<rparr>) = progress_inv p"
  "progress_inv (p\<lparr>cp_try_anyway := b\<rparr>) = progress_inv p"
  "progress_inv (p\<lparr>cp_believing := b\<rparr>) = progress_inv p"
  by (simp_all add: progress_inv_def)

lemma progress_inv_stuck [simp]:
  "progress_inv p \<Longrightarrow> progress_inv (p\<lparr>cp_stuck := True\<rparr>)"
  "progress_inv p \<Longrightarrow> progress_inv (p\<lparr>cp_stuck := True, cp_refused_out := True\<rparr>)"
  "progress_inv p \<Longrightarrow> progress_inv (p\<lparr>cp_too_small := Some a, cp_stuck := True\<rparr>)"
  by (simp_all add: progress_inv_def)

lemma progress_inv_guessed [simp]: "progress_inv p \<Longrightarrow> progress_inv (guessed b g p)"
  using progress_inv_sync [of p b]
  by (simp add: guessed_def forget_measures_def progress_inv_def progress_consts)

lemma progress_inv_user_wrote [simp]: "progress_inv p \<Longrightarrow> progress_inv (user_wrote p)"
  by (auto simp: user_wrote_def progress_inv_def progress_consts)

lemma progress_inv_step [simp]: "progress_inv p \<Longrightarrow> progress_inv (snd (progress_step m w q p))"
  by (simp add: progress_step_def Let_def)

lemma progress_inv_floor_fired [simp]:
  "progress_inv p \<Longrightarrow> progress_inv (snd (floor_fired z m w p))"
  by (simp add: floor_fired_def Let_def split: option.split)

lemma progress_inv_op: "progress_inv p \<Longrightarrow> progress_inv (progress_run_op p e)"
  by (cases e)
    (simp_all add: compacted_def refusal_compacted_def step_taken_def retry_taken_def refused_def
      too_small_def why_refused_out_def cut_for_room_def reply_finished_def room_only_at_def Let_def)

section \<open>The contracts discharged\<close>

text \<open>
  An operation keeps \<open>stuck\<close> unless it is the user writing, or it asks about another window than the
  one this was learned of.
\<close>

definition same_window :: "compaction_progress \<Rightarrow> progress_op \<Rightarrow> bool" where
  "same_window p e \<longleftrightarrow>
     e \<noteq> Op_user_wrote
   \<and> (op_window e = None \<or> op_window e = cp_window p \<or> op_window e = cp_guess p)"

lemma stuck_sync [simp]:
  "cp_stuck p \<Longrightarrow> Some w = cp_window p \<or> Some w = cp_guess p \<Longrightarrow> cp_stuck (sync w p)"
  by (auto simp: sync_def forget_measures_def)

lemma stuck_measured: "cp_stuck (sync w p) \<Longrightarrow> cp_stuck (measured u w p)"
  by (simp add: measured_def Let_def)

lemma stuck_op: "cp_stuck p \<Longrightarrow> same_window p e \<Longrightarrow> cp_stuck (progress_run_op p e)"
  by (cases e)
    (simp_all add: same_window_def stuck_measured progress_step_def compacted_def
      refusal_compacted_def guessed_def forget_measures_def step_taken_def retry_taken_def
      refused_def too_small_def why_refused_out_def cut_for_room_def reply_finished_def
      floor_fired_def room_only_at_def Let_def split: option.split)

interpretation progress: latch default_progress progress_run_op progress_inv cp_stuck same_window
proof unfold_locales
  show "progress_inv default_progress"
    using progress_inv_default [of "cp_window default_progress"] by simp
qed (simp_all add: progress_inv_op stuck_op)

section \<open>What the counts mean\<close>

text \<open>A compaction and the reply that measures it.\<close>

definition compact_and_measure :: "u32 \<Rightarrow> compaction_progress \<Rightarrow> token_usage \<Rightarrow> compaction_progress" where
  "compact_and_measure w p u = measured u w (compacted w p)"

text \<open>A measured input that leaves too little room under the limit.\<close>

definition at_the_limit :: "u32 \<Rightarrow> token_usage \<Rightarrow> bool" where
  "at_the_limit w u \<longleftrightarrow> 0 < input_of u \<and> limit w < input_of u + SHORT_REPLY_TOKENS"

lemma sync_same [simp]: "cp_window p = Some w \<Longrightarrow> cp_guess p = None \<Longrightarrow> sync w p = p"
  by (simp add: sync_def)

lemma at_the_limit_tight:
  "at_the_limit w u \<Longrightarrow> \<not> input_of u + MIN_ROOM_TO_WORK \<le> compaction_ceiling w"
  by (simp add: at_the_limit_def limit_def compaction_ceiling_def progress_consts) arith

lemma compact_and_measure_at_limit:
  assumes "cp_window p = Some w" "cp_guess p = None" "at_the_limit w u"
  shows "cp_window (compact_and_measure w p u) = Some w"
    and "cp_guess (compact_and_measure w p u) = None"
    and "cp_at_limit (compact_and_measure w p u) = cp_at_limit p + 1"
    and "cp_stuck (compact_and_measure w p u) \<longleftrightarrow> cp_stuck p \<or> MAX_AT_LIMIT \<le> cp_at_limit p + 1"
  using assms at_the_limit_tight [OF assms(3)]
  by (simp_all add: compact_and_measure_def compacted_def measured_def Let_def at_the_limit_def)

lemma at_limit_run:
  assumes "cp_window p = Some w" "cp_guess p = None" "\<forall>u \<in> set us. at_the_limit w u"
  shows "cp_window (foldl (compact_and_measure w) p us) = Some w
       \<and> cp_guess (foldl (compact_and_measure w) p us) = None
       \<and> cp_at_limit (foldl (compact_and_measure w) p us) = cp_at_limit p + length us
       \<and> (us \<noteq> [] \<longrightarrow> MAX_AT_LIMIT \<le> cp_at_limit p + length us \<longrightarrow>
            cp_stuck (foldl (compact_and_measure w) p us))"
  using assms
proof (induction us arbitrary: p)
  case Nil
  then show ?case by simp
next
  case (Cons u us)
  then have u: "at_the_limit w u" by simp
  note q = compact_and_measure_at_limit [OF Cons.prems(1,2) u]
  note ih = Cons.IH [OF q(1,2)]
  show ?case
  proof (cases "us = []")
    case True
    with q show ?thesis by simp
  next
    case False
    with ih q(3) Cons.prems(3) show ?thesis by simp
  qed
qed

end
