(* ===== verification/Reply_Room.thy ===== *)
theory Reply_Room
  imports Compaction_Progress
begin

text \<open>
  \<open>src/turn/room.rs\<close>, what a turn decides about the room a reply gets, and the loop of
  \<open>src/turn/reply.rs\<close> (\<open>build_request_with_room\<close>) that drives it, with the properties of both and of
  the record they share (\<open>Compaction_Progress\<close>).
\<close>

section \<open>The decisions\<close>


definition budget_for :: "u32 \<Rightarrow> u64 \<Rightarrow> u32 option \<Rightarrow> bool \<Rightarrow> reply_budget_t" where
  "budget_for context_window projected output_cap room =
     (let budget = reply_budget context_window projected output_cap
      in if room then budget_within_room budget context_window projected else budget)"



datatype named_refusal = TooSmall string | Retry bool

definition after_named_refusal :: "string \<Rightarrow> u32 \<Rightarrow> u64 \<Rightarrow> u64 \<Rightarrow> named_refusal" where
  "after_named_refusal model context_window alone input =
     (if context_window < alone + MIN_USEFUL_REPLY
      then TooSmall (window_too_small model context_window alone)
      else Retry (context_window < input + (MIN_REPLY_TOKENS + COMPACTION_SAFETY_BUFFER)))"

definition guessed_window :: "u64 \<Rightarrow> u32 \<Rightarrow> u32 option" where
  "guessed_window input believed =
     (let assumed = sat_u32 (input * 3 div 4)
      in if assumed < believed then Some assumed else None)"

section \<open>The request-building loop\<close>






section \<open>Lemmas on budgets held to the room\<close>

lemma budget_for_room_fits:
  "p + COMPACTION_SAFETY_BUFFER < w \<Longrightarrow>
     p + tokens (budget_for w p cap True) + COMPACTION_SAFETY_BUFFER \<le> w"
  by (simp add: budget_for_def Let_def budget_within_room_fits)





section \<open>Properties\<close>

text \<open>
  The record's invariant holds after every sequence of uses: \<open>tight\<close> is exactly two tight results in
  a row, a third result at the limit, a refusal bound or a window too small for the prompt mean the
  conversation is judged not to fit, and nothing is counted against a guessed window.
\<close>

theorem progress_invariant: "progress_inv (foldl progress_run_op default_progress ops)"
  by (rule progress.inv_run)

text \<open>
  (C12) Once a conversation is judged not to fit, no wake spends on it: whatever uses follow at the same
  window, as long as the user has not written, the next step ends the turn, and changes nothing.
\<close>

theorem stuck_spends_nothing:
  assumes "progress_inv p" and "cp_stuck p" and "kept_run progress_run_op same_window p ops"
    and "same_window (foldl progress_run_op p ops) (Op_step model w projected)"
  shows "\<exists>why. fst (progress_step model w projected (foldl progress_run_op p ops)) = Stuck why"
proof -
  let ?q = "foldl progress_run_op p ops"
  from assms(1-3) have "cp_stuck ?q" by (rule progress.up_run)
  moreover from assms(4) have "Some w = cp_window ?q \<or> Some w = cp_guess ?q"
    by (auto simp: same_window_def)
  ultimately have "cp_stuck (sync w ?q)" by (rule stuck_sync)
  then show ?thesis by (simp add: progress_step_def Let_def)
qed

theorem stuck_spends_nothing_witness:
  "\<exists>why. fst (progress_step ''m'' 100 None (foldl progress_run_op
     (default_progress\<lparr>cp_window := Some 100, cp_stuck := True\<rparr>) [Op_compacted 100])) = Stuck why"
  by (rule stuck_spends_nothing)
    (simp_all add: progress_inv_def default_progress_def progress_consts same_window_def
      compacted_def sync_def)

text \<open>
  Compacting for nothing ends: three compactions in a row whose replies measure too little room
  under the limit make the conversation stuck, from any record of this window; the user's next message
  takes that back, one such result short of it.
\<close>

theorem three_results_at_the_limit_stick:
  assumes "cp_window p = Some w" and "cp_guess p = None"
    and "\<forall>u \<in> set us. at_the_limit w u" and "3 \<le> length us" and "at_the_limit w v"
  shows "cp_stuck (foldl (compact_and_measure w) p us)
       \<and> \<not> cp_stuck (user_wrote (foldl (compact_and_measure w) p us))
       \<and> cp_stuck (compact_and_measure w (user_wrote (foldl (compact_and_measure w) p us)) v)"
proof -
  let ?q = "foldl (compact_and_measure w) p us"
  have q: "cp_window ?q = Some w" "cp_guess ?q = None" "3 \<le> cp_at_limit ?q" "cp_stuck ?q"
    using at_limit_run [OF assms(1-3)] assms(4) by (auto simp: MAX_AT_LIMIT_def)
  then have u: "cp_window (user_wrote ?q) = Some w" "cp_guess (user_wrote ?q) = None"
    "cp_at_limit (user_wrote ?q) = 2" "\<not> cp_stuck (user_wrote ?q)"
    by (simp_all add: user_wrote_def MAX_AT_LIMIT_def)
  with q(4) compact_and_measure_at_limit(4) [OF u(1,2) assms(5)] show ?thesis
    by (simp add: MAX_AT_LIMIT_def)
qed

definition full_usage :: token_usage where
  "full_usage = \<lparr>input_tokens = 95000, output_tokens = 10, cache_creation_input_tokens = 0,
     cache_read_input_tokens = 0\<rparr>"

theorem three_results_at_the_limit_stick_witness:
  "cp_stuck (foldl (compact_and_measure 100000) (default_progress\<lparr>cp_window := Some 100000\<rparr>)
      [full_usage, full_usage, full_usage])"
  by (rule three_results_at_the_limit_stick [where v = full_usage, THEN conjunct1])
    (simp_all add: default_progress_def at_the_limit_def full_usage_def input_of_def limit_def
      progress_consts i64_add_def i64_clamp_def i64_max_def i64_min_def)

text \<open>
  A request the trigger lets through leaves room: while no guess is in force, a measured request is
  sent as it is only when it stays the safety buffer and a short reply under the window.
\<close>

theorem step_go_leaves_room:
  assumes "progress_step model w (Some q) p = (Go, p')" and "cp_guess p' = None"
  shows "q + COMPACTION_SAFETY_BUFFER + SHORT_REPLY_TOKENS < w"
proof -
  from assms have "q < (if cp_tight p' then limit w else compaction_ceiling w)"
    by (auto simp: progress_step_def Let_def split: if_splits)
  then show ?thesis
    by (auto simp: limit_def compaction_ceiling_def progress_consts split: if_splits)
qed

theorem step_go_leaves_room_witness:
  "(50000::nat) + COMPACTION_SAFETY_BUFFER + SHORT_REPLY_TOKENS < 100000"
proof (rule step_go_leaves_room)
  show "progress_step ''m'' 100000 (Some 50000) default_progress
      = (Go, default_progress\<lparr>cp_window := Some 100000\<rparr>)"
    by (simp add: progress_step_def sync_def default_progress_def compaction_ceiling_def
        progress_consts)
qed (simp add: default_progress_def)



text \<open>
  A budget fits its window: below the compaction trigger the request and its reply fit together,
  and a budget held to the room also leaves the safety buffer whenever the request itself does.
\<close>

theorem budget_fits_the_window:
  "(projected < compaction_ceiling w \<longrightarrow> projected + tokens (budget_for w projected cap room) \<le> w)
   \<and> (projected + COMPACTION_SAFETY_BUFFER < w \<longrightarrow>
        projected + tokens (budget_for w projected cap True) + COMPACTION_SAFETY_BUFFER \<le> w)"
proof -
  have "tokens (budget_for w projected cap room) \<le> tokens (reply_budget w projected cap)"
    by (simp add: budget_for_def Let_def budget_within_room_le)
  moreover have "projected < compaction_ceiling w \<Longrightarrow>
      projected + tokens (reply_budget w projected cap) \<le> w"
    by (rule reply_budget_fits_below_ceiling)
  ultimately show ?thesis
    by (auto simp: budget_for_room_fits)
qed

theorem budget_fits_the_window_witness:
  "50000 + tokens (budget_for 100000 50000 (Some 8000) True) + COMPACTION_SAFETY_BUFFER \<le> 100000"
  using budget_fits_the_window [of 50000 100000 "Some 8000" True]
  by (simp add: COMPACTION_SAFETY_BUFFER_def)



end
