(* ===== verification/Turn_State.thy ===== *)
theory Turn_State
  imports Compaction_Progress "HOL-Library.AList"
begin

text \<open>
  \<open>src/turn/state.rs\<close>: each conversation's turn state. One entry per conversation
  (\<open>runtime\<close>, the source's \<open>ConversationRuntime\<close>) in one map, and the values the rest of the server
  holds onto: counted turns (\<open>turn_in_flight\<close>), their places in the turn lock's queue and their stop
  receivers. The whole is a \<open>world\<close>; each critical section of the source is one function on it.

  A lock, a stop channel and a counted turn are told apart by a number drawn from \<open>w_next\<close>: the source
  compares \<open>Arc\<close>s and channels by identity only. \<open>w_queue l\<close> is the list of acquisitions of lock \<open>l\<close> that
  have been started and not dropped, in the order they joined; \<open>w_handles\<close> lists the handles on locks
  held outside the map, so \<open>Arc::strong_count(lock) == 1\<close> is the lock having none. A stop receiver is
  the channel it listens to and the counter value it has seen. What is published is kept in \<open>w_log\<close>,
  oldest first. Counters are \<open>nat\<close>: 2^64 turns or stops are out of reach.
\<close>

section \<open>Data\<close>

type_synonym conv_id = int
type_synonym ident = nat

datatype attention = Notified | CutOff | Refused | Failed | Question

text \<open>The derived order of \<open>events::Attention\<close>: the order its variants are written in.\<close>

fun attention_rank :: "attention \<Rightarrow> nat" where
  "attention_rank Notified = 0"
| "attention_rank CutOff = 1"
| "attention_rank Refused = 2"
| "attention_rank Failed = 3"
| "attention_rank Question = 4"

instantiation attention :: linorder
begin

definition less_eq_attention :: "attention \<Rightarrow> attention \<Rightarrow> bool" where
  "less_eq_attention a b \<longleftrightarrow> attention_rank a \<le> attention_rank b"

definition less_attention :: "attention \<Rightarrow> attention \<Rightarrow> bool" where
  "less_attention a b \<longleftrightarrow> attention_rank a < attention_rank b"

instance
proof
  fix a b :: attention
  show "a \<le> b \<Longrightarrow> b \<le> a \<Longrightarrow> a = b"
    by (cases a; cases b) (auto simp: less_eq_attention_def)
qed (auto simp: less_eq_attention_def less_attention_def)

end

record turn_stops =
  st_chan :: ident
  st_count :: nat
  st_noted :: nat

record kept_turn_error =
  ke_generation :: nat
  ke_error :: "string option"

record runtime =
  rt_lock :: "ident option"
  rt_reply :: "string option"
  rt_stops :: "turn_stops option"
  rt_paused :: bool
  rt_turns_in_flight :: nat
  rt_started_at :: "nat option"
  rt_kept :: kept_turn_error
  rt_activity_owed :: bool
  rt_attention :: "attention option"
  rt_notified :: "string option"
  rt_published_notice :: "(nat \<times> string) option"
  rt_published :: "(nat \<times> attention) option"
  rt_forgotten :: bool
  rt_compaction :: compaction_progress

definition default_kept :: kept_turn_error where
  "default_kept = \<lparr>ke_generation = 0, ke_error = None\<rparr>"

definition default_runtime :: runtime where
  "default_runtime =
     \<lparr>rt_lock = None, rt_reply = None, rt_stops = None, rt_paused = False, rt_turns_in_flight = 0,
      rt_started_at = None, rt_kept = default_kept, rt_activity_owed = False, rt_attention = None,
      rt_notified = None, rt_published_notice = None, rt_published = None, rt_forgotten = False,
      rt_compaction = default_progress\<rparr>"

datatype turn_event =
    TurnState conv_id bool
  | TurnError conv_id string
  | ReplyDelta conv_id string nat
  | TurnsChanged
  | QuestionsChanged
  | NeedsUser conv_id attention nat

record turn_in_flight =
  tf_conv :: conv_id
  tf_stop :: "ident \<times> nat"
  tf_place :: "ident option"

record world =
  w_runtimes :: "conv_id \<rightharpoonup> runtime"
  w_turns :: "(ident \<times> turn_in_flight) list"
  w_queue :: "ident \<Rightarrow> ident list"
  w_handles :: "(ident \<times> ident) list"
  w_next :: ident
  w_now :: nat
  w_log :: "turn_event list"

definition start_world :: world where
  "start_world = \<lparr>w_runtimes = Map.empty, w_turns = [], w_queue = (\<lambda>_. []), w_handles = [],
     w_next = 0, w_now = 0, w_log = []\<rparr>"

datatype admission = ByUser | UnlessPaused

section \<open>Getting at an entry\<close>

definition with_runtime :: "conv_id \<Rightarrow> (runtime \<Rightarrow> 'r \<times> runtime) \<Rightarrow> world \<Rightarrow> 'r \<times> world" where
  "with_runtime c f w =
     (let r = (case w_runtimes w c of Some r \<Rightarrow> r | None \<Rightarrow> default_runtime); (res, r') = f r
      in (res, w\<lparr>w_runtimes := (w_runtimes w)(c \<mapsto> r')\<rparr>))"

definition read_runtime :: "conv_id \<Rightarrow> (runtime \<Rightarrow> 'r) \<Rightarrow> world \<Rightarrow> 'r option" where
  "read_runtime c f w = map_option f (w_runtimes w c)"

definition is_idle :: "runtime \<Rightarrow> bool" where
  "is_idle r \<longleftrightarrow>
     rt_lock r = None \<and> rt_reply r = None \<and> rt_stops r = None \<and> \<not> rt_paused r
   \<and> rt_turns_in_flight r = 0 \<and> rt_started_at r = None \<and> rt_attention r = None
   \<and> rt_notified r = None \<and> rt_published_notice r = None \<and> rt_published r = None
   \<and> ke_generation (rt_kept r) = 0 \<and> ke_error (rt_kept r) = None"

definition update_existing_with :: "conv_id \<Rightarrow> (runtime \<Rightarrow> 'r \<times> runtime) \<Rightarrow> world \<Rightarrow> 'r option \<times> world" where
  "update_existing_with c f w =
     (case w_runtimes w c of
        None \<Rightarrow> (None, w)
      | Some r \<Rightarrow>
          (let (res, r') = f r
           in (Some res, w\<lparr>w_runtimes := (w_runtimes w)(c := if is_idle r' then None else Some r')\<rparr>)))"

definition update_existing :: "conv_id \<Rightarrow> (runtime \<Rightarrow> runtime) \<Rightarrow> world \<Rightarrow> world" where
  "update_existing c f w = snd (update_existing_with c (\<lambda>r. ((), f r)) w)"

definition publish :: "turn_event list \<Rightarrow> world \<Rightarrow> world" where
  "publish es w = w\<lparr>w_log := w_log w @ es\<rparr>"

section \<open>The turn lock and the stop counter\<close>

text \<open>
  \<open>stop_receiver\<close>: the entry's stop counter, made (on a fresh channel) if there is none, and a receiver
  that has seen its current value.
\<close>

definition stop_receiver :: "ident \<Rightarrow> runtime \<Rightarrow> (ident \<times> nat) \<times> runtime" where
  "stop_receiver fresh r =
     (let s = (case rt_stops r of Some s \<Rightarrow> s
               | None \<Rightarrow> \<lparr>st_chan = fresh, st_count = 0, st_noted = 0\<rparr>)
      in ((st_chan s, st_count s), r\<lparr>rt_stops := Some s\<rparr>))"

definition get_lock :: "ident \<Rightarrow> runtime \<Rightarrow> ident \<times> runtime" where
  "get_lock fresh r =
     (let l = (case rt_lock r of Some l \<Rightarrow> l | None \<Rightarrow> fresh) in (l, r\<lparr>rt_lock := Some l\<rparr>))"

definition handles_on :: "world \<Rightarrow> ident \<Rightarrow> bool" where
  "handles_on w l \<longleftrightarrow> l \<in> snd ` set (w_handles w)"

definition receiver_count :: "world \<Rightarrow> ident \<Rightarrow> nat" where
  "receiver_count w ch = length (filter (\<lambda>(k, t). fst (tf_stop t) = ch) (w_turns w))"

definition release_idle :: "world \<Rightarrow> runtime \<Rightarrow> runtime" where
  "release_idle w r =
     (let r = (case rt_lock r of
                 Some l \<Rightarrow> if \<not> handles_on w l then r\<lparr>rt_lock := None\<rparr> else r
               | None \<Rightarrow> r)
      in case rt_stops r of
           Some s \<Rightarrow> if receiver_count w (st_chan s) = 0 then r\<lparr>rt_stops := None\<rparr> else r
         | None \<Rightarrow> r)"

text \<open>
  \<open>TurnPlace::join\<close> polls the acquisition once, so it is queued at once; dropping a place leaves the
  queue, or frees the lock when it was granted, and gives up its handle.
\<close>

definition join_lock :: "ident \<Rightarrow> ident \<Rightarrow> world \<Rightarrow> world" where
  "join_lock k l w =
     w\<lparr>w_queue := (w_queue w)(l := w_queue w l @ [k]), w_handles := w_handles w @ [(k, l)]\<rparr>"

definition leave_lock :: "ident \<Rightarrow> ident \<Rightarrow> world \<Rightarrow> world" where
  "leave_lock k l w =
     w\<lparr>w_queue := (w_queue w)(l := removeAll k (w_queue w l)),
       w_handles := removeAll (k, l) (w_handles w)\<rparr>"

text \<open>\<open>conversation_lock\<close>: a handle on the conversation's lock for a caller outside any turn, and the
  caller's wait on it.\<close>

definition conversation_lock :: "conv_id \<Rightarrow> world \<Rightarrow> (ident \<times> ident) \<times> world" where
  "conversation_lock c w =
     (let k = w_next w; (l, w') = with_runtime c (get_lock (Suc k)) w
      in ((k, l), join_lock k l (w'\<lparr>w_next := k + 2\<rparr>)))"

section \<open>Admission\<close>

definition admit_runtime ::
  "admission \<Rightarrow> ident \<Rightarrow> nat \<Rightarrow> runtime \<Rightarrow>
     (bool \<times> bool \<times> (ident \<times> nat) \<times> ident \<times> nat) option \<times> runtime" where
  "admit_runtime adm fresh now r =
     (if adm = UnlessPaused \<and> rt_paused r then (None, r)
      else
        (let cleared = (adm = ByUser \<and> rt_published r \<noteq> None);
             r = (case adm of
                    ByUser \<Rightarrow>
                      r\<lparr>rt_paused := False,
                        rt_kept := \<lparr>ke_generation = ke_generation (rt_kept r) + 1, ke_error = None\<rparr>,
                        rt_published := None\<rparr>
                  | UnlessPaused \<Rightarrow> r);
             r = r\<lparr>rt_turns_in_flight := rt_turns_in_flight r + 1\<rparr>;
             (stop, r) = stop_receiver fresh r;
             (l, r) = get_lock (Suc fresh) r;
             first = (rt_turns_in_flight r = 1);
             r = (if first then r\<lparr>rt_attention := None, rt_notified := None, rt_started_at := Some now\<rparr>
                  else r)
         in (Some (first, cleared, stop, l, ke_generation (rt_kept r)), r)))"

definition admit :: "conv_id \<Rightarrow> admission \<Rightarrow> world \<Rightarrow> (ident \<times> nat) option \<times> world" where
  "admit c adm w =
     (let n = w_next w; (res, w1) = with_runtime c (admit_runtime adm n (w_now w)) w
      in case res of
           None \<Rightarrow> (None, w1)
         | Some (first, cleared, stop, l, gen) \<Rightarrow>
             (let k = n + 2;
                  w2 = join_lock k l (w1\<lparr>w_next := n + 3\<rparr>);
                  w3 = w2\<lparr>w_turns := w_turns w2 @ [(k, \<lparr>tf_conv = c, tf_stop = stop, tf_place = Some l\<rparr>)]\<rparr>
              in (Some (k, gen),
                  publish (if first then [TurnState c True, TurnsChanged]
                           else if cleared then [QuestionsChanged] else []) w3)))"

definition start_by_user :: "conv_id \<Rightarrow> world \<Rightarrow> (ident \<times> nat) option \<times> world" where
  "start_by_user c = admit c ByUser"

definition start_unless_paused :: "conv_id \<Rightarrow> world \<Rightarrow> ident option \<times> world" where
  "start_unless_paused c w = (let (res, w') = admit c UnlessPaused w in (map_option fst res, w'))"

text \<open>
  \<open>take_place\<close> moves a turn's place to the future that runs it; \<open>end_run\<close> is that future done or
  dropped, which drops the place.
\<close>

definition take_place :: "ident \<Rightarrow> world \<Rightarrow> world" where
  "take_place k w = w\<lparr>w_turns := map (\<lambda>(k', t). (k', if k' = k then t\<lparr>tf_place := None\<rparr> else t)) (w_turns w)\<rparr>"

definition end_run :: "ident \<Rightarrow> ident \<Rightarrow> world \<Rightarrow> world" where
  "end_run k l w = leave_lock k l w"

section \<open>A turn's end\<close>

definition drop_runtime :: "world \<Rightarrow> runtime \<Rightarrow> (bool \<times> attention option \<times> nat) \<times> runtime" where
  "drop_runtime w r =
     (let r = r\<lparr>rt_turns_in_flight := rt_turns_in_flight r - 1\<rparr>
      in if rt_turns_in_flight r \<noteq> 0 then ((False, None, 0), r)
         else
           (let owed = rt_attention r;
                r = r\<lparr>rt_attention := None\<rparr>;
                generation = ke_generation (rt_kept r);
                repeat = (owed = Some Failed
                          \<and> (case rt_published r of Some (_, a) \<Rightarrow> a = Failed | None \<Rightarrow> False));
                owed = (if repeat then None else owed);
                r = (case owed of
                       Some a \<Rightarrow> if \<not> rt_forgotten r then r\<lparr>rt_published := Some (generation, a)\<rparr> else r
                     | None \<Rightarrow> r);
                message = rt_notified r;
                r = r\<lparr>rt_notified := None\<rparr>;
                r = (case message of
                       Some m \<Rightarrow> if \<not> rt_forgotten r then r\<lparr>rt_published_notice := Some (generation, m)\<rparr> else r
                     | None \<Rightarrow> r);
                r = release_idle w (r\<lparr>rt_started_at := None, rt_reply := None\<rparr>)
            in ((True, owed, generation), r)))"

text \<open>
  What the guard's \<open>Drop\<close> gives up first (its place, its stop receiver), and what it publishes once the
  entry is settled: the end of the busy spell, inside the critical section, then the app-wide events.
\<close>

definition without_turn :: "ident \<Rightarrow> turn_in_flight \<Rightarrow> world \<Rightarrow> world" where
  "without_turn k t w =
     (let w1 = (case tf_place t of Some l \<Rightarrow> leave_lock k l w | None \<Rightarrow> w)
      in w1\<lparr>w_turns := filter (\<lambda>(k', _). k' \<noteq> k) (w_turns w1)\<rparr>)"

fun drop_events :: "conv_id \<Rightarrow> bool \<times> attention option \<times> nat \<Rightarrow> turn_event list" where
  "drop_events c (False, _, _) = []"
| "drop_events c (True, owed, generation) =
     [TurnState c False, TurnsChanged]
     @ (case owed of Some a \<Rightarrow> [NeedsUser c a generation] | None \<Rightarrow> [])"

definition drop_turn :: "ident \<Rightarrow> world \<Rightarrow> world" where
  "drop_turn k w =
     (case map_of (w_turns w) k of
        None \<Rightarrow> w
      | Some t \<Rightarrow>
          (let c = tf_conv t;
               w' = without_turn k t w;
               (res, w'') = update_existing_with c (drop_runtime w') w'
           in publish (case res of Some x \<Rightarrow> drop_events c x | None \<Rightarrow> []) w''))"

section \<open>Stops, pauses and the delete's forget\<close>

definition stop_turn_now :: "conv_id \<Rightarrow> world \<Rightarrow> world" where
  "stop_turn_now c w =
     snd (with_runtime c
       (\<lambda>r. ((), r\<lparr>rt_paused := True,
                  rt_stops := map_option (\<lambda>s. s\<lparr>st_count := st_count s + 1\<rparr>) (rt_stops r)\<rparr>)) w)"

definition note_stop :: "conv_id \<Rightarrow> nat \<Rightarrow> world \<Rightarrow> bool \<times> world" where
  "note_stop c stopped_by w =
     (let n = w_next w;
          (first, w') = with_runtime c
            (\<lambda>r. let s = (case rt_stops r of Some s \<Rightarrow> s
                          | None \<Rightarrow> \<lparr>st_chan = n, st_count = 0, st_noted = 0\<rparr>)
                 in (st_noted s < stopped_by,
                     r\<lparr>rt_stops := Some (s\<lparr>st_noted := max (st_noted s) stopped_by\<rparr>)\<rparr>)) w
      in (first, w'\<lparr>w_next := n + 1\<rparr>))"

definition restore_pause :: "conv_id \<Rightarrow> world \<Rightarrow> world" where
  "restore_pause c w = snd (with_runtime c (\<lambda>r. ((), r\<lparr>rt_paused := True\<rparr>)) w)"

definition is_paused :: "conv_id \<Rightarrow> world \<Rightarrow> bool" where
  "is_paused c w = (case read_runtime c rt_paused w of Some b \<Rightarrow> b | None \<Rightarrow> False)"

definition forget_conversation_lock :: "conv_id \<Rightarrow> world \<Rightarrow> world" where
  "forget_conversation_lock c =
     update_existing c
       (\<lambda>r. r\<lparr>rt_lock := None, rt_stops := None, rt_paused := False, rt_attention := None,
              rt_notified := None, rt_published_notice := None, rt_published := None,
              rt_forgotten := True, rt_compaction := default_progress, rt_kept := default_kept\<rparr>)"

definition release_idle_turn_state :: "conv_id \<Rightarrow> world \<Rightarrow> world" where
  "release_idle_turn_state c w = update_existing c (release_idle w) w"

section \<open>The reply in progress\<close>

definition reply_in_progress :: "conv_id \<Rightarrow> world \<Rightarrow> string option" where
  "reply_in_progress c w =
     (case read_runtime c rt_reply w of
        Some (Some text) \<Rightarrow> if text = [] then None else Some text
      | _ \<Rightarrow> None)"

definition clear_reply_in_progress :: "conv_id \<Rightarrow> world \<Rightarrow> world" where
  "clear_reply_in_progress c = update_existing c (\<lambda>r. r\<lparr>rt_reply := None\<rparr>)"

text \<open>\<open>append_reply\<close> with the callback \<open>relay_reply_delta\<close> gives it.\<close>

definition append_reply :: "conv_id \<Rightarrow> string \<Rightarrow> world \<Rightarrow> world" where
  "append_reply c delta w =
     (let (off, w') = with_runtime c
            (\<lambda>r. let reply = (case rt_reply r of Some t \<Rightarrow> t | None \<Rightarrow> [])
                 in (length reply, r\<lparr>rt_reply := Some (reply @ delta)\<rparr>)) w
      in publish [ReplyDelta c delta off] w')"

section \<open>Attention\<close>

definition set_activity_owed :: "conv_id \<Rightarrow> world \<Rightarrow> world" where
  "set_activity_owed c = update_existing c (\<lambda>r. r\<lparr>rt_activity_owed := True\<rparr>)"

definition take_activity_owed :: "conv_id \<Rightarrow> world \<Rightarrow> bool \<times> world" where
  "take_activity_owed c w =
     (let (res, w') = update_existing_with c (\<lambda>r. (rt_activity_owed r, r\<lparr>rt_activity_owed := False\<rparr>)) w
      in (case res of Some b \<Rightarrow> b | None \<Rightarrow> False, w'))"

definition max_attention :: "attention option \<Rightarrow> attention \<Rightarrow> attention" where
  "max_attention kept a = (case kept of None \<Rightarrow> a | Some k \<Rightarrow> max k a)"

definition note_attention :: "conv_id \<Rightarrow> attention \<Rightarrow> world \<Rightarrow> world" where
  "note_attention c a =
     update_existing c (\<lambda>r. r\<lparr>rt_attention := Some (max_attention (rt_attention r) a)\<rparr>)"

definition forgo_child_outcome :: "conv_id \<Rightarrow> world \<Rightarrow> world" where
  "forgo_child_outcome c =
     update_existing c
       (\<lambda>r. if rt_attention r \<in> {Some Failed, Some CutOff, Some Refused}
            then r\<lparr>rt_attention := None\<rparr> else r)"

definition clear_attention :: "conv_id \<Rightarrow> world \<Rightarrow> world" where
  "clear_attention c = update_existing c (\<lambda>r. r\<lparr>rt_attention := None, rt_notified := None\<rparr>)"

definition note_notified :: "conv_id \<Rightarrow> string \<Rightarrow> world \<Rightarrow> world" where
  "note_notified c message =
     update_existing c
       (\<lambda>r. r\<lparr>rt_attention := Some (max_attention (rt_attention r) Notified),
              rt_notified := Some message\<rparr>)"

definition published_notice :: "conv_id \<Rightarrow> nat \<Rightarrow> world \<Rightarrow> string option" where
  "published_notice c generation w =
     (case read_runtime c rt_published_notice w of
        Some (Some (g, m)) \<Rightarrow> if g = generation then Some m else None
      | _ \<Rightarrow> None)"

definition published_generation :: "conv_id \<Rightarrow> world \<Rightarrow> nat option" where
  "published_generation c w =
     (case read_runtime c rt_published w of Some p \<Rightarrow> map_option fst p | None \<Rightarrow> None)"

definition note_trust_decided :: "conv_id \<Rightarrow> world \<Rightarrow> world" where
  "note_trust_decided c w =
     (let (cleared, w') = update_existing_with c
            (\<lambda>r. let q = (case rt_published r of Some (_, a) \<Rightarrow> a = Question | None \<Rightarrow> False)
                 in (q, if q then r\<lparr>rt_published := None\<rparr> else r)) w
      in if cleared = Some True then publish [QuestionsChanged] w' else w')"

definition turn_running :: "conv_id \<Rightarrow> world \<Rightarrow> bool" where
  "turn_running c w =
     (case read_runtime c (\<lambda>r. 0 < rt_turns_in_flight r) w of Some b \<Rightarrow> b | None \<Rightarrow> False)"

section \<open>Generations and the kept error\<close>

definition take_turn_generation :: "conv_id \<Rightarrow> ident \<Rightarrow> world \<Rightarrow> nat option \<times> world" where
  "take_turn_generation c held w =
     (let (res, w') = update_existing_with c
            (\<lambda>r. if rt_lock r \<noteq> Some held then (None, r)
                 else (let g = ke_generation (rt_kept r) + 1
                       in (Some g, r\<lparr>rt_kept := \<lparr>ke_generation = g, ke_error = None\<rparr>\<rparr>))) w
      in (case res of Some g \<Rightarrow> g | None \<Rightarrow> None, w'))"

definition forget_turn_generation :: "conv_id \<Rightarrow> world \<Rightarrow> world" where
  "forget_turn_generation c =
     update_existing c
       (\<lambda>r. r\<lparr>rt_kept := default_kept, rt_published := None, rt_forgotten := True\<rparr>)"

definition keep_turn_error :: "conv_id \<Rightarrow> nat \<Rightarrow> string \<Rightarrow> world \<Rightarrow> world" where
  "keep_turn_error c generation e =
     update_existing c
       (\<lambda>r. if ke_generation (rt_kept r) = generation
            then r\<lparr>rt_kept := (rt_kept r)\<lparr>ke_error := Some e\<rparr>\<rparr> else r)"

definition show_conversation_error :: "conv_id \<Rightarrow> string \<Rightarrow> world \<Rightarrow> world" where
  "show_conversation_error c message w =
     publish [TurnError c message]
       (snd (with_runtime c (\<lambda>r. ((), r\<lparr>rt_kept := (rt_kept r)\<lparr>ke_error := Some message\<rparr>\<rparr>)) w))"

definition last_turn_error :: "conv_id \<Rightarrow> world \<Rightarrow> string option" where
  "last_turn_error c w =
     (case read_runtime c (\<lambda>r. ke_error (rt_kept r)) w of Some e \<Rightarrow> e | None \<Rightarrow> None)"

definition with_compaction_progress ::
  "conv_id \<Rightarrow> (compaction_progress \<Rightarrow> 'r \<times> compaction_progress) \<Rightarrow> world \<Rightarrow> 'r \<times> world" where
  "with_compaction_progress c f =
     with_runtime c (\<lambda>r. let (res, p) = f (rt_compaction r) in (res, r\<lparr>rt_compaction := p\<rparr>))"

end
