(* ===== verification/Turn_Protocol.thy ===== *)
theory Turn_Protocol
  imports Turn_State Machines
begin

text \<open>
  The turn state as a protocol: every operation of \<open>Turn_State\<close> as one step, guarded by what its callers
  under \<open>src/turn\<close> do (the operations that run inside a turn need a counted turn; a turn is dropped
  after the future that ran it), the worlds such steps reach, and the invariants of those worlds.
\<close>

section \<open>Operations, guards and reachable worlds\<close>

datatype turn_op =
    T_admit conv_id admission
  | T_take_place ident
  | T_end_run ident ident
  | T_drop ident
  | T_stop conv_id
  | T_note_stop conv_id nat
  | T_restore_pause conv_id
  | T_forget conv_id
  | T_append_reply conv_id string
  | T_clear_reply conv_id
  | T_set_activity conv_id
  | T_take_activity conv_id
  | T_note_attention conv_id attention
  | T_note_notified conv_id string
  | T_clear_attention conv_id
  | T_forgo_child conv_id
  | T_trust_decided conv_id
  | T_take_generation conv_id ident
  | T_forget_generation conv_id
  | T_keep_error conv_id nat string
  | T_show_error conv_id string
  | T_compaction conv_id progress_op
  | T_lock conv_id
  | T_release conv_id
  | T_tick

definition live :: "world \<Rightarrow> conv_id \<Rightarrow> bool" where
  "live w c \<longleftrightarrow> list_ex (\<lambda>(k, t). tf_conv t = c) (w_turns w)"

definition place_in_turn :: "world \<Rightarrow> ident \<Rightarrow> bool" where
  "place_in_turn w k \<longleftrightarrow> list_ex (\<lambda>(k', t). k' = k \<and> tf_place t \<noteq> None) (w_turns w)"

fun turn_op_ok :: "world \<Rightarrow> turn_op \<Rightarrow> bool" where
  "turn_op_ok w (T_take_place k) = (map_of (w_turns w) k \<noteq> None)"
| "turn_op_ok w (T_end_run k l) = ((k, l) \<in> set (w_handles w) \<and> \<not> place_in_turn w k)"
| "turn_op_ok w (T_drop k) =
     (map_of (w_turns w) k \<noteq> None \<and> (place_in_turn w k \<or> k \<notin> fst ` set (w_handles w)))"
| "turn_op_ok w (T_note_stop c n) = live w c"
| "turn_op_ok w (T_append_reply c d) = live w c"
| "turn_op_ok w (T_note_attention c a) = live w c"
| "turn_op_ok w (T_note_notified c m) = live w c"
| "turn_op_ok w (T_take_generation c l) = live w c"
| "turn_op_ok w (T_forget_generation c) = live w c"
| "turn_op_ok w (T_keep_error c g e) = live w c"
| "turn_op_ok w (T_compaction c p) = live w c"
| "turn_op_ok w _ = True"

fun run_turn_op :: "world \<Rightarrow> turn_op \<Rightarrow> world" where
  "run_turn_op w (T_admit c adm) = snd (admit c adm w)"
| "run_turn_op w (T_take_place k) = take_place k w"
| "run_turn_op w (T_end_run k l) = end_run k l w"
| "run_turn_op w (T_drop k) = drop_turn k w"
| "run_turn_op w (T_stop c) = stop_turn_now c w"
| "run_turn_op w (T_note_stop c n) = snd (note_stop c n w)"
| "run_turn_op w (T_restore_pause c) = restore_pause c w"
| "run_turn_op w (T_forget c) = forget_conversation_lock c w"
| "run_turn_op w (T_append_reply c d) = append_reply c d w"
| "run_turn_op w (T_clear_reply c) = clear_reply_in_progress c w"
| "run_turn_op w (T_set_activity c) = set_activity_owed c w"
| "run_turn_op w (T_take_activity c) = snd (take_activity_owed c w)"
| "run_turn_op w (T_note_attention c a) = note_attention c a w"
| "run_turn_op w (T_note_notified c m) = note_notified c m w"
| "run_turn_op w (T_clear_attention c) = clear_attention c w"
| "run_turn_op w (T_forgo_child c) = forgo_child_outcome c w"
| "run_turn_op w (T_trust_decided c) = note_trust_decided c w"
| "run_turn_op w (T_take_generation c l) = snd (take_turn_generation c l w)"
| "run_turn_op w (T_forget_generation c) = forget_turn_generation c w"
| "run_turn_op w (T_keep_error c g e) = keep_turn_error c g e w"
| "run_turn_op w (T_show_error c m) = show_conversation_error c m w"
| "run_turn_op w (T_compaction c p) =
     snd (with_compaction_progress c (\<lambda>q. ((), progress_run_op q p)) w)"
| "run_turn_op w (T_lock c) = snd (conversation_lock c w)"
| "run_turn_op w (T_release c) = release_idle_turn_state c w"
| "run_turn_op w T_tick = w\<lparr>w_now := w_now w + 1\<rparr>"

inductive turn_step :: "world \<Rightarrow> world \<Rightarrow> bool" where
  turn_stepI: "turn_op_ok w e \<Longrightarrow> turn_step w (run_turn_op w e)"

inductive turn_reach :: "world \<Rightarrow> bool" where
  turn_start: "turn_reach start_world"
| turn_next: "turn_reach w \<Longrightarrow> turn_step w w' \<Longrightarrow> turn_reach w'"

inductive_cases turn_stepE: "turn_step w w'"

text \<open>A run of guarded operations, as the \<open>machine\<close> contract reads one: a step not allowed is no step.\<close>

definition guarded_op :: "world \<Rightarrow> turn_op \<Rightarrow> world" where
  "guarded_op w e = (if turn_op_ok w e then run_turn_op w e else w)"

lemma reach_guarded: "turn_reach w \<Longrightarrow> turn_reach (guarded_op w e)"
  by (auto simp: guarded_op_def intro: turn_next turn_stepI)

lemma reach_run: "turn_reach (foldl guarded_op start_world es)"
proof -
  have "turn_reach w \<Longrightarrow> turn_reach (foldl guarded_op w es)" for w
    by (induction es arbitrary: w) (auto intro: reach_guarded)
  then show ?thesis by (blast intro: turn_start)
qed

section \<open>The counts agree with the turns alive\<close>

definition live_count :: "world \<Rightarrow> conv_id \<Rightarrow> nat" where
  "live_count w c = length (filter (\<lambda>(k, t). tf_conv t = c) (w_turns w))"

lemma live_iff: "live w c \<longleftrightarrow> 0 < live_count w c"
  by (auto simp: live_def live_count_def list_ex_iff filter_empty_conv)

definition entry_ok :: "nat \<Rightarrow> runtime \<Rightarrow> bool" where
  "entry_ok n r \<longleftrightarrow>
     rt_turns_in_flight r = n
   \<and> (rt_started_at r \<noteq> None \<longleftrightarrow> 0 < n)
   \<and> (n = 0 \<longrightarrow> rt_attention r = None \<and> rt_notified r = None \<and> rt_reply r = None)
   \<and> (\<forall>g a. rt_published r = Some (g, a) \<longrightarrow> g \<le> ke_generation (rt_kept r))"

text \<open>A conversation's entry; one with none is as if it had the default one, which is what its next use
  makes.\<close>

definition entry_of :: "world \<Rightarrow> conv_id \<Rightarrow> runtime" where
  "entry_of w c = (case w_runtimes w c of Some r \<Rightarrow> r | None \<Rightarrow> default_runtime)"

definition count_inv :: "world \<Rightarrow> bool" where
  "count_inv w \<longleftrightarrow> (\<forall>c. entry_ok (live_count w c) (entry_of w c))"

lemma entry_ok_default [simp]: "entry_ok n default_runtime \<longleftrightarrow> n = 0"
  by (auto simp: entry_ok_def default_runtime_def)

lemma idle_entry: "entry_ok n r \<Longrightarrow> is_idle r \<Longrightarrow> n = 0"
  by (simp add: entry_ok_def is_idle_def)

lemma entry_of_Some [simp]: "w_runtimes w c = Some r \<Longrightarrow> entry_of w c = r"
  by (simp add: entry_of_def)

lemma entry_of_None [simp]: "w_runtimes w c = None \<Longrightarrow> entry_of w c = default_runtime"
  by (simp add: entry_of_def)

lemma entry_of_upd [simp]:
  "entry_of (w\<lparr>w_runtimes := (w_runtimes w)(c := x)\<rparr>) d =
     (if d = c then case x of Some r \<Rightarrow> r | None \<Rightarrow> default_runtime else entry_of w d)"
  by (simp add: entry_of_def)

lemma entry_of_frame [simp]:
  "entry_of (w\<lparr>w_turns := a\<rparr>) c = entry_of w c" "entry_of (w\<lparr>w_queue := q\<rparr>) c = entry_of w c"
  "entry_of (w\<lparr>w_handles := h\<rparr>) c = entry_of w c" "entry_of (w\<lparr>w_next := n\<rparr>) c = entry_of w c"
  "entry_of (w\<lparr>w_now := n\<rparr>) c = entry_of w c" "entry_of (w\<lparr>w_log := l\<rparr>) c = entry_of w c"
  by (simp_all add: entry_of_def)

lemma live_count_frame [simp]:
  "live_count (w\<lparr>w_runtimes := a\<rparr>) c = live_count w c" "live_count (w\<lparr>w_queue := q\<rparr>) c = live_count w c"
  "live_count (w\<lparr>w_handles := h\<rparr>) c = live_count w c" "live_count (w\<lparr>w_next := n\<rparr>) c = live_count w c"
  "live_count (w\<lparr>w_now := n\<rparr>) c = live_count w c" "live_count (w\<lparr>w_log := l\<rparr>) c = live_count w c"
  by (simp_all add: live_count_def)

lemma live_count_snoc [simp]:
  "live_count (w\<lparr>w_turns := ts @ [(k, t)]\<rparr>) c =
     live_count (w\<lparr>w_turns := ts\<rparr>) c + (if tf_conv t = c then 1 else 0)"
  by (simp add: live_count_def)

text \<open>The shape of the two ways to change an entry.\<close>

lemma with_runtime_eq:
  "with_runtime c f w =
     (fst (f (entry_of w c)), w\<lparr>w_runtimes := (w_runtimes w)(c \<mapsto> snd (f (entry_of w c)))\<rparr>)"
  by (simp add: with_runtime_def entry_of_def Let_def split: prod.split option.split)

lemma update_existing_eq:
  "update_existing c f w =
     (case w_runtimes w c of
        None \<Rightarrow> w
      | Some r \<Rightarrow> w\<lparr>w_runtimes := (w_runtimes w)(c := if is_idle (f r) then None else Some (f r))\<rparr>)"
  by (simp add: update_existing_def update_existing_with_def split: option.split)

lemma update_existing_with_eq:
  "update_existing_with c f w =
     (map_option (fst \<circ> f) (w_runtimes w c), update_existing c (snd \<circ> f) w)"
  by (simp add: update_existing_def update_existing_with_def split: option.split prod.split)

lemma count_inv_with_runtime:
  "count_inv w \<Longrightarrow> entry_ok (live_count w c) (snd (f (entry_of w c))) \<Longrightarrow>
     count_inv (snd (with_runtime c f w))"
  by (simp add: with_runtime_eq count_inv_def)

lemma count_inv_update_existing:
  assumes "count_inv w"
    and "\<And>r. entry_ok (live_count w c) r \<Longrightarrow> entry_ok (live_count w c) (f r)"
  shows "count_inv (update_existing c f w)"
proof (cases "w_runtimes w c")
  case None
  with assms show ?thesis by (simp add: update_existing_eq)
next
  case (Some r)
  with assms(1) have "entry_ok (live_count w c) r"
    by (metis count_inv_def entry_of_Some)
  then have ok: "entry_ok (live_count w c) (f r)" by (rule assms(2))
  with Some assms(1) idle_entry [OF ok] show ?thesis
    by (simp add: update_existing_eq count_inv_def)
qed

lemma entry_ok_frame [simp]:
  "entry_ok n (r\<lparr>rt_lock := l\<rparr>) = entry_ok n r" "entry_ok n (r\<lparr>rt_stops := s\<rparr>) = entry_ok n r"
  "entry_ok n (r\<lparr>rt_paused := b\<rparr>) = entry_ok n r" "entry_ok n (r\<lparr>rt_activity_owed := b\<rparr>) = entry_ok n r"
  "entry_ok n (r\<lparr>rt_forgotten := b\<rparr>) = entry_ok n r"
  "entry_ok n (r\<lparr>rt_published_notice := x\<rparr>) = entry_ok n r"
  "entry_ok n (r\<lparr>rt_compaction := p\<rparr>) = entry_ok n r"
  by (simp_all add: entry_ok_def)

lemma entry_ok_release_idle [simp]: "entry_ok n (release_idle w r) = entry_ok n r"
  by (simp add: release_idle_def Let_def split: option.split)

lemma entry_ok_admit:
  assumes "entry_ok n r" and "admit_runtime adm fresh now r = (Some x, r')"
  shows "entry_ok (Suc n) r'"
  using assms
  by (cases adm)
    (auto simp: admit_runtime_def stop_receiver_def get_lock_def Let_def entry_ok_def
      split: if_splits)

lemma entry_ok_drop:
  assumes "entry_ok (Suc n) r"
  shows "entry_ok n (snd (drop_runtime w r))"
proof (cases n)
  case 0
  with assms have "entry_ok 0 (snd (drop_runtime w r))"
    by (simp add: drop_runtime_def Let_def split: option.split)
       (simp add: entry_ok_def)
  with 0 show ?thesis by simp
next
  case (Suc m)
  with assms show ?thesis by (simp add: drop_runtime_def Let_def entry_ok_def)
qed

section \<open>Every step keeps the counts\<close>

lemma live_count_leave [simp]: "live_count (leave_lock k l w) c = live_count w c"
  by (simp add: leave_lock_def live_count_def)

lemma entry_of_leave [simp]: "entry_of (leave_lock k l w) c = entry_of w c"
  by (simp add: leave_lock_def entry_of_def)

lemma live_count_join [simp]: "live_count (join_lock k l w) c = live_count w c"
  by (simp add: join_lock_def live_count_def)

lemma entry_of_join [simp]: "entry_of (join_lock k l w) c = entry_of w c"
  by (simp add: join_lock_def entry_of_def)

lemma publish_frame [simp]:
  "live_count (publish es w) c = live_count w c" "entry_of (publish es w) c = entry_of w c"
  "w_turns (publish es w) = w_turns w" "w_runtimes (publish es w) = w_runtimes w"
  "w_queue (publish es w) = w_queue w" "w_handles (publish es w) = w_handles w"
  "w_next (publish es w) = w_next w" "w_log (publish es w) = w_log w @ es"
  by (simp_all add: publish_def live_count_def entry_of_def)

lemma count_inv_publish [simp]: "count_inv (publish es w) = count_inv w"
  by (simp add: count_inv_def)

lemma count_inv_next [simp]: "count_inv (w\<lparr>w_next := n\<rparr>) = count_inv w"
  by (simp add: count_inv_def)

lemma live_count_take_place [simp]: "live_count (take_place k w) c = live_count w c"
proof -
  have "length (filter (\<lambda>(j, u). tf_conv u = c)
      (map (\<lambda>(j, u). (j, if j = k then u\<lparr>tf_place := None\<rparr> else u)) ts))
    = length (filter (\<lambda>(j, u). tf_conv u = c) ts)" for ts
    by (induction ts) (auto split: if_splits)
  then show ?thesis by (simp add: live_count_def take_place_def)
qed

lemma admit_cases:
  obtains (refused) "admit c adm w = (None, w\<lparr>w_runtimes := (w_runtimes w)(c \<mapsto> entry_of w c)\<rparr>)"
      "adm = UnlessPaused" "rt_paused (entry_of w c)"
  | (admitted) first cleared stop l gen r' where
      "admit_runtime adm (w_next w) (w_now w) (entry_of w c) = (Some (first, cleared, stop, l, gen), r')"
      "admit c adm w = (Some (w_next w + 2, gen),
         publish (if first then [TurnState c True, TurnsChanged]
                  else if cleared then [QuestionsChanged] else [])
           ((join_lock (w_next w + 2) l
              (w\<lparr>w_runtimes := (w_runtimes w)(c \<mapsto> r'), w_next := w_next w + 3\<rparr>))
            \<lparr>w_turns := w_turns w @
              [(w_next w + 2, \<lparr>tf_conv = c, tf_stop = stop, tf_place = Some l\<rparr>)]\<rparr>))"
proof -
  obtain res r' where a: "admit_runtime adm (w_next w) (w_now w) (entry_of w c) = (res, r')"
    by fastforce
  show thesis
  proof (cases res)
    case None
    with a have "adm = UnlessPaused" "rt_paused (entry_of w c)" "r' = entry_of w c"
      by (auto simp: admit_runtime_def Let_def split: if_splits prod.splits)
    with a None show ?thesis
      by (intro refused) (simp_all add: admit_def with_runtime_eq Let_def)
  next
    case (Some x)
    obtain first cleared stop l gen where "x = (first, cleared, stop, l, gen)"
      by (cases x) auto
    with a Some show ?thesis
      by (intro admitted [of first cleared stop l gen r'])
        (simp_all add: admit_def with_runtime_eq Let_def join_lock_def)
  qed
qed

lemma count_inv_admit:
  assumes "count_inv w"
  shows "count_inv (snd (admit c adm w))"
proof (cases rule: admit_cases [of c adm w])
  case refused
  with assms show ?thesis by (simp add: count_inv_def)
next
  case (admitted first cleared stop l gen r')
  have "entry_ok (Suc (live_count w c)) r'"
    using assms admitted(1) by (auto simp: count_inv_def intro: entry_ok_admit)
  with admitted(2) assms show ?thesis
    by (simp add: count_inv_def live_count_def)
qed

lemma without_turn_frame [simp]:
  "entry_of (without_turn k t w) d = entry_of w d" "w_runtimes (without_turn k t w) = w_runtimes w"
  "w_turns (without_turn k t w) = filter (\<lambda>(k', _). k' \<noteq> k) (w_turns w)"
  "w_next (without_turn k t w) = w_next w" "w_log (without_turn k t w) = w_log w"
  by (simp_all add: without_turn_def leave_lock_def Let_def entry_of_def split: option.split)

lemma live_count_without_turn:
  assumes "distinct (map fst (w_turns w))" and "map_of (w_turns w) k = Some t"
  shows "live_count w d = live_count (without_turn k t w) d + (if d = tf_conv t then 1 else 0)"
  using length_filter_remove_key [OF assms, of "\<lambda>u. tf_conv u = d"] by (auto simp: live_count_def)

text \<open>A turn's end where its entry exists, which the counts guarantee.\<close>

lemma drop_turn_eq:
  assumes "map_of (w_turns w) k = Some t" and "w_runtimes w (tf_conv t) = Some r"
  shows "drop_turn k w =
     publish (drop_events (tf_conv t) (fst (drop_runtime (without_turn k t w) r)))
       (update_existing (tf_conv t) (snd \<circ> drop_runtime (without_turn k t w)) (without_turn k t w))"
  using assms by (simp add: drop_turn_def update_existing_with_eq Let_def)

lemma live_turn_entry:
  assumes "count_inv w" and "(k, t) \<in> set (w_turns w)"
  obtains r where "w_runtimes w (tf_conv t) = Some r" "entry_ok (live_count w (tf_conv t)) r"
proof -
  from assms(2) have "live_count w (tf_conv t) \<noteq> 0"
    by (force simp: live_count_def filter_empty_conv)
  with assms(1) that show thesis
    by (cases "w_runtimes w (tf_conv t)") (auto simp: count_inv_def dest: spec [of _ "tf_conv t"])
qed

lemma count_inv_drop:
  assumes "count_inv w" and "distinct (map fst (w_turns w))"
  shows "count_inv (drop_turn k w)"
proof (cases "map_of (w_turns w) k")
  case None
  with assms show ?thesis by (simp add: drop_turn_def)
next
  case (Some t)
  let ?c = "tf_conv t" and ?w = "without_turn k t w"
  obtain r where r: "w_runtimes w ?c = Some r" "entry_ok (live_count w ?c) r"
    using live_turn_entry [OF assms(1) map_of_SomeD [OF Some]] by blast
  note n = live_count_without_turn [OF assms(2) Some]
  have ok: "entry_ok (live_count ?w ?c) (snd (drop_runtime ?w r))"
    using r(2) n [of ?c] by (intro entry_ok_drop) simp
  have rest: "entry_ok (live_count ?w d) (entry_of w d)" if "d \<noteq> ?c" for d
    using assms(1) n [of d] that by (auto simp: count_inv_def dest: spec [of _ d])
  have "count_inv (update_existing ?c (snd \<circ> drop_runtime ?w) ?w)"
    using r ok rest idle_entry [OF ok]
    by (simp add: update_existing_eq count_inv_def del: without_turn_frame(3))
       (simp add: entry_of_def)
  then show ?thesis
    by (simp add: drop_turn_eq [OF Some r(1)])
qed

lemma count_inv_step:
  assumes "turn_op_ok w e" and "count_inv w" and "distinct (map fst (w_turns w))"
  shows "count_inv (run_turn_op w e)"
proof -
  have entry: "entry_ok (live_count w c) (entry_of w c)" for c
    using assms(2) by (simp add: count_inv_def)
  show ?thesis
  proof (cases e)
    case (T_admit c adm)
    with assms show ?thesis by (simp add: count_inv_admit)
  next
    case (T_drop k)
    with assms show ?thesis by (simp add: count_inv_drop)
  next
    case (T_take_place k)
    with assms show ?thesis by (simp add: count_inv_def) (simp add: take_place_def)
  next
    case (T_note_stop c n)
    with assms entry [of c] show ?thesis
      by (simp add: note_stop_def with_runtime_eq Let_def count_inv_def)
  next
    case (T_append_reply c d)
    with assms entry [of c] show ?thesis
      by (simp add: append_reply_def with_runtime_eq Let_def count_inv_def live_iff)
        (simp add: entry_ok_def)
  next
    case (T_trust_decided c)
    have "count_inv (update_existing c (snd \<circ> (\<lambda>r. let q = (case rt_published r of Some (_, a) \<Rightarrow> a = Question
        | None \<Rightarrow> False) in (q, if q then r\<lparr>rt_published := None\<rparr> else r))) w)"
      using assms(2) by (intro count_inv_update_existing) (simp_all add: Let_def entry_ok_def)
    with T_trust_decided show ?thesis
      by (simp add: note_trust_decided_def update_existing_with_eq Let_def)
  next
    case (T_take_activity c)
    have "count_inv (update_existing c (snd \<circ> (\<lambda>r. (rt_activity_owed r, r\<lparr>rt_activity_owed := False\<rparr>))) w)"
      using assms(2) by (intro count_inv_update_existing) simp_all
    with T_take_activity show ?thesis by (simp add: take_activity_owed_def update_existing_with_eq)
  next
    case (T_take_generation c l)
    let ?f = "\<lambda>r. if rt_lock r \<noteq> Some l then (None, r)
       else (let g = ke_generation (rt_kept r) + 1
             in (Some g, r\<lparr>rt_kept := \<lparr>ke_generation = g, ke_error = None\<rparr>\<rparr>))"
    have "count_inv (update_existing c (snd \<circ> ?f) w)"
      using assms(2) by (intro count_inv_update_existing) (force simp: Let_def entry_ok_def)+
    with T_take_generation show ?thesis
      by (simp add: take_turn_generation_def update_existing_with_eq Let_def)
  next
    case (T_note_attention c a)
    with assms have "0 < live_count w c" by (simp add: live_iff)
    with T_note_attention assms(2) show ?thesis
      by (simp add: note_attention_def) (intro count_inv_update_existing, simp_all add: entry_ok_def)
  next
    case (T_note_notified c m)
    with assms have "0 < live_count w c" by (simp add: live_iff)
    with T_note_notified assms(2) show ?thesis
      by (simp add: note_notified_def) (intro count_inv_update_existing, simp_all add: entry_ok_def)
  next
    case (T_lock c)
    with assms entry [of c] show ?thesis
      by (simp add: conversation_lock_def get_lock_def with_runtime_eq Let_def count_inv_def)
  next
    case (T_keep_error c g m)
    with assms show ?thesis
      by (simp add: keep_turn_error_def) (intro count_inv_update_existing, auto simp: entry_ok_def)
  next
    case (T_forget_generation c)
    with assms show ?thesis
      by (simp add: forget_turn_generation_def) (intro count_inv_update_existing, simp_all add: entry_ok_def)
  next
    case (T_show_error c m)
    with assms entry [of c] show ?thesis
      by (simp add: show_conversation_error_def with_runtime_eq count_inv_def) (simp add: entry_ok_def)
  next
    case (T_compaction c q)
    with assms entry [of c] show ?thesis
      by (simp add: with_compaction_progress_def with_runtime_eq Let_def count_inv_def)
  next
    case (T_stop c)
    with assms entry [of c] show ?thesis
      by (simp add: stop_turn_now_def with_runtime_eq count_inv_def)
  next
    case (T_restore_pause c)
    with assms entry [of c] show ?thesis
      by (simp add: restore_pause_def with_runtime_eq count_inv_def)
  next
    case (T_end_run k l)
    with assms show ?thesis by (simp add: end_run_def count_inv_def)
  next
    case T_tick
    with assms show ?thesis by (simp add: count_inv_def)
  next
    case (T_forget c)
    with assms show ?thesis
      by (simp add: forget_conversation_lock_def) (intro count_inv_update_existing, simp_all add: entry_ok_def)
  next
    case (T_release c)
    with assms show ?thesis
      by (simp add: release_idle_turn_state_def) (intro count_inv_update_existing, simp_all)
  next
    case (T_clear_reply c)
    with assms show ?thesis
      by (simp add: clear_reply_in_progress_def) (intro count_inv_update_existing, simp_all add: entry_ok_def)
  next
    case (T_set_activity c)
    with assms show ?thesis
      by (simp add: set_activity_owed_def) (intro count_inv_update_existing, simp_all)
  next
    case (T_clear_attention c)
    with assms show ?thesis
      by (simp add: clear_attention_def) (intro count_inv_update_existing, simp_all add: entry_ok_def)
  next
    case (T_forgo_child c)
    with assms show ?thesis
      by (simp add: forgo_child_outcome_def) (intro count_inv_update_existing, simp_all add: entry_ok_def)
  qed
qed

end
