(* ===== verification/Turn_Order.thy ===== *)
theory Turn_Order
  imports Turn_Protocol
begin

text \<open>
  The rest of the turn state's invariants: turns queue on one lock in the order they were admitted and
  listen to one stop counter, unless their conversation was deleted; and tabs are told of busy spells in
  the order they happen.
\<close>

section \<open>Steps that change one entry only\<close>

definition local_ok :: "world \<Rightarrow> nat \<Rightarrow> conv_id \<Rightarrow> runtime \<Rightarrow> runtime \<Rightarrow> bool" where
  "local_ok w n c r r' \<longleftrightarrow>
     (live_count w c = 0 \<and> r' = default_runtime)
   \<or> ((rt_forgotten r \<longrightarrow> rt_forgotten r')
      \<and> (rt_lock r' = rt_lock r
         \<or> rt_lock r' = None \<and> (rt_forgotten r' \<or> (\<forall>l. rt_lock r = Some l \<longrightarrow> \<not> handles_on w l)))
      \<and> (rt_stops r' = rt_stops r
         \<or> (\<exists>s s'. rt_stops r = Some s \<and> rt_stops r' = Some s' \<and> st_chan s' = st_chan s
               \<and> st_count s \<le> st_count s')
         \<or> rt_stops r = None \<and> (\<exists>s'. rt_stops r' = Some s' \<and> st_chan s' < n)
         \<or> rt_stops r' = None
           \<and> (rt_forgotten r' \<or> (\<forall>s. rt_stops r = Some s \<longrightarrow> receiver_count w (st_chan s) = 0))))"

definition local_step :: "world \<Rightarrow> world \<Rightarrow> bool" where
  "local_step w w' \<longleftrightarrow>
     w_turns w' = w_turns w \<and> w_queue w' = w_queue w \<and> w_handles w' = w_handles w
   \<and> w_next w \<le> w_next w'
   \<and> (\<exists>c. (\<forall>d. d \<noteq> c \<longrightarrow> entry_of w' d = entry_of w d)
         \<and> local_ok w (w_next w') c (entry_of w c) (entry_of w' c))"

lemma local_ok_refl [simp]: "local_ok w n c r r"
  by (simp add: local_ok_def)

lemma local_step_with_runtime:
  "local_ok w (w_next w) c (entry_of w c) (snd (f (entry_of w c))) \<Longrightarrow>
     local_step w (snd (with_runtime c f w))"
  by (auto simp: local_step_def with_runtime_eq intro!: exI [of _ c])

lemma local_step_update_existing:
  assumes "count_inv w"
    and "\<And>r. w_runtimes w c = Some r \<Longrightarrow> local_ok w (w_next w) c r (f r)"
    and "\<And>r. w_runtimes w c = Some r \<Longrightarrow> rt_turns_in_flight (f r) = rt_turns_in_flight r"
  shows "local_step w (update_existing c f w)"
proof (cases "w_runtimes w c")
  case None
  then show ?thesis by (auto simp: update_existing_eq local_step_def intro!: exI [of _ c])
next
  case (Some r)
  then have n: "rt_turns_in_flight r = live_count w c"
    using assms(1) by (auto simp: count_inv_def entry_ok_def dest: spec [of _ c])
  have "local_ok w (w_next w) c r (if is_idle (f r) then default_runtime else f r)"
  proof (cases "is_idle (f r)")
    case True
    then have "live_count w c = 0" using n assms(3) [OF Some] by (simp add: is_idle_def)
    with True show ?thesis by (simp add: local_ok_def)
  next
    case False
    with assms(2) [OF Some] show ?thesis by simp
  qed
  with Some show ?thesis
    by (auto simp: update_existing_eq local_step_def intro!: exI [of _ c])
qed

lemma local_step_publish [simp]: "local_step w (publish es w') = local_step w w'"
  by (simp add: local_step_def)

lemma local_ok_release_idle: "local_ok w n c r (release_idle w r)"
  by (auto simp: local_ok_def release_idle_def Let_def split: option.splits)

lemma release_idle_count [simp]: "rt_turns_in_flight (release_idle w r) = rt_turns_in_flight r"
  by (simp add: release_idle_def Let_def split: option.split)

fun local_op :: "turn_op \<Rightarrow> bool" where
  "local_op (T_admit c a) = False"
| "local_op (T_take_place k) = False"
| "local_op (T_end_run k l) = False"
| "local_op (T_drop k) = False"
| "local_op (T_lock c) = False"
| "local_op _ = True"

lemma local_step_op:
  assumes "local_op e" and "count_inv w"
  shows "local_step w (run_turn_op w e)"
  using assms(1)
proof (cases e)
  case (T_note_stop c n)
  then show ?thesis
    by (auto simp: note_stop_def with_runtime_eq Let_def local_step_def local_ok_def intro!: exI [of _ c]
        split: option.split)
next
  case (T_stop c)
  then show ?thesis
    by (simp add: stop_turn_now_def) (rule local_step_with_runtime, auto simp: local_ok_def map_option_case
        split: option.split)
next
  case (T_forget c)
  with assms(2) show ?thesis
    by (simp add: forget_conversation_lock_def) (rule local_step_update_existing, auto simp: local_ok_def)
next
  case (T_release c)
  with assms(2) show ?thesis
    by (simp add: release_idle_turn_state_def) (rule local_step_update_existing, auto simp: local_ok_release_idle)
next
  case (T_trust_decided c)
  with assms(2) show ?thesis
    by (simp add: note_trust_decided_def update_existing_with_eq Let_def)
      (intro conjI impI; rule local_step_update_existing; auto simp: local_ok_def)
next
  case (T_take_activity c)
  with assms(2) show ?thesis
    by (simp add: take_activity_owed_def update_existing_with_eq)
      (rule local_step_update_existing, auto simp: local_ok_def)
next
  case (T_take_generation c l)
  with assms(2) show ?thesis
    by (simp add: take_turn_generation_def update_existing_with_eq Let_def)
      (rule local_step_update_existing, auto simp: local_ok_def Let_def)
next
  case (T_append_reply c d)
  then show ?thesis
    by (auto simp: append_reply_def with_runtime_eq Let_def local_step_def local_ok_def intro!: exI [of _ c])
next
  case (T_show_error c m)
  then show ?thesis
    by (simp add: show_conversation_error_def) (rule local_step_with_runtime, simp add: local_ok_def)
next
  case (T_compaction c q)
  then show ?thesis
    by (simp add: with_compaction_progress_def) (rule local_step_with_runtime, simp add: local_ok_def Let_def)
next
  case (T_restore_pause c)
  then show ?thesis
    by (simp add: restore_pause_def) (rule local_step_with_runtime, simp add: local_ok_def)
next
  case T_tick
  then show ?thesis by (auto simp: local_step_def)
qed (use assms(2) in \<open>simp_all add: clear_reply_in_progress_def set_activity_owed_def note_attention_def
    note_notified_def clear_attention_def forgo_child_outcome_def forget_turn_generation_def
    keep_turn_error_def, (rule local_step_update_existing, auto simp: local_ok_def)+\<close>)

section \<open>Identities and queues\<close>

text \<open>
  Every identity in use was drawn before, a turn is counted once, and each lock's queue holds acquisitions
  in the order they joined it, each with a handle on the lock.
\<close>

definition entry_ids :: "nat \<Rightarrow> runtime \<Rightarrow> bool" where
  "entry_ids n r \<longleftrightarrow>
     (\<forall>l. rt_lock r = Some l \<longrightarrow> l < n) \<and> (\<forall>s. rt_stops r = Some s \<longrightarrow> st_chan s < n)"

definition ident_inv :: "world \<Rightarrow> bool" where
  "ident_inv w \<longleftrightarrow>
     distinct (map fst (w_turns w))
   \<and> (\<forall>(k, t) \<in> set (w_turns w). k < w_next w \<and> fst (tf_stop t) < w_next w)
   \<and> (\<forall>(k, l) \<in> set (w_handles w). k < w_next w \<and> l < w_next w)
   \<and> (\<forall>c. entry_ids (w_next w) (entry_of w c))
   \<and> (\<forall>l. sorted_wrt (<) (w_queue w l) \<and> (\<forall>k \<in> set (w_queue w l). (k, l) \<in> set (w_handles w)))"

lemma entry_ids_default [simp]: "entry_ids n default_runtime"
  by (simp add: entry_ids_def default_runtime_def)

lemma entry_ids_mono: "entry_ids n r \<Longrightarrow> n \<le> m \<Longrightarrow> entry_ids m r"
  by (force simp: entry_ids_def)

lemma entry_ids_local:
  "entry_ids n r \<Longrightarrow> n \<le> m \<Longrightarrow> local_ok w m c r r' \<Longrightarrow> entry_ids m r'"
  unfolding local_ok_def entry_ids_def
  by (elim disjE conjE exE) (auto simp: default_runtime_def)

lemma ident_inv_local:
  assumes "ident_inv w" and "local_step w w'"
  shows "ident_inv w'"
proof -
  obtain c where c: "\<forall>d. d \<noteq> c \<longrightarrow> entry_of w' d = entry_of w d"
    "local_ok w (w_next w') c (entry_of w c) (entry_of w' c)"
    and n: "w_next w \<le> w_next w'" and same: "w_turns w' = w_turns w" "w_queue w' = w_queue w"
    "w_handles w' = w_handles w"
    using assms(2) by (auto simp: local_step_def)
  have "entry_ids (w_next w') (entry_of w' d)" for d
  proof (cases "d = c")
    case True
    with c(2) n assms(1) show ?thesis by (auto simp: ident_inv_def intro: entry_ids_local)
  next
    case False
    with c(1) n assms(1) show ?thesis by (auto simp: ident_inv_def intro: entry_ids_mono)
  qed
  with assms(1) n same show ?thesis by (fastforce simp: ident_inv_def)
qed

section \<open>One line per conversation\<close>

text \<open>
  Until its delete forgets a conversation, every turn of it listens to the entry's own stop counter, has
  seen no more than its value, and queues on the entry's own lock.
\<close>

definition line_inv :: "world \<Rightarrow> bool" where
  "line_inv w \<longleftrightarrow>
     (\<forall>(k, t) \<in> set (w_turns w).
        \<not> rt_forgotten (entry_of w (tf_conv t)) \<longrightarrow>
          (\<exists>s. rt_stops (entry_of w (tf_conv t)) = Some s \<and> st_chan s = fst (tf_stop t)
              \<and> snd (tf_stop t) \<le> st_count s)
        \<and> (\<forall>l. (k, l) \<in> set (w_handles w) \<longrightarrow> rt_lock (entry_of w (tf_conv t)) = Some l))"

lemma live_turn_counted: "(k, t) \<in> set (w_turns w) \<Longrightarrow> live_count w (tf_conv t) \<noteq> 0"
  by (force simp: live_count_def filter_empty_conv)

lemma receiver_counted: "(k, t) \<in> set (w_turns w) \<Longrightarrow> receiver_count w (fst (tf_stop t)) \<noteq> 0"
  by (force simp: receiver_count_def filter_empty_conv)

lemma line_inv_local:
  assumes "line_inv w" and "local_step w w'"
  shows "line_inv w'"
proof -
  obtain c where c: "\<forall>d. d \<noteq> c \<longrightarrow> entry_of w' d = entry_of w d"
    "local_ok w (w_next w') c (entry_of w c) (entry_of w' c)"
    and same: "w_turns w' = w_turns w" "w_handles w' = w_handles w"
    using assms(2) by (auto simp: local_step_def)
  have "(\<exists>s. rt_stops (entry_of w' (tf_conv t)) = Some s \<and> st_chan s = fst (tf_stop t)
              \<and> snd (tf_stop t) \<le> st_count s)
        \<and> (\<forall>l. (k, l) \<in> set (w_handles w) \<longrightarrow> rt_lock (entry_of w' (tf_conv t)) = Some l)"
    if t: "(k, t) \<in> set (w_turns w)" and nf: "\<not> rt_forgotten (entry_of w' (tf_conv t))" for k t
  proof (cases "tf_conv t = c")
    case False
    with t nf c(1) assms(1) show ?thesis by (auto simp: line_inv_def)
  next
    case True
    let ?r = "entry_of w c" and ?r' = "entry_of w' c"
    from live_turn_counted [OF t] c(2) True have lo:
      "rt_forgotten ?r \<longrightarrow> rt_forgotten ?r'"
      "rt_lock ?r' = rt_lock ?r \<or> rt_lock ?r' = None
         \<and> (rt_forgotten ?r' \<or> (\<forall>l. rt_lock ?r = Some l \<longrightarrow> \<not> handles_on w l))"
      "rt_stops ?r' = rt_stops ?r
       \<or> (\<exists>s s'. rt_stops ?r = Some s \<and> rt_stops ?r' = Some s' \<and> st_chan s' = st_chan s
               \<and> st_count s \<le> st_count s')
       \<or> rt_stops ?r = None
       \<or> rt_stops ?r' = None
           \<and> (rt_forgotten ?r' \<or> (\<forall>s. rt_stops ?r = Some s \<longrightarrow> receiver_count w (st_chan s) = 0))"
      by (auto simp: local_ok_def)
    from lo(1) nf True have "\<not> rt_forgotten ?r" by auto
    with assms(1) t True obtain s where s: "rt_stops ?r = Some s" "st_chan s = fst (tf_stop t)"
      "snd (tf_stop t) \<le> st_count s"
      and l: "\<forall>l. (k, l) \<in> set (w_handles w) \<longrightarrow> rt_lock ?r = Some l"
      by (fastforce simp: line_inv_def)
    have "\<exists>s. rt_stops ?r' = Some s \<and> st_chan s = fst (tf_stop t) \<and> snd (tf_stop t) \<le> st_count s"
      using lo(3) s nf True receiver_counted [OF t] by auto
    moreover have "rt_lock ?r' = Some l" if "(k, l) \<in> set (w_handles w)" for l
      using lo(2) l nf True that by (force simp: handles_on_def)
    ultimately show ?thesis using True by simp
  qed
  with same show ?thesis by (auto simp: line_inv_def)
qed

section \<open>The steps that change turns, handles or queues\<close>

text \<open>What an admission does to the entry's lock and stop counter.\<close>

lemma admit_runtime_line:
  assumes "admit_runtime adm n now r = (Some (first, cleared, stop, l, gen), r')"
  shows "rt_forgotten r' = rt_forgotten r"
    and "rt_lock r' = Some l" and "l = (case rt_lock r of Some m \<Rightarrow> m | None \<Rightarrow> Suc n)"
    and "\<exists>s. rt_stops r' = Some s \<and> stop = (st_chan s, st_count s)
           \<and> s = (case rt_stops r of Some s \<Rightarrow> s | None \<Rightarrow> \<lparr>st_chan = n, st_count = 0, st_noted = 0\<rparr>)"
    and "first \<longleftrightarrow> rt_turns_in_flight r = 0" and "gen = ke_generation (rt_kept r')"
    and "adm = ByUser \<Longrightarrow> ke_generation (rt_kept r') = ke_generation (rt_kept r) + 1"
    and "cleared \<longleftrightarrow> adm = ByUser \<and> rt_published r \<noteq> None"
  using assms
  by (cases adm; auto simp: admit_runtime_def stop_receiver_def get_lock_def Let_def split: if_splits)+

lemma sorted_snoc:
  "sorted_wrt (<) xs \<Longrightarrow> (\<forall>x \<in> set xs. x < (y::nat)) \<Longrightarrow> sorted_wrt (<) (xs @ [y])"
  by (simp add: sorted_wrt_append)

lemma sorted_removeAll: "sorted_wrt (<) xs \<Longrightarrow> sorted_wrt (<) (removeAll (y::nat) xs)"
  by (simp add: removeAll_filter_not_eq sorted_wrt_filter)

lemma queue_below: "ident_inv w \<Longrightarrow> k \<in> set (w_queue w l) \<Longrightarrow> k < w_next w"
  by (fastforce simp: ident_inv_def)

lemma ident_inv_admit:
  assumes "ident_inv w"
  shows "ident_inv (snd (admit c adm w))"
proof (cases rule: admit_cases [of c adm w])
  case refused
  with assms show ?thesis by (simp add: ident_inv_def)
next
  case (admitted first cleared stop l gen r')
  note line = admit_runtime_line [OF admitted(1)]
  have ids: "entry_ids (w_next w) (entry_of w c)" using assms by (simp add: ident_inv_def)
  have l: "l < w_next w + 3" using line(3) ids by (auto simp: entry_ids_def split: option.splits)
  have r: "entry_ids (w_next w + 3) r'" "fst stop < w_next w + 3"
    using line(2,4) l ids by (auto simp: entry_ids_def split: option.splits)
  have others: "entry_ids (w_next w + 3) (entry_of w d)" for d
    using assms by (auto simp: ident_inv_def intro: entry_ids_mono)
  have q: "sorted_wrt (<) (w_queue w l @ [w_next w + 2])"
    using assms by (intro sorted_snoc) (auto simp: ident_inv_def dest: queue_below [OF assms])
  from assms l r others q admitted(2) show ?thesis
    by (fastforce simp: ident_inv_def join_lock_def)
qed

lemma line_inv_admit:
  assumes "line_inv w" and "ident_inv w"
  shows "line_inv (snd (admit c adm w))"
proof (cases rule: admit_cases [of c adm w])
  case refused
  with assms show ?thesis by (auto simp: line_inv_def)
next
  case (admitted first cleared stop l gen r')
  note line = admit_runtime_line [OF admitted(1)]
  have fresh: "k \<noteq> w_next w + 2" if "(k, t) \<in> set (w_turns w)" for k t
    using assms(2) that by (fastforce simp: ident_inv_def)
  have freshh: "(w_next w + 2, m) \<notin> set (w_handles w)" for m
    using assms(2) by (fastforce simp: ident_inv_def)
  have old: "(\<exists>s. rt_stops r' = Some s \<and> st_chan s = fst (tf_stop t) \<and> snd (tf_stop t) \<le> st_count s)
        \<and> (\<forall>m. (k, m) \<in> set (w_handles w) \<longrightarrow> rt_lock r' = Some m)"
    if "(k, t) \<in> set (w_turns w)" "tf_conv t = c" "\<not> rt_forgotten r'" for k t
    using assms(1) that line(1-4) by (fastforce simp: line_inv_def split: option.splits)
  let ?w = "snd (admit c adm w)"
  have w: "w_turns ?w = w_turns w @ [(w_next w + 2, \<lparr>tf_conv = c, tf_stop = stop, tf_place = Some l\<rparr>)]"
    "w_handles ?w = w_handles w @ [(w_next w + 2, l)]"
    "entry_of ?w d = (if d = c then r' else entry_of w d)" for d
    using admitted(2) by (simp_all add: join_lock_def)
  have new: "(\<exists>s. rt_stops r' = Some s \<and> st_chan s = fst stop \<and> snd stop \<le> st_count s)"
    using line(4) by auto
  have "(\<exists>s. rt_stops (entry_of ?w (tf_conv t)) = Some s \<and> st_chan s = fst (tf_stop t)
              \<and> snd (tf_stop t) \<le> st_count s)
        \<and> (\<forall>m. (k, m) \<in> set (w_handles ?w) \<longrightarrow> rt_lock (entry_of ?w (tf_conv t)) = Some m)"
    if kt: "(k, t) \<in> set (w_turns ?w)" and nf: "\<not> rt_forgotten (entry_of ?w (tf_conv t))" for k t
  proof (cases "(k, t) \<in> set (w_turns w)")
    case True
    then have k: "k \<noteq> w_next w + 2" by (rule fresh)
    show ?thesis
    proof (cases "tf_conv t = c")
      case True
      with old [OF \<open>(k, t) \<in> set (w_turns w)\<close> True] nf k show ?thesis by (simp add: w)
    next
      case False
      with \<open>(k, t) \<in> set (w_turns w)\<close> nf k assms(1) show ?thesis by (auto simp: w line_inv_def)
    qed
  next
    case False
    with kt have "k = w_next w + 2" "tf_conv t = c" "tf_stop t = stop" by (auto simp: w)
    with new line(2) freshh show ?thesis by (auto simp: w)
  qed
  then show ?thesis by (auto simp: line_inv_def)
qed

lemma conversation_lock_eq:
  "snd (conversation_lock c w) =
     (let l = (case rt_lock (entry_of w c) of Some m \<Rightarrow> m | None \<Rightarrow> Suc (w_next w))
      in join_lock (w_next w) l
           (w\<lparr>w_runtimes := (w_runtimes w)(c \<mapsto> (entry_of w c)\<lparr>rt_lock := Some l\<rparr>),
              w_next := w_next w + 2\<rparr>))"
  by (simp add: conversation_lock_def with_runtime_eq get_lock_def Let_def)

lemma ident_inv_lock:
  assumes "ident_inv w"
  shows "ident_inv (snd (conversation_lock c w))"
proof -
  define l where "l = (case rt_lock (entry_of w c) of Some m \<Rightarrow> m | None \<Rightarrow> Suc (w_next w))"
  have ids: "entry_ids (w_next w) (entry_of w d)" for d using assms by (simp add: ident_inv_def)
  have l: "l < w_next w + 2" using ids [of c] by (auto simp: l_def entry_ids_def split: option.splits)
  have e: "entry_ids (w_next w + 2) ((entry_of w c)\<lparr>rt_lock := Some l\<rparr>)"
    using ids [of c] l by (auto simp: entry_ids_def)
  have others: "entry_ids (w_next w + 2) (entry_of w d)" for d
    using ids [of d] by (rule entry_ids_mono) simp
  have q: "sorted_wrt (<) (w_queue w l @ [w_next w])"
    using assms by (intro sorted_snoc) (auto simp: ident_inv_def dest: queue_below [OF assms])
  from assms l e others q show ?thesis
    by (fastforce simp: conversation_lock_eq ident_inv_def join_lock_def simp flip: l_def)
qed

lemma line_inv_lock:
  assumes "line_inv w" and "ident_inv w"
  shows "line_inv (snd (conversation_lock c w))"
proof -
  define l where "l = (case rt_lock (entry_of w c) of Some m \<Rightarrow> m | None \<Rightarrow> Suc (w_next w))"
  have fresh: "k \<noteq> w_next w" if "(k, t) \<in> set (w_turns w)" for k t
    using assms(2) that by (fastforce simp: ident_inv_def)
  have keep: "m = l" if "rt_lock (entry_of w c) = Some m" for m
    using that by (simp add: l_def)
  from assms(1) fresh keep show ?thesis
    by (fastforce simp: conversation_lock_eq line_inv_def join_lock_def simp flip: l_def)
qed

lemma take_place_turns:
  "(k', t) \<in> set (w_turns (take_place k w)) \<Longrightarrow>
     \<exists>u. (k', u) \<in> set (w_turns w) \<and> tf_conv t = tf_conv u \<and> tf_stop t = tf_stop u"
  by (force simp: take_place_def split: if_splits)

lemma take_place_frame [simp]:
  "w_runtimes (take_place k w) = w_runtimes w" "entry_of (take_place k w) c = entry_of w c"
  "w_handles (take_place k w) = w_handles w" "w_queue (take_place k w) = w_queue w"
  "w_next (take_place k w) = w_next w" "w_log (take_place k w) = w_log w"
  by (simp_all add: take_place_def entry_of_def)

lemma take_place_keys: "map fst (w_turns (take_place k w)) = map fst (w_turns w)"
  by (simp add: take_place_def case_prod_unfold)

lemma ident_inv_take_place: "ident_inv w \<Longrightarrow> ident_inv (take_place k w)"
  using take_place_keys [of k w] by (fastforce simp: ident_inv_def dest: take_place_turns)

lemma line_inv_take_place: "line_inv w \<Longrightarrow> line_inv (take_place k w)"
  by (fastforce simp: line_inv_def dest: take_place_turns)

lemma ident_inv_leave: "ident_inv w \<Longrightarrow> ident_inv (leave_lock k l w)"
  by (fastforce simp: ident_inv_def leave_lock_def entry_of_def intro: sorted_removeAll)

lemma line_inv_leave: "line_inv w \<Longrightarrow> line_inv (leave_lock k l w)"
  by (fastforce simp: line_inv_def leave_lock_def entry_of_def)

lemma ident_inv_filter:
  "ident_inv w \<Longrightarrow> ident_inv (w\<lparr>w_turns := filter P (w_turns w)\<rparr>)"
  by (simp add: ident_inv_def distinct_filter_keys)

lemma line_inv_filter: "line_inv w \<Longrightarrow> line_inv (w\<lparr>w_turns := filter P (w_turns w)\<rparr>)"
  by (simp add: line_inv_def)

lemma without_turn_inv:
  "ident_inv w \<Longrightarrow> ident_inv (without_turn k t w)" "line_inv w \<Longrightarrow> line_inv (without_turn k t w)"
  by (auto simp: without_turn_def Let_def ident_inv_leave line_inv_leave
      intro!: ident_inv_filter line_inv_filter split: option.split)

definition free_lock :: "world \<Rightarrow> ident option \<Rightarrow> ident option" where
  "free_lock w x = (case x of Some l \<Rightarrow> if handles_on w l then Some l else None | None \<Rightarrow> None)"

definition free_stops :: "world \<Rightarrow> turn_stops option \<Rightarrow> turn_stops option" where
  "free_stops w x =
     (case x of Some s \<Rightarrow> if receiver_count w (st_chan s) = 0 then None else Some s | None \<Rightarrow> None)"

lemma release_idle_fields [simp]:
  "rt_lock (release_idle w r) = free_lock w (rt_lock r)"
  "rt_stops (release_idle w r) = free_stops w (rt_stops r)"
  "rt_forgotten (release_idle w r) = rt_forgotten r"
  "rt_paused (release_idle w r) = rt_paused r"
  "rt_kept (release_idle w r) = rt_kept r"
  "rt_published (release_idle w r) = rt_published r"
  "rt_published_notice (release_idle w r) = rt_published_notice r"
  "rt_attention (release_idle w r) = rt_attention r"
  "rt_notified (release_idle w r) = rt_notified r"
  "rt_reply (release_idle w r) = rt_reply r"
  "rt_started_at (release_idle w r) = rt_started_at r"
  by (cases "rt_lock r"; cases "rt_stops r"; simp add: release_idle_def Let_def free_lock_def free_stops_def)+

lemma drop_runtime_line:
  "rt_forgotten (snd (drop_runtime w r)) = rt_forgotten r"
  "rt_lock (snd (drop_runtime w r)) = (if rt_turns_in_flight r - 1 = 0 then free_lock w (rt_lock r) else rt_lock r)"
  "rt_stops (snd (drop_runtime w r)) = (if rt_turns_in_flight r - 1 = 0 then free_stops w (rt_stops r) else rt_stops r)"
  by (simp_all add: drop_runtime_def Let_def split: option.split)

lemma local_ok_drop: "local_ok w n c r (snd (drop_runtime w r))"
  unfolding local_ok_def drop_runtime_line
  by (cases "rt_lock r"; cases "rt_stops r") (simp_all add: free_lock_def free_stops_def)

lemma drop_local_step:
  assumes "count_inv w" and "distinct (map fst (w_turns w))" and "map_of (w_turns w) k = Some t"
  shows "local_step (without_turn k t w) (drop_turn k w)"
proof -
  let ?c = "tf_conv t" and ?w = "without_turn k t w"
  obtain r where r: "w_runtimes w ?c = Some r" "entry_ok (live_count w ?c) r"
    using live_turn_entry [OF assms(1) map_of_SomeD [OF assms(3)]] by blast
  have n: "live_count w ?c = live_count ?w ?c + 1"
    using live_count_without_turn [OF assms(2,3), of ?c] by simp
  let ?r' = "snd (drop_runtime ?w r)"
  have "entry_ok (live_count ?w ?c) ?r'"
    using r(2) n by (intro entry_ok_drop) simp
  then have "local_ok ?w (w_next ?w) ?c r (if is_idle ?r' then default_runtime else ?r')"
    using idle_entry local_ok_drop [of ?w "w_next ?w" ?c r] by (auto simp: local_ok_def)
  then show ?thesis
    using r(1) by (auto simp: drop_turn_eq [OF assms(3) r(1)] update_existing_eq local_step_def
        entry_of_def intro!: exI [of _ ?c])
qed

section \<open>Busy spells are told in order\<close>

fun turn_states :: "conv_id \<Rightarrow> turn_event list \<Rightarrow> bool list" where
  "turn_states c [] = []"
| "turn_states c (TurnState d b # es) = (if d = c then b # turn_states c es else turn_states c es)"
| "turn_states c (_ # es) = turn_states c es"

fun alternating :: "bool \<Rightarrow> bool list \<Rightarrow> bool" where
  "alternating b [] = True"
| "alternating b (x # xs) = (x = b \<and> alternating (\<not> b) xs)"

lemma turn_states_append [simp]: "turn_states c (es @ fs) = turn_states c es @ turn_states c fs"
  by (induction c es rule: turn_states.induct) auto

lemma alternating_snoc:
  "alternating b (xs @ [y]) \<longleftrightarrow> alternating b xs \<and> (y \<longleftrightarrow> (b \<longleftrightarrow> even (length xs)))"
  by (induction b xs rule: alternating.induct) auto

text \<open>
  The \<open>TurnState\<close> events of a conversation alternate, starting with \<open>running: true\<close>, and the last one says
  whether a turn is in flight.
\<close>

definition log_inv :: "world \<Rightarrow> bool" where
  "log_inv w \<longleftrightarrow>
     (\<forall>c. alternating True (turn_states c (w_log w))
        \<and> (odd (length (turn_states c (w_log w))) \<longleftrightarrow> 0 < live_count w c))"

lemma log_inv_quiet:
  assumes "log_inv w" and "\<And>c. turn_states c (w_log w') = turn_states c (w_log w)"
    and "\<And>c. live_count w' c = live_count w c"
  shows "log_inv w'"
  using assms by (simp add: log_inv_def)

lemma log_inv_admit:
  assumes "log_inv w" and "count_inv w"
  shows "log_inv (snd (admit c adm w))"
proof (cases rule: admit_cases [of c adm w])
  case refused
  with assms(1) show ?thesis by (simp add: log_inv_def)
next
  case (admitted first cleared stop l gen r')
  have "rt_turns_in_flight (entry_of w c) = live_count w c"
    using assms(2) by (simp add: count_inv_def entry_ok_def)
  with admit_runtime_line(5) [OF admitted(1)] have first: "first \<longleftrightarrow> live_count w c = 0" by simp
  let ?w = "snd (admit c adm w)"
  have ts: "turn_states d (w_log ?w) = turn_states d (w_log w) @ (if first \<and> d = c then [True] else [])" for d
    using admitted(2) by (simp add: join_lock_def)
  have n: "live_count ?w d = live_count w d + (if d = c then 1 else 0)" for d
    using admitted(2) by (simp add: live_count_def join_lock_def)
  have "alternating True (turn_states d (w_log ?w))
      \<and> (odd (length (turn_states d (w_log ?w))) \<longleftrightarrow> 0 < live_count ?w d)" for d
    using assms(1) first unfolding log_inv_def ts n
    by (auto simp: alternating_snoc dest: spec [of _ d])
  then show ?thesis by (simp add: log_inv_def)
qed

lemma drop_events_states:
  "turn_states d (drop_events c x) = (if fst x \<and> d = c then [False] else [])"
  by (cases x; cases "fst x") (auto split: option.split)

lemma drop_runtime_last: "fst (fst (drop_runtime w r)) \<longleftrightarrow> rt_turns_in_flight r - 1 = 0"
  by (simp add: drop_runtime_def Let_def)

lemma log_inv_drop:
  assumes "log_inv w" and "count_inv w" and "distinct (map fst (w_turns w))"
  shows "log_inv (drop_turn k w)"
proof (cases "map_of (w_turns w) k")
  case None
  with assms show ?thesis by (simp add: drop_turn_def)
next
  case (Some t)
  let ?c = "tf_conv t" and ?w = "without_turn k t w"
  obtain r where r: "w_runtimes w ?c = Some r" "entry_ok (live_count w ?c) r"
    using live_turn_entry [OF assms(2) map_of_SomeD [OF Some]] by blast
  note n = live_count_without_turn [OF assms(3) Some]
  have last: "fst (fst (drop_runtime ?w r)) \<longleftrightarrow> live_count ?w ?c = 0"
    using r(2) n [of ?c] by (simp add: drop_runtime_last entry_ok_def)
  have turns: "w_turns (drop_turn k w) = w_turns ?w"
    using drop_local_step [OF assms(2,3) Some] by (simp add: local_step_def)
  then have n': "live_count (drop_turn k w) d = live_count ?w d" for d
    by (simp add: live_count_def)
  have ts: "turn_states d (w_log (drop_turn k w)) =
      turn_states d (w_log w) @ (if live_count ?w ?c = 0 \<and> d = ?c then [False] else [])" for d
    using r(1) last
    by (simp add: drop_turn_eq [OF Some r(1)] update_existing_eq drop_events_states split: option.split)
  have "alternating True (turn_states d (w_log (drop_turn k w)))
      \<and> (odd (length (turn_states d (w_log (drop_turn k w)))) \<longleftrightarrow> 0 < live_count (drop_turn k w) d)" for d
  proof -
    from assms(1) have d: "alternating True (turn_states d (w_log w))"
      "odd (length (turn_states d (w_log w))) \<longleftrightarrow> 0 < live_count w d"
      by (simp_all add: log_inv_def)
    show ?thesis
      by (cases "d = ?c"; cases "live_count ?w ?c = 0")
        (use d n [of d] in \<open>simp_all add: ts n' alternating_snoc\<close>)
  qed
  then show ?thesis by (simp add: log_inv_def)
qed

fun spell_op :: "turn_op \<Rightarrow> bool" where
  "spell_op (T_admit c a) = True"
| "spell_op (T_drop k) = True"
| "spell_op _ = False"

lemma quiet_log_op:
  assumes "\<not> spell_op e"
  shows "turn_states c (w_log (run_turn_op w e)) = turn_states c (w_log w)"
  using assms
  by (cases e)
    (simp_all add: note_stop_def stop_turn_now_def restore_pause_def with_compaction_progress_def
      append_reply_def show_conversation_error_def conversation_lock_eq join_lock_def end_run_def
      leave_lock_def with_runtime_eq Let_def take_activity_owed_def take_turn_generation_def
      note_trust_decided_def update_existing_with_eq clear_reply_in_progress_def
      set_activity_owed_def note_attention_def note_notified_def clear_attention_def
      forgo_child_outcome_def forget_turn_generation_def keep_turn_error_def
      forget_conversation_lock_def release_idle_turn_state_def update_existing_eq
      split: option.split)

section \<open>The protocol's invariant\<close>

definition turn_inv :: "world \<Rightarrow> bool" where
  "turn_inv w \<longleftrightarrow> count_inv w \<and> ident_inv w \<and> line_inv w \<and> log_inv w"

lemma turn_inv_start: "turn_inv start_world"
  by (simp add: turn_inv_def count_inv_def ident_inv_def line_inv_def log_inv_def start_world_def
      live_count_def entry_of_def)

lemma turn_inv_op:
  assumes "turn_inv w" and "turn_op_ok w e"
  shows "turn_inv (run_turn_op w e)"
proof -
  from assms(1) have inv: "count_inv w" "ident_inv w" "line_inv w" "log_inv w"
    and keys: "distinct (map fst (w_turns w))"
    by (auto simp: turn_inv_def ident_inv_def)
  have count: "count_inv (run_turn_op w e)" using assms(2) inv(1) keys by (rule count_inv_step)
  show ?thesis
  proof (cases "local_op e")
    case True
    note step = local_step_op [OF True inv(1)]
    have "\<not> spell_op e" using True by (cases e) simp_all
    then have "log_inv (run_turn_op w e)"
      using step by (intro log_inv_quiet [OF inv(4)] quiet_log_op) (auto simp: local_step_def live_count_def)
    with count ident_inv_local [OF inv(2) step] line_inv_local [OF inv(3) step] show ?thesis
      by (simp add: turn_inv_def)
  next
    case False
    then show ?thesis
    proof (cases e)
      case (T_admit c adm)
      with inv count show ?thesis
        by (simp add: turn_inv_def ident_inv_admit line_inv_admit log_inv_admit)
    next
      case (T_lock c)
      then have "log_inv (run_turn_op w e)"
        by (intro log_inv_quiet [OF inv(4)] quiet_log_op) (auto simp: conversation_lock_eq Let_def)
      with T_lock inv count show ?thesis
        by (simp add: turn_inv_def ident_inv_lock line_inv_lock)
    next
      case (T_take_place k)
      then have "log_inv (run_turn_op w e)"
        by (intro log_inv_quiet [OF inv(4)] quiet_log_op) auto
      with T_take_place inv count show ?thesis
        by (simp add: turn_inv_def ident_inv_take_place line_inv_take_place)
    next
      case (T_end_run k l)
      then have "log_inv (run_turn_op w e)"
        by (intro log_inv_quiet [OF inv(4)] quiet_log_op) (auto simp: end_run_def)
      with T_end_run inv count show ?thesis
        by (simp add: turn_inv_def ident_inv_leave line_inv_leave end_run_def)
    next
      case (T_drop k)
      with assms(2) obtain t where t: "map_of (w_turns w) k = Some t" by auto
      note step = drop_local_step [OF inv(1) keys t]
      note w = without_turn_inv(1) [OF inv(2), of k t] without_turn_inv(2) [OF inv(3), of k t]
      from T_drop count log_inv_drop [OF inv(4,1) keys] ident_inv_local [OF w(1) step]
        line_inv_local [OF w(2) step]
      show ?thesis by (simp add: turn_inv_def)
    qed auto
  qed
qed

interpretation turns: machine start_world guarded_op turn_inv
  by unfold_locales (auto simp: turn_inv_start guarded_op_def intro: turn_inv_op)

lemma turn_reach_inv: "turn_reach w \<Longrightarrow> turn_inv w"
  by (induction rule: turn_reach.induct) (auto simp: turn_inv_start intro: turn_inv_op elim!: turn_stepE)

end
