(* ===== verification/Turn_Properties.thy ===== *)
theory Turn_Properties
  imports Turn_Order
begin

text \<open>
  What the turn state promises its users, over every world its operations reach: the counts and the busy
  spells, who runs next, what a Stop ends, what a pause refuses, what a delete frees, what a spell's end
  tells the user, and how a streamed reply is told.
\<close>

lemmas entry_op_defs = with_runtime_eq update_existing_eq update_existing_with_eq

lemma is_paused_entry: "is_paused c w = rt_paused (entry_of w c)"
  by (simp add: is_paused_def read_runtime_def entry_of_def default_runtime_def split: option.split)

lemma turn_running_entry: "turn_running c w \<longleftrightarrow> 0 < rt_turns_in_flight (entry_of w c)"
  by (simp add: turn_running_def read_runtime_def entry_of_def default_runtime_def split: option.split)

lemma reply_entry:
  "reply_in_progress c w =
     (case rt_reply (entry_of w c) of Some t \<Rightarrow> if t = [] then None else Some t | None \<Rightarrow> None)"
  by (simp add: reply_in_progress_def read_runtime_def entry_of_def default_runtime_def split: option.split)

lemma last_turn_error_entry: "last_turn_error c w = ke_error (rt_kept (entry_of w c))"
  by (simp add: last_turn_error_def read_runtime_def entry_of_def default_runtime_def default_kept_def
      split: option.split)

lemma reach_entry: "turn_reach w \<Longrightarrow> entry_ok (live_count w c) (entry_of w c)"
  using turn_reach_inv [of w] by (simp add: turn_inv_def count_inv_def)

lemma reach_running: "turn_reach w \<Longrightarrow> turn_running c w \<longleftrightarrow> live w c"
  using reach_entry [of w c] by (simp add: turn_running_entry entry_ok_def live_iff)

lemma reach_line:
  assumes "turn_reach w" and "(k, t) \<in> set (w_turns w)" and "tf_conv t = c"
    and "\<not> rt_forgotten (entry_of w c)"
  obtains s where "rt_stops (entry_of w c) = Some s" "st_chan s = fst (tf_stop t)"
    "snd (tf_stop t) \<le> st_count s"
    "\<And>l. (k, l) \<in> set (w_handles w) \<Longrightarrow> rt_lock (entry_of w c) = Some l"
proof -
  have "line_inv w" using turn_reach_inv [OF assms(1)] by (simp add: turn_inv_def)
  with assms(2-) that show thesis by (fastforce simp: line_inv_def)
qed

lemma reach_queue:
  assumes "turn_reach w"
  shows "sorted_wrt (<) (w_queue w l)" and "k \<in> set (w_queue w l) \<Longrightarrow> (k, l) \<in> set (w_handles w)"
  using turn_reach_inv [OF assms] by (auto simp: turn_inv_def ident_inv_def)

text \<open>A world with a running turn and a wake queued behind it, for the witnesses.\<close>

definition two_turns :: world where
  "two_turns = foldl guarded_op start_world [T_admit 1 ByUser, T_admit 1 UnlessPaused, T_append_reply 1 ''hi'']"

lemmas turn_eval =
  guarded_op_def start_world_def admit_def admit_runtime_def with_runtime_def default_runtime_def
  default_kept_def stop_receiver_def get_lock_def join_lock_def publish_def Let_def live_def
  append_reply_def

lemma two_turns_eq:
  "two_turns =
     \<lparr>w_runtimes = [1 \<mapsto> \<lparr>rt_lock = Some 1, rt_reply = Some ''hi'',
         rt_stops = Some \<lparr>st_chan = 0, st_count = 0, st_noted = 0\<rparr>, rt_paused = False,
         rt_turns_in_flight = 2, rt_started_at = Some 0, rt_kept = \<lparr>ke_generation = 1, ke_error = None\<rparr>,
         rt_activity_owed = False, rt_attention = None, rt_notified = None,
         rt_published_notice = None, rt_published = None, rt_forgotten = False,
         rt_compaction = default_progress\<rparr>],
      w_turns = [(2, \<lparr>tf_conv = 1, tf_stop = (0, 0), tf_place = Some 1\<rparr>),
                 (5, \<lparr>tf_conv = 1, tf_stop = (0, 0), tf_place = Some 1\<rparr>)],
      w_queue = (\<lambda>_. [])(1 := [2, 5]), w_handles = [(2, 1), (5, 1)],
      w_next = 6, w_now = 0,
      w_log = [TurnState 1 True, TurnsChanged, ReplyDelta 1 ''hi'' 0]\<rparr>"
  by (simp add: two_turns_def turn_eval numeral_2_eq_2)

lemma two_turns_reach: "turn_reach two_turns"
  unfolding two_turns_def by (rule reach_run)

section \<open>Counts and busy spells\<close>

text \<open>
  (C4) The count of turns a conversation keeps is the number of turns alive in it: a conversation reads
  as running exactly while one is, has a start time exactly then, and with none has no reply in
  progress, no attention owed and no unsent notification.
\<close>

theorem turn_counts_agree:
  assumes "turn_reach w"
  shows "rt_turns_in_flight (entry_of w c) = live_count w c
    \<and> turn_running c w = (0 < live_count w c)
    \<and> (rt_started_at (entry_of w c) \<noteq> None) = (0 < live_count w c)
    \<and> (0 < live_count w c
       \<or> reply_in_progress c w = None \<and> rt_attention (entry_of w c) = None \<and> rt_notified (entry_of w c) = None)"
  using reach_entry [OF assms, of c] reach_running [OF assms, of c]
  by (auto simp: entry_ok_def live_iff reply_entry)

theorem turn_counts_agree_witness:
  "turn_reach two_turns \<and> rt_turns_in_flight (entry_of two_turns 1) = live_count two_turns 1
    \<and> live_count two_turns 1 = 2 \<and> turn_running 1 two_turns"
  using two_turns_reach turn_counts_agree [OF two_turns_reach, of 1]
  by (auto simp: two_turns_eq live_count_def)

text \<open>
  (C5) Tabs are told of a conversation's busy spells in order: its \<open>TurnState\<close> events alternate, the
  first says running, and the last says what is so now.
\<close>

theorem busy_spells_are_told_in_order:
  assumes "turn_reach w"
  shows "alternating True (turn_states c (w_log w))
    \<and> turn_running c w = (turn_states c (w_log w) \<noteq> [] \<and> last (turn_states c (w_log w)))"
proof -
  have log: "alternating True (turn_states c (w_log w))"
    "odd (length (turn_states c (w_log w))) \<longleftrightarrow> 0 < live_count w c"
    using turn_reach_inv [OF assms] by (simp_all add: turn_inv_def log_inv_def)
  show ?thesis
  proof (cases "turn_states c (w_log w)" rule: rev_cases)
    case Nil
    with log reach_running [OF assms, of c] show ?thesis by (simp add: live_iff)
  next
    case (snoc bs b)
    with log reach_running [OF assms, of c] show ?thesis by (simp add: live_iff alternating_snoc)
  qed
qed

theorem busy_spells_are_told_in_order_witness:
  "turn_reach two_turns \<and> turn_states 1 (w_log two_turns) = [True] \<and> turn_running 1 two_turns"
  using two_turns_reach busy_spells_are_told_in_order [OF two_turns_reach, of 1]
  by (simp add: two_turns_eq)

section \<open>One turn at a time, in the order they were admitted\<close>

text \<open>
  (C2) The turns of a conversation that is not deleted wait on one lock, and that lock's queue is in the
  order they were admitted: two of them can't both be first in line, and the later one is never ahead.
\<close>

theorem turns_wait_in_admission_order:
  assumes "turn_reach w" and "\<not> rt_forgotten (entry_of w c)"
    and "(k1, t1) \<in> set (w_turns w)" and "tf_conv t1 = c" and "k1 \<in> set (w_queue w l1)"
    and "(k2, t2) \<in> set (w_turns w)" and "tf_conv t2 = c" and "k2 \<in> set (w_queue w l2)"
    and "k1 < k2"
  shows "l1 = l2 \<and> rt_lock (entry_of w c) = Some l1
    \<and> hd (w_queue w l2) \<noteq> k2
    \<and> (\<exists>before between after. w_queue w l1 = before @ k1 # between @ k2 # after)"
proof -
  have l1: "rt_lock (entry_of w c) = Some l1"
    by (rule reach_line [OF assms(1,3,4,2)]) (simp add: reach_queue(2) [OF assms(1,5)])
  have l2: "rt_lock (entry_of w c) = Some l2"
    by (rule reach_line [OF assms(1,6,7,2)]) (simp add: reach_queue(2) [OF assms(1,8)])
  from l1 l2 have l: "l2 = l1" by simp
  obtain before rest where q: "w_queue w l1 = before @ k1 # rest"
    using assms(5) by (auto simp: in_set_conv_decomp)
  have sorted: "sorted_wrt (<) (before @ k1 # rest)" using reach_queue(1) [OF assms(1), of l1] q by simp
  have "k2 \<notin> set before" using sorted assms(9) by (auto simp: sorted_wrt_append)
  with assms(8,9) q l have "k2 \<in> set rest" by auto
  then obtain between after where "rest = between @ k2 # after" by (auto simp: in_set_conv_decomp)
  moreover have "hd (w_queue w l1) \<noteq> k2"
    using q \<open>k2 \<notin> set before\<close> assms(9) by (cases before) auto
  ultimately show ?thesis using q l l1 by auto
qed

theorem turns_wait_in_admission_order_witness:
  "turn_reach two_turns \<and> w_queue two_turns 1 = [2, 5]
    \<and> (\<exists>before between after. w_queue two_turns 1 = before @ 2 # between @ 5 # after)"
  using two_turns_reach
    turns_wait_in_admission_order
      [OF two_turns_reach, of 1 2 "\<lparr>tf_conv = 1, tf_stop = (0, 0), tf_place = Some 1\<rparr>" 1 5
        "\<lparr>tf_conv = 1, tf_stop = (0, 0), tf_place = Some 1\<rparr>" 1]
  by (simp add: two_turns_eq)

section \<open>Stops and pauses\<close>

text \<open>
  Whether a turn's stop receiver reports a change (\<open>stop.changed()\<close> returns): its channel is gone from
  the conversation's entry, or the counter has moved on from what the receiver has seen.
\<close>

definition stop_signalled :: "world \<Rightarrow> turn_in_flight \<Rightarrow> bool" where
  "stop_signalled w t =
     (case rt_stops (entry_of w (tf_conv t)) of
        None \<Rightarrow> True
      | Some s \<Rightarrow> st_chan s \<noteq> fst (tf_stop t) \<or> st_count s \<noteq> snd (tf_stop t))"

lemma stop_turn_now_entry:
  "entry_of (stop_turn_now c w) d =
     (if d = c then (entry_of w c)\<lparr>rt_paused := True,
        rt_stops := map_option (\<lambda>s. s\<lparr>st_count := st_count s + 1\<rparr>) (rt_stops (entry_of w c))\<rparr>
      else entry_of w d)"
  by (simp add: stop_turn_now_def with_runtime_eq)

lemma admitted_turn_not_signalled:
  assumes "admit c adm w = (Some (k, g), w')"
  shows "\<exists>t. (k, t) \<in> set (w_turns w') \<and> tf_conv t = c \<and> \<not> stop_signalled w' t"
proof (cases rule: admit_cases [of c adm w])
  case refused
  with assms show ?thesis by simp
next
  case (admitted first cleared stop l gen r')
  from admit_runtime_line(4) [OF admitted(1)] obtain s
    where "rt_stops r' = Some s" "stop = (st_chan s, st_count s)" by blast
  with admitted(2) assms show ?thesis
    by (auto simp: stop_signalled_def join_lock_def entry_of_def)
qed

lemma user_admission_resumes:
  assumes "admit c ByUser w = (res, w')"
  shows "\<not> rt_paused (entry_of w' c)"
proof (cases rule: admit_cases [of c ByUser w])
  case refused
  then show ?thesis by simp
next
  case (admitted first cleared stop l gen r')
  have "\<not> rt_paused r'"
    using admitted(1) by (auto simp: admit_runtime_def stop_receiver_def get_lock_def Let_def)
  with admitted(2) assms show ?thesis by (auto simp: entry_of_def join_lock_def)
qed

text \<open>
  (C1) A Stop ends exactly the turns admitted before it: every turn of the conversation (one not
  deleted) is told, running or queued; no other conversation's turn is; the conversation is paused; and
  the turn the user's next message starts is not told, and ends the pause.
\<close>

theorem stop_ends_the_turns_before_it:
  assumes "turn_reach w" and "\<not> rt_forgotten (entry_of w c)"
    and "(k, t) \<in> set (w_turns w)"
    and "start_by_user c (stop_turn_now c w) = (Some (k', g), w')"
  shows "stop_signalled (stop_turn_now c w) t = (tf_conv t = c \<or> stop_signalled w t)
    \<and> is_paused c (stop_turn_now c w)
    \<and> \<not> is_paused c w'
    \<and> (\<exists>t'. (k', t') \<in> set (w_turns w') \<and> tf_conv t' = c \<and> \<not> stop_signalled w' t')"
proof -
  have told: "stop_signalled (stop_turn_now c w) t = (tf_conv t = c \<or> stop_signalled w t)"
  proof (cases "tf_conv t = c")
    case True
    then show ?thesis
      using reach_line [OF assms(1,3) True assms(2)] by (fastforce simp: stop_signalled_def stop_turn_now_entry)
  next
    case False
    then show ?thesis by (simp add: stop_signalled_def stop_turn_now_entry)
  qed
  from assms(4) show ?thesis
    using told admitted_turn_not_signalled user_admission_resumes
    by (simp add: is_paused_entry stop_turn_now_entry start_by_user_def)
qed

lemmas stop_eval = stop_turn_now_def start_by_user_def

theorem stop_ends_the_turns_before_it_witness:
  "turn_reach two_turns
    \<and> fst (start_by_user 1 (stop_turn_now 1 two_turns)) = Some (8, 2)
    \<and> stop_signalled (stop_turn_now 1 two_turns) \<lparr>tf_conv = 1, tf_stop = (0, 0), tf_place = Some 1\<rparr>
    \<and> \<not> is_paused 1 (snd (start_by_user 1 (stop_turn_now 1 two_turns)))"
  using two_turns_reach
    stop_ends_the_turns_before_it
      [OF two_turns_reach, of 1 2 "\<lparr>tf_conv = 1, tf_stop = (0, 0), tf_place = Some 1\<rparr>" 8 2
        "snd (start_by_user 1 (stop_turn_now 1 two_turns))"]
  by (simp add: two_turns_eq stop_eval turn_eval prod_eq_iff)

text \<open>
  While a conversation is paused nothing but the user starts a turn in it: a wake is refused and
  changes nothing, and the user's own admission is never refused and ends the pause.
\<close>

theorem only_the_user_ends_a_pause:
  assumes "is_paused c w"
  shows "start_unless_paused c w = (None, w)
    \<and> (\<exists>k g w'. start_by_user c w = (Some (k, g), w') \<and> \<not> is_paused c w'
          \<and> fst (start_unless_paused c w') \<noteq> None)"
proof -
  from assms obtain r where r: "w_runtimes w c = Some r" "rt_paused r"
    by (auto simp: is_paused_def read_runtime_def split: option.splits)
  have "start_unless_paused c w = (None, w)"
    using r by (simp add: start_unless_paused_def admit_def admit_runtime_def with_runtime_def
        map_upd_triv Let_def)
  moreover have "\<exists>k g w'. start_by_user c w = (Some (k, g), w') \<and> \<not> is_paused c w'
      \<and> fst (start_unless_paused c w') \<noteq> None"
  proof (cases rule: admit_cases [of c ByUser w])
    case refused
    then show ?thesis by simp
  next
    case (admitted first cleared stop l gen r')
    have "\<not> rt_paused (entry_of (snd (admit c ByUser w)) c)"
      by (rule user_admission_resumes [of c w "fst (admit c ByUser w)"]) simp
    then have "fst (start_unless_paused c (snd (admit c ByUser w))) \<noteq> None"
      by (cases rule: admit_cases [of c UnlessPaused "snd (admit c ByUser w)"])
        (simp_all add: start_unless_paused_def)
    with user_admission_resumes [of c w] admitted(2) show ?thesis
      by (auto simp: start_by_user_def is_paused_entry)
  qed
  ultimately show ?thesis by simp
qed

theorem only_the_user_ends_a_pause_witness:
  "is_paused 1 (stop_turn_now 1 two_turns)
    \<and> start_unless_paused 1 (stop_turn_now 1 two_turns) = (None, stop_turn_now 1 two_turns)"
  using only_the_user_ends_a_pause [of 1 "stop_turn_now 1 two_turns"]
  by (simp add: is_paused_entry stop_turn_now_entry)

section \<open>A delete frees everything\<close>

text \<open>What a delete leaves of an entry while turns of it are still in flight.\<close>

definition forgotten_entry :: "runtime \<Rightarrow> bool" where
  "forgotten_entry r \<longleftrightarrow>
     rt_forgotten r \<and> rt_lock r = None \<and> rt_stops r = None \<and> \<not> rt_paused r \<and> rt_attention r = None
   \<and> rt_notified r = None \<and> rt_published_notice r = None \<and> rt_published r = None
   \<and> rt_kept r = default_kept"

lemma forgotten_drop:
  assumes "forgotten_entry r"
  shows "forgotten_entry (snd (drop_runtime w r))"
  using assms
  by (simp add: forgotten_entry_def drop_runtime_def Let_def free_lock_def free_stops_def)

lemma forgotten_last:
  "forgotten_entry r \<Longrightarrow> entry_ok 0 r \<Longrightarrow> is_idle r"
  by (simp add: forgotten_entry_def entry_ok_def is_idle_def default_kept_def)

lemma drop_turn_turns: "w_turns (drop_turn k w) = filter (\<lambda>(j, _). j \<noteq> k) (w_turns w)"
proof (cases "map_of (w_turns w) k")
  case None
  then have "filter (\<lambda>(j, _). j \<noteq> k) (w_turns w) = w_turns w"
    by (auto simp: filter_id_conv map_of_eq_None_iff rev_image_eqI)
  with None show ?thesis by (simp add: drop_turn_def)
next
  case (Some t)
  then show ?thesis
    by (simp add: drop_turn_def update_existing_with_eq update_existing_eq Let_def split: option.split)
qed

lemma drop_turns_turns:
  "w_turns (fold drop_turn ks w) = filter (\<lambda>(j, _). j \<notin> set ks) (w_turns w)"
proof (induction ks arbitrary: w)
  case Nil
  show ?case by (simp add: case_prod_unfold)
next
  case (Cons k ks)
  have "fold drop_turn (k # ks) w = fold drop_turn ks (drop_turn k w)" by simp
  then show ?case
    by (simp only: Cons.IH) (auto simp: drop_turn_turns case_prod_unfold intro: filter_cong)
qed

text \<open>A deleted conversation with turns to end: the counts hold, and its entry is gone or is what the
  delete left.\<close>

definition deleted_inv :: "conv_id \<Rightarrow> world \<Rightarrow> bool" where
  "deleted_inv c w \<longleftrightarrow>
     count_inv w \<and> distinct (map fst (w_turns w))
   \<and> (\<forall>r. w_runtimes w c = Some r \<longrightarrow> forgotten_entry r \<and> \<not> is_idle r)"

lemma deleted_inv_forget:
  assumes "turn_inv w"
  shows "deleted_inv c (forget_conversation_lock c w)"
proof -
  have "count_inv (run_turn_op w (T_forget c))"
    using assms by (intro count_inv_step) (auto simp: turn_inv_def ident_inv_def)
  moreover have "distinct (map fst (w_turns (forget_conversation_lock c w)))"
    using assms by (simp add: turn_inv_def ident_inv_def forget_conversation_lock_def update_existing_eq
        split: option.split)
  ultimately show ?thesis
    by (auto simp: deleted_inv_def forget_conversation_lock_def update_existing_eq forgotten_entry_def
        split: option.splits if_splits)
qed

lemma deleted_inv_drop:
  assumes "deleted_inv c w"
  shows "deleted_inv c (drop_turn k w)"
proof -
  have "count_inv (drop_turn k w)" "distinct (map fst (w_turns (drop_turn k w)))"
    using assms by (simp_all add: deleted_inv_def count_inv_drop drop_turn_turns distinct_filter_keys)
  moreover have "forgotten_entry r' \<and> \<not> is_idle r'" if r': "w_runtimes (drop_turn k w) c = Some r'" for r'
  proof (cases "map_of (w_turns w) k")
    case None
    with assms r' show ?thesis by (simp add: drop_turn_def deleted_inv_def)
  next
    case (Some t)
    with assms r' show ?thesis
      by (cases "tf_conv t = c"; cases "w_runtimes w (tf_conv t)")
        (auto simp: drop_turn_def update_existing_with_eq update_existing_eq Let_def deleted_inv_def
          intro: forgotten_drop split: if_splits)
  qed
  ultimately show ?thesis by (simp add: deleted_inv_def)
qed

lemma deleted_inv_drops: "deleted_inv c w \<Longrightarrow> deleted_inv c (fold drop_turn ks w)"
  by (induction ks arbitrary: w) (auto intro: deleted_inv_drop)

lemma deleted_gone:
  assumes "deleted_inv c w" and "live_count w c = 0"
  shows "w_runtimes w c = None"
proof (cases "w_runtimes w c")
  case (Some r)
  with assms have "entry_ok 0 r" by (metis count_inv_def deleted_inv_def entry_of_Some)
  with Some assms(1) forgotten_last show ?thesis by (auto simp: deleted_inv_def)
qed

text \<open>
  (C3) A delete leaves no turn state behind: once the turns in flight when it came have ended, in
  whatever order and among any other turns' ends, the conversation has no entry (at once when there
  were none).
\<close>

theorem delete_frees_turn_state:
  assumes "turn_reach w" and "{k. \<exists>t. (k, t) \<in> set (w_turns w) \<and> tf_conv t = c} \<subseteq> set ks"
  shows "w_runtimes (fold drop_turn ks (forget_conversation_lock c w)) c = None"
proof -
  let ?w = "forget_conversation_lock c w"
  have turns: "w_turns ?w = w_turns w"
    by (simp add: forget_conversation_lock_def update_existing_eq split: option.split)
  have "live_count (fold drop_turn ks ?w) c = 0"
    using assms(2) by (auto simp: live_count_def drop_turns_turns turns filter_empty_conv)
  with deleted_inv_drops [OF deleted_inv_forget [OF turn_reach_inv [OF assms(1)]]] show ?thesis
    by (rule deleted_gone)
qed

theorem delete_frees_turn_state_witness:
  "turn_reach two_turns \<and> w_runtimes two_turns 1 \<noteq> None
    \<and> w_runtimes (fold drop_turn [5, 2] (forget_conversation_lock 1 two_turns)) 1 = None"
  using two_turns_reach delete_frees_turn_state [OF two_turns_reach, of 1 "[5, 2]"]
  by (auto simp: two_turns_eq)

section \<open>What a spell's end tells the user\<close>

text \<open>
  A whole busy spell of one turn, as \<open>run_turn_bounded\<close> runs it: admitted, what it owes the user noted,
  and its guard dropped.
\<close>

definition spell :: "conv_id \<Rightarrow> admission \<Rightarrow> attention list \<Rightarrow> world \<Rightarrow> world" where
  "spell c adm owed w =
     (case admit c adm w of
        (None, w') \<Rightarrow> w'
      | (Some (k, g), w') \<Rightarrow> drop_turn k (fold (note_attention c) owed w'))"

definition needs_user :: "conv_id \<Rightarrow> turn_event list \<Rightarrow> (attention \<times> nat) list" where
  "needs_user c es = concat (map (\<lambda>e. case e of NeedsUser d a g \<Rightarrow> if d = c then [(a, g)] else [] | _ \<Rightarrow> []) es)"

lemma needs_user_append [simp]: "needs_user c (es @ fs) = needs_user c es @ needs_user c fs"
  by (simp add: needs_user_def)

text \<open>The strongest of what was noted.\<close>

definition strongest :: "attention list \<Rightarrow> attention option" where
  "strongest owed = fold (\<lambda>a k. Some (max_attention k a)) owed None"

lemma note_attentions:
  assumes "w_runtimes w c = Some r" and "rt_turns_in_flight r \<noteq> 0"
  shows "fold (note_attention c) owed w =
     w\<lparr>w_runtimes := (w_runtimes w)(c \<mapsto>
       r\<lparr>rt_attention := fold (\<lambda>a k. Some (max_attention k a)) owed (rt_attention r)\<rparr>)\<rparr>"
  using assms
proof (induction owed arbitrary: w r)
  case Nil
  then show ?case by (simp add: map_upd_triv)
next
  case (Cons a owed)
  let ?r = "r\<lparr>rt_attention := Some (max_attention (rt_attention r) a)\<rparr>"
  have step: "note_attention c a w = w\<lparr>w_runtimes := (w_runtimes w)(c \<mapsto> ?r)\<rparr>"
    using Cons.prems by (simp add: note_attention_def update_existing_eq is_idle_def)
  show ?case
    using Cons.IH [of "note_attention c a w" ?r] Cons.prems by (simp add: step fun_upd_def cong: if_cong)
qed

lemma fold_max_attention:
  "fold (\<lambda>a k. Some (max_attention k a)) owed (Some b) = Some (fold max owed b)"
  by (induction owed arbitrary: b) (simp_all add: max_attention_def max.commute)

lemma strongest_eq: "strongest owed = (case owed of [] \<Rightarrow> None | a # as \<Rightarrow> Some (Max (set owed)))"
proof (cases owed)
  case (Cons a as)
  have "fold max as a = Max (set (a # as))" by (rule Max.set_eq_fold [symmetric])
  with Cons show ?thesis
    by (simp add: strongest_def fold_max_attention) (simp add: max_attention_def)
qed (simp add: strongest_def)

lemma spell_tells:
  assumes "turn_reach w" and "\<not> turn_running c w" and "adm = ByUser \<or> \<not> is_paused c w"
  defines "r \<equiv> entry_of w c"
  defines "gen \<equiv> ke_generation (rt_kept r) + (if adm = ByUser then 1 else 0)"
  defines "last_told \<equiv> if adm = ByUser then None else map_option snd (rt_published r)"
  shows "needs_user c (w_log (spell c adm owed w)) = needs_user c (w_log w) @
     (case strongest owed of
        None \<Rightarrow> []
      | Some a \<Rightarrow> if a = Failed \<and> last_told = Some Failed then [] else [(a, gen)])"
proof (cases rule: admit_cases [of c adm w])
  case refused
  with assms(3) show ?thesis by (simp add: is_paused_entry)
next
  case (admitted first cleared stop l g r')
  let ?k = "w_next w + 2" and ?w = "snd (admit c adm w)"
  have idle: "rt_turns_in_flight r = 0"
    using assms(2) by (simp add: turn_running_entry r_def)
  have r': "rt_turns_in_flight r' = 1" "rt_attention r' = None" "ke_generation (rt_kept r') = gen"
    "rt_published r' = (if adm = ByUser then None else rt_published r)"
    using admitted(1) idle unfolding r_def [symmetric] gen_def
    by (cases adm; auto simp: admit_runtime_def stop_receiver_def get_lock_def Let_def split: if_splits)+
  have first: "needs_user c (w_log ?w) = needs_user c (w_log w)"
    using admitted(2) by (simp add: join_lock_def) (simp add: needs_user_def)
  have w: "w_runtimes ?w c = Some r'" using admitted(2) by (simp add: join_lock_def)
  let ?r = "r'\<lparr>rt_attention := strongest owed\<rparr>"
  let ?n = "?w\<lparr>w_runtimes := (w_runtimes ?w)(c \<mapsto> ?r)\<rparr>"
  have n: "fold (note_attention c) owed ?w = ?n"
    using note_attentions [OF w, of owed] r'(1,2) by (simp add: strongest_def)
  have fresh: "?k \<notin> fst ` set (w_turns w)"
    using turn_reach_inv [OF assms(1)] by (force simp: turn_inv_def ident_inv_def)
  then have "map_of (w_turns w) ?k = None" by (simp add: map_of_eq_None_iff)
  then obtain t where t: "map_of (w_turns ?n) ?k = Some t" "tf_conv t = c"
    using admitted(2) by (simp add: join_lock_def map_add_def)
  have "w_log (drop_turn ?k ?n) =
      w_log ?w @ drop_events c (fst (drop_runtime (without_turn ?k t ?n) ?r))"
    using t(2) drop_turn_eq [OF t(1)] by (simp add: update_existing_eq)
  moreover have "needs_user c (drop_events c (fst (drop_runtime w' ?r))) =
     (case strongest owed of
        None \<Rightarrow> []
      | Some a \<Rightarrow> if a = Failed \<and> last_told = Some Failed then [] else [(a, gen)])" for w'
    using r' by (auto simp: drop_runtime_def Let_def needs_user_def last_told_def split: option.splits if_splits)
  moreover have "spell c adm owed w = drop_turn ?k ?n"
    using admitted(2) n by (simp add: spell_def split: prod.split)
  ultimately show ?thesis using first by simp
qed

text \<open>
  The end of a busy spell tells the user the strongest thing its turns owed, once, with the
  conversation's generation; only a failure right after a failure they were told of, with nothing from
  the user since, is not told again.
\<close>

theorem spell_end_tells_the_strongest:
  assumes "turn_reach w" and "\<not> turn_running c w" and "adm = ByUser \<or> \<not> is_paused c w"
    and "owed \<noteq> []"
  shows "needs_user c (w_log (spell c adm owed w)) = needs_user c (w_log w) @
     (if Max (set owed) = Failed \<and> adm = UnlessPaused
         \<and> map_option snd (rt_published (entry_of w c)) = Some Failed
      then []
      else [(Max (set owed), ke_generation (rt_kept (entry_of w c)) + (if adm = ByUser then 1 else 0))])"
  using spell_tells [OF assms(1-3), of owed] assms(4)
  by (cases adm; cases owed) (simp_all add: strongest_eq)

definition failed_once :: world where
  "failed_once = foldl guarded_op start_world [T_admit 1 ByUser, T_note_attention 1 Failed, T_drop 2]"

lemma failed_once_facts:
  "\<not> turn_running 1 failed_once" "\<not> is_paused 1 failed_once"
  "rt_published (entry_of failed_once 1) = Some (1, Failed)" "needs_user 1 (w_log failed_once) = [(Failed, 1)]"
  by (simp_all add: failed_once_def turn_eval note_attention_def update_existing_def update_existing_with_def
      max_attention_def is_idle_def drop_turn_def without_turn_def leave_lock_def drop_runtime_def
      release_idle_def place_in_turn_def handles_on_def receiver_count_def turn_running_def read_runtime_def
      is_paused_def entry_of_def needs_user_def)

theorem spell_end_tells_the_strongest_witness:
  "turn_reach failed_once
    \<and> needs_user 1 (w_log (spell 1 UnlessPaused [CutOff, Failed] failed_once)) = [(Failed, 1)]
    \<and> needs_user 1 (w_log (spell 1 ByUser [Failed] failed_once))
        = [(Failed, 1), (Failed, Suc (ke_generation (rt_kept (entry_of failed_once 1))))]"
proof -
  have reach: "turn_reach failed_once" unfolding failed_once_def by (rule reach_run)
  have "Max {CutOff, Failed} = Failed"
    by (rule Max_eqI) (auto simp: less_eq_attention_def)
  with reach failed_once_facts
    spell_end_tells_the_strongest [OF reach, of 1 UnlessPaused "[CutOff, Failed]"]
    spell_end_tells_the_strongest [OF reach, of 1 ByUser "[Failed]"]
  show ?thesis by simp
qed

section \<open>The reply as it streams, and the error that is kept\<close>

text \<open>
  A tab's copy of the reply: a delta goes in at its offset when that is where the tab's text ends.
\<close>

fun replay :: "conv_id \<Rightarrow> turn_event list \<Rightarrow> string \<Rightarrow> string" where
  "replay c [] s = s"
| "replay c (ReplyDelta d x off # es) s = replay c es (if d = c \<and> off = length s then s @ x else s)"
| "replay c (_ # es) s = replay c es s"

lemma replay_append [simp]: "replay c (es @ fs) s = replay c fs (replay c es s)"
  by (induction c es s rule: replay.induct) simp_all

lemma append_reply_entry:
  "entry_of (append_reply c d w) c =
     (entry_of w c)\<lparr>rt_reply := Some ((case rt_reply (entry_of w c) of Some t \<Rightarrow> t | None \<Rightarrow> []) @ d)\<rparr>"
  "w_log (append_reply c d w) =
     w_log w @ [ReplyDelta c d (length (case rt_reply (entry_of w c) of Some t \<Rightarrow> t | None \<Rightarrow> []))]"
  by (simp_all add: append_reply_def with_runtime_eq Let_def)

text \<open>
  A tab that reads the reply in progress at any point, and then takes the deltas published after it
  at their offsets, has the reply in progress: nothing is lost or doubled.
\<close>

theorem streamed_reply_agrees:
  "\<exists>es. w_log (fold (append_reply c) ds w) = w_log w @ es
    \<and> replay c es (case reply_in_progress c w of Some t \<Rightarrow> t | None \<Rightarrow> [])
        = (case reply_in_progress c (fold (append_reply c) ds w) of Some t \<Rightarrow> t | None \<Rightarrow> [])
    \<and> (case reply_in_progress c (fold (append_reply c) ds w) of Some t \<Rightarrow> t | None \<Rightarrow> [])
        = (case reply_in_progress c w of Some t \<Rightarrow> t | None \<Rightarrow> []) @ concat ds"
proof (induction ds arbitrary: w)
  case Nil
  show ?case by simp
next
  case (Cons d ds)
  let ?so_far = "\<lambda>w. case reply_in_progress c w of Some t \<Rightarrow> t | None \<Rightarrow> []"
  let ?w = "append_reply c d w"
  have so_far: "?so_far w = (case rt_reply (entry_of w c) of Some t \<Rightarrow> t | None \<Rightarrow> [])" for w
    by (simp add: reply_entry split: option.split)
  have step: "?so_far ?w = ?so_far w @ d" "w_log ?w = w_log w @ [ReplyDelta c d (length (?so_far w))]"
    by (simp_all add: so_far append_reply_entry)
  obtain es where "w_log (fold (append_reply c) ds ?w) = w_log ?w @ es"
    "replay c es (?so_far ?w) = ?so_far (fold (append_reply c) ds ?w)"
    "?so_far (fold (append_reply c) ds ?w) = ?so_far ?w @ concat ds"
    using Cons.IH [of ?w] by blast
  with step show ?case by (intro exI [of _ "ReplyDelta c d (length (?so_far w)) # es"]) simp
qed

text \<open>
  A turn's failure is kept for a tab that reconnects only while it is the newest: once the user has
  sent again, the error of the turn before is dropped, and only the newer turn's is kept.
\<close>

theorem only_the_newest_error_is_kept:
  assumes "start_by_user c w = (Some (k, g), w')" and "start_by_user c w' = (Some (k', g'), w'')"
  shows "last_turn_error c w'' = None
    \<and> last_turn_error c (keep_turn_error c g e w'') = None
    \<and> last_turn_error c (keep_turn_error c g' e' (keep_turn_error c g e w'')) = Some e'"
proof -
  have kept: "\<exists>r. w_runtimes v' c = Some r \<and> rt_kept r = \<lparr>ke_generation = h, ke_error = None\<rparr>
      \<and> h = ke_generation (rt_kept (entry_of v c)) + 1 \<and> 0 < rt_turns_in_flight r"
    if "start_by_user c v = (Some (j, h), v')" for v v' j h
    using that unfolding start_by_user_def
  proof (cases rule: admit_cases [of c ByUser v])
    case (admitted first cleared stop l gen r')
    with that show ?thesis
      by (auto simp: start_by_user_def join_lock_def admit_runtime_def stop_receiver_def get_lock_def Let_def
          split: if_splits)
  qed simp
  obtain r where r: "w_runtimes w' c = Some r" "ke_generation (rt_kept r) = g"
    using kept [OF assms(1)] by auto
  obtain r' where r': "w_runtimes w'' c = Some r'" "rt_kept r' = \<lparr>ke_generation = g + 1, ke_error = None\<rparr>"
    "0 < rt_turns_in_flight r'" "g' = g + 1"
    using kept [OF assms(2)] r by auto
  then show ?thesis
    by (simp add: last_turn_error_entry keep_turn_error_def update_existing_eq is_idle_def)
qed

theorem only_the_newest_error_is_kept_witness:
  "\<exists>k g w' k' g' w''. start_by_user 1 start_world = (Some (k, g), w')
    \<and> start_by_user 1 w' = (Some (k', g'), w'')
    \<and> last_turn_error 1 (keep_turn_error 1 g ''late'' w'') = None
    \<and> last_turn_error 1 (keep_turn_error 1 g' ''new'' (keep_turn_error 1 g ''late'' w'')) = Some ''new''"
proof -
  obtain k g w' k' g' w'' where "start_by_user 1 start_world = (Some (k, g), w')"
    "start_by_user 1 w' = (Some (k', g'), w'')"
    by (simp add: start_by_user_def turn_eval)
  with only_the_newest_error_is_kept [OF this, of "''late''" "''new''"] show ?thesis by blast
qed

end
