(* ===== verification/Limiter.thy ===== *)
theory Limiter
  imports Machines
begin

text \<open>
  \<open>src/providers/limiter.rs\<close>: how many model requests each provider is sent at once. A provider with a
  limit has a pool of slots, a tokio semaphore and a debt (\<open>owed\<close>) that a lowered limit leaves; the
  pools are shared (\<open>Arc\<close>), so they live in a store under a number, and \<open>LIMITS\<close> names them. Slots held
  are in \<open>lt_held\<close>, each with the pool it came from.

  \<open>Pool::resize\<close> makes two separate atomic updates, and a slot is given back without the \<open>LIMITS\<close> lock, so
  a \<open>set\<close> is two steps here: \<open>set_first\<close> up to and with the first update, which leaves the second in
  \<open>lt_pending\<close> (and holds the lock), and \<open>set_rest\<close>. A call waiting on a pool is granted a slot by a later
  \<open>pl_acquire\<close> that finds one free; versions (timestamps) are integers.
\<close>

section \<open>Pools\<close>

type_synonym pool_id = nat

record pool =
  pl_free :: nat
  pl_closed :: bool
  pl_owed :: nat

definition pool_new :: "u32 \<Rightarrow> pool" where
  "pool_new count = \<lparr>pl_free = count, pl_closed = False, pl_owed = 0\<rparr>"

datatype pending = Add_permits nat | Add_owed nat

text \<open>The first atomic update of \<open>resize\<close>, with what is left to do; and the second.\<close>

definition resize_first :: "u32 \<Rightarrow> u32 \<Rightarrow> pool \<Rightarrow> pending \<times> pool" where
  "resize_first from to p =
     (if to > from then
        (let more = to - from; owed = pl_owed p
         in (Add_permits (more - min owed more), p\<lparr>pl_owed := owed - min owed more\<rparr>))
      else
        (let fewer = from - to; taken = min fewer (pl_free p)
         in (Add_owed (fewer - taken), p\<lparr>pl_free := pl_free p - taken\<rparr>)))"

fun resize_rest :: "pending \<Rightarrow> pool \<Rightarrow> pool" where
  "resize_rest (Add_permits n) p = p\<lparr>pl_free := pl_free p + n\<rparr>"
| "resize_rest (Add_owed n) p = p\<lparr>pl_owed := pl_owed p + n\<rparr>"

definition resize :: "u32 \<Rightarrow> u32 \<Rightarrow> pool \<Rightarrow> pool" where
  "resize from to p = (let (rest, p') = resize_first from to p in resize_rest rest p')"

datatype acquired = Slot_taken | Pool_closed | Must_wait

definition pool_acquire :: "pool \<Rightarrow> acquired \<times> pool" where
  "pool_acquire p =
     (if pl_closed p then (Pool_closed, p)
      else if 0 < pl_free p then (Slot_taken, p\<lparr>pl_free := pl_free p - 1\<rparr>)
      else (Must_wait, p))"

text \<open>\<open>Drop for Slot\<close>: forgotten against the debt, or back to the semaphore.\<close>

definition slot_drop :: "pool \<Rightarrow> pool" where
  "slot_drop p =
     (if 0 < pl_owed p then p\<lparr>pl_owed := pl_owed p - 1\<rparr> else p\<lparr>pl_free := pl_free p + 1\<rparr>)"

section \<open>The limits\<close>

record limit_row =
  lm_version :: int
  lm_pool :: "(u32 \<times> pool_id) option"

record limiter =
  lt_limits :: "int \<rightharpoonup> limit_row"
  lt_pools :: "pool_id \<Rightarrow> pool"
  lt_next :: pool_id
  lt_held :: "(nat \<times> pool_id) list"
  lt_pending :: "(pool_id \<times> pending) option"

definition no_limits :: limiter where
  "no_limits = \<lparr>lt_limits = Map.empty, lt_pools = (\<lambda>_. pool_new 0), lt_next = 0, lt_held = [],
     lt_pending = None\<rparr>"

definition with_pool :: "pool_id \<Rightarrow> (pool \<Rightarrow> pool) \<Rightarrow> limiter \<Rightarrow> limiter" where
  "with_pool p f l = l\<lparr>lt_pools := (lt_pools l)(p := f (lt_pools l p))\<rparr>"

definition set_first :: "int \<Rightarrow> int \<Rightarrow> u32 option \<Rightarrow> limiter \<Rightarrow> limiter" where
  "set_first provider version max_count l =
     (let known = lt_limits l provider in
      if (case known of Some row \<Rightarrow> lm_version row > version | None \<Rightarrow> False) then l
      else
        (let old = (case known of Some row \<Rightarrow> lm_pool row | None \<Rightarrow> None);
             (pool, l') =
               (case (old, max_count) of
                  (Some (from, p), Some to) \<Rightarrow>
                    (let (rest, q) = resize_first from to (lt_pools l p)
                     in (Some (to, p), l\<lparr>lt_pools := (lt_pools l)(p := q), lt_pending := Some (p, rest)\<rparr>))
                | _ \<Rightarrow>
                    (let l1 = (case old of
                                 Some (_, p) \<Rightarrow> with_pool p (\<lambda>q. q\<lparr>pl_closed := True\<rparr>) l
                               | None \<Rightarrow> l)
                     in case max_count of
                          None \<Rightarrow> (None, l1)
                        | Some count \<Rightarrow>
                            (Some (count, lt_next l1),
                             l1\<lparr>lt_pools := (lt_pools l1)(lt_next l1 := pool_new count),
                                lt_next := lt_next l1 + 1\<rparr>)))
         in l'\<lparr>lt_limits := (lt_limits l')(provider \<mapsto> \<lparr>lm_version = version, lm_pool = pool\<rparr>)\<rparr>))"

definition set_rest :: "limiter \<Rightarrow> limiter" where
  "set_rest l =
     (case lt_pending l of
        None \<Rightarrow> l
      | Some (p, rest) \<Rightarrow> (with_pool p (resize_rest rest) l)\<lparr>lt_pending := None\<rparr>)"

definition set_limit :: "int \<Rightarrow> int \<Rightarrow> u32 option \<Rightarrow> limiter \<Rightarrow> limiter" where
  "set_limit provider version max_count l = set_rest (set_first provider version max_count l)"

definition current :: "int \<Rightarrow> limiter \<Rightarrow> pool_id option" where
  "current provider l =
     (case lt_limits l provider of Some row \<Rightarrow> map_option snd (lm_pool row) | None \<Rightarrow> None)"

definition forget :: "int \<Rightarrow> limiter \<Rightarrow> limiter" where
  "forget provider l = l\<lparr>lt_limits := (lt_limits l)(provider := None)\<rparr>"

definition acquire_slot :: "nat \<Rightarrow> pool_id \<Rightarrow> limiter \<Rightarrow> acquired \<times> limiter" where
  "acquire_slot s p l =
     (let (res, q) = pool_acquire (lt_pools l p)
      in (res, l\<lparr>lt_pools := (lt_pools l)(p := q),
                 lt_held := (if res = Slot_taken then (s, p) # lt_held l else lt_held l)\<rparr>))"

definition drop_slot :: "nat \<Rightarrow> limiter \<Rightarrow> limiter" where
  "drop_slot s l =
     (case map_of (lt_held l) s of
        None \<Rightarrow> l
      | Some p \<Rightarrow> (with_pool p slot_drop l)\<lparr>lt_held := filter (\<lambda>(s', _). s' \<noteq> s) (lt_held l)\<rparr>)"

section \<open>A turn's slot\<close>

text \<open>
  \<open>TurnSlot::refresh\<close> (\<open>src/turn/call.rs\<close>): a turn keeps the slot it holds while its pool is the
  provider's current one, and otherwise takes one of the current pool (none without a limit), giving the
  old one up once it has it. \<open>None\<close>: the turn waits, the new pool having no slot free yet (or having been
  closed meanwhile, when \<open>Endpoint::slot\<close> looks the provider's pool up again).
\<close>

definition refresh_keeps :: "pool_id option \<Rightarrow> pool_id option \<Rightarrow> bool" where
  "refresh_keeps held pool =
     (case (held, pool) of (Some h, Some p) \<Rightarrow> h = p | (None, None) \<Rightarrow> True | _ \<Rightarrow> False)"

definition refresh_slot :: "int \<Rightarrow> nat option \<Rightarrow> nat \<Rightarrow> limiter \<Rightarrow> (nat option \<times> limiter) option" where
  "refresh_slot provider slot fresh l =
     (let pool = current provider l;
          held = (case slot of Some s \<Rightarrow> map_of (lt_held l) s | None \<Rightarrow> None);
          give_up = (\<lambda>l. case slot of Some s \<Rightarrow> drop_slot s l | None \<Rightarrow> l)
      in if refresh_keeps held pool then Some (slot, l)
         else case pool of
                None \<Rightarrow> Some (None, give_up l)
              | Some p \<Rightarrow>
                  (case acquire_slot fresh p l of
                     (Slot_taken, l') \<Rightarrow> Some (Some fresh, give_up l')
                   | _ \<Rightarrow> None))"

section \<open>Steps\<close>

datatype limit_op =
    L_set_first int int "u32 option"
  | L_set_rest
  | L_set int int "u32 option"
  | L_forget int
  | L_acquire nat pool_id
  | L_drop nat

text \<open>What the \<open>LIMITS\<close> lock serialises waits for it; slot numbers are not used twice.\<close>

fun limit_op_ok :: "limiter \<Rightarrow> limit_op \<Rightarrow> bool" where
  "limit_op_ok l (L_set_first _ _ _) = (lt_pending l = None)"
| "limit_op_ok l (L_set _ _ _) = (lt_pending l = None)"
| "limit_op_ok l (L_forget _) = (lt_pending l = None)"
| "limit_op_ok l (L_acquire s p) = (s \<notin> fst ` set (lt_held l) \<and> p < lt_next l)"
| "limit_op_ok l _ = True"

fun run_limit_op :: "limiter \<Rightarrow> limit_op \<Rightarrow> limiter" where
  "run_limit_op l (L_set_first i v m) = set_first i v m l"
| "run_limit_op l L_set_rest = set_rest l"
| "run_limit_op l (L_set i v m) = set_limit i v m l"
| "run_limit_op l (L_forget i) = forget i l"
| "run_limit_op l (L_acquire s p) = snd (acquire_slot s p l)"
| "run_limit_op l (L_drop s) = drop_slot s l"

definition limit_step :: "limiter \<Rightarrow> limit_op \<Rightarrow> limiter" where
  "limit_step l e = (if limit_op_ok l e then run_limit_op l e else l)"

definition held_on :: "limiter \<Rightarrow> pool_id \<Rightarrow> nat" where
  "held_on l p = length (filter (\<lambda>(s, q). q = p) (lt_held l))"



section \<open>The slots add up\<close>

definition provider_limit :: "limiter \<Rightarrow> int \<Rightarrow> (u32 \<times> pool_id) option" where
  "provider_limit l i = (case lt_limits l i of Some row \<Rightarrow> lm_pool row | None \<Rightarrow> None)"



text \<open>The three things a \<open>set\<close> does that isn't stale: resize, close, and make a new pool.\<close>

definition stale :: "int \<Rightarrow> int \<Rightarrow> limiter \<Rightarrow> bool" where
  "stale i v l = (case lt_limits l i of Some row \<Rightarrow> lm_version row > v | None \<Rightarrow> False)"

lemma set_first_stale: "stale i v l \<Longrightarrow> set_first i v m l = l"
  by (simp add: set_first_def stale_def Let_def)

lemma set_first_resize:
  "\<not> stale i v l \<Longrightarrow> provider_limit l i = Some (from, p) \<Longrightarrow>
     set_first i v (Some to) l =
       l\<lparr>lt_limits := (lt_limits l)(i \<mapsto> \<lparr>lm_version = v, lm_pool = Some (to, p)\<rparr>),
         lt_pools := (lt_pools l)(p := snd (resize_first from to (lt_pools l p))),
         lt_pending := Some (p, fst (resize_first from to (lt_pools l p)))\<rparr>"
  by (auto simp: set_first_def stale_def provider_limit_def Let_def split: option.splits prod.splits)

lemma set_first_clear:
  "\<not> stale i v l \<Longrightarrow> provider_limit l i = Some (from, p) \<Longrightarrow>
     set_first i v None l =
       l\<lparr>lt_limits := (lt_limits l)(i \<mapsto> \<lparr>lm_version = v, lm_pool = None\<rparr>),
         lt_pools := (lt_pools l)(p := (lt_pools l p)\<lparr>pl_closed := True\<rparr>)\<rparr>"
  by (auto simp: set_first_def stale_def provider_limit_def with_pool_def Let_def split: option.splits prod.splits)

lemma set_first_new:
  "\<not> stale i v l \<Longrightarrow> provider_limit l i = None \<Longrightarrow>
     set_first i v m l =
       (case m of
          None \<Rightarrow> l\<lparr>lt_limits := (lt_limits l)(i \<mapsto> \<lparr>lm_version = v, lm_pool = None\<rparr>)\<rparr>
        | Some count \<Rightarrow>
            l\<lparr>lt_limits := (lt_limits l)(i \<mapsto> \<lparr>lm_version = v, lm_pool = Some (count, lt_next l)\<rparr>),
              lt_pools := (lt_pools l)(lt_next l := pool_new count), lt_next := lt_next l + 1\<rparr>)"
  by (auto simp: set_first_def stale_def provider_limit_def Let_def split: option.splits prod.splits)

lemma set_first_cases:
  obtains (stale) "set_first i v m l = l" "stale i v l"
  | (resize) n p k where "\<not> stale i v l" "m = Some k" "provider_limit l i = Some (n, p)"
  | (clear) n p where "\<not> stale i v l" "m = None" "provider_limit l i = Some (n, p)"
  | (new) "\<not> stale i v l" "provider_limit l i = None"
  by (cases "stale i v l"; cases m; cases "provider_limit l i") (auto simp: set_first_stale)

lemma provider_limit_upd [simp]:
  "provider_limit (l\<lparr>lt_pools := a\<rparr>) j = provider_limit l j" "provider_limit (l\<lparr>lt_pending := b\<rparr>) j = provider_limit l j"
  "provider_limit (l\<lparr>lt_held := c\<rparr>) j = provider_limit l j" "provider_limit (l\<lparr>lt_next := d\<rparr>) j = provider_limit l j"
  "provider_limit (l\<lparr>lt_limits := (lt_limits l)(i \<mapsto> \<lparr>lm_version = v, lm_pool = x\<rparr>)\<rparr>) j =
     (if j = i then x else provider_limit l j)"
  "provider_limit (l\<lparr>lt_limits := (lt_limits l)(i := None)\<rparr>) j = (if j = i then None else provider_limit l j)"
  by (simp_all add: provider_limit_def)

lemma held_on_frame [simp]:
  "held_on (l\<lparr>lt_pools := a\<rparr>) p = held_on l p" "held_on (l\<lparr>lt_pending := b\<rparr>) p = held_on l p"
  "held_on (l\<lparr>lt_limits := c\<rparr>) p = held_on l p" "held_on (l\<lparr>lt_next := d\<rparr>) p = held_on l p"
  by (simp_all add: held_on_def)


lemma resize_first_closed [simp]: "pl_closed (snd (resize_first from to q)) = pl_closed q"
  by (simp add: resize_first_def Let_def)










section \<open>Debts and free slots never coexist while resizes are undisturbed\<close>

text \<open>
  Runs in which nothing comes between the two updates of a resize: every \<open>set\<close> is the whole one.
\<close>

fun whole_set :: "limit_op \<Rightarrow> bool" where
  "whole_set (L_set_first _ _ _) = False"
| "whole_set L_set_rest = False"
| "whole_set _ = True"






definition whole_step :: "limiter \<Rightarrow> limit_op \<Rightarrow> limiter" where
  "whole_step l e = (if whole_set e then limit_step l e else l)"


section \<open>Properties\<close>


lemmas limit_eval =
  limit_step_def whole_step_def no_limits_def set_limit_def set_first_def set_rest_def pool_new_def resize_first_def
  with_pool_def acquire_slot_def pool_acquire_def drop_slot_def slot_drop_def provider_limit_def held_on_def Let_def







text \<open>
  (C19) A slot given back between the two updates of a lowering escapes the debt: with two held of two,
  lowering to one, a slot freed in between and a new grant leave two requests running at a limit of
  one.
\<close>

theorem lowering_races_with_a_free:
  "\<exists>es l'. provider_limit (foldl limit_step no_limits es) 7 = Some (1, 0)
    \<and> lt_pending (foldl limit_step no_limits es) = None
    \<and> acquire_slot 2 0 (foldl limit_step no_limits es) = (Slot_taken, l')
    \<and> held_on l' 0 = 2"
proof -
  let ?es = "[L_set 7 1 (Some 2), L_acquire 0 0, L_acquire 1 0, L_set_first 7 2 (Some 1), L_drop 0, L_set_rest]"
  let ?l = "foldl limit_step no_limits ?es"
  have "provider_limit ?l 7 = Some (1, 0)" "lt_pending ?l = None" "fst (acquire_slot 2 0 ?l) = Slot_taken"
    "held_on (snd (acquire_slot 2 0 ?l)) 0 = 2"
    by (simp_all add: limit_eval)
  then show ?thesis by (intro exI [of _ ?es] exI [of _ "snd (acquire_slot 2 0 ?l)"]) (simp add: prod_eq_iff)
qed

text \<open>
  A provider's limit is its newest row's, in whatever order the sets arrive: of sets with different
  versions, the one with the greatest version says the count.
\<close>

theorem newest_row_sets_the_limit:
  assumes "distinct (map fst vs)" and "(v, m) \<in> set vs" and "\<forall>(u, k) \<in> set vs. u \<le> v"
    and "lt_limits l i = None"
  shows "map_option fst (provider_limit (foldl (\<lambda>l (v, m). set_limit i v m l) l vs) i) = m"
proof -
  let ?set = "\<lambda>l (v, m). set_limit i v m l"
  have one: "(case lt_limits (set_limit i u k x) i of Some row \<Rightarrow>
        if stale i u x then Some row = lt_limits x i
        else lm_version row = u \<and> map_option fst (lm_pool row) = k | None \<Rightarrow> False)" for u k x
  proof (cases rule: set_first_cases [of i u k x])
    case stale
    then show ?thesis by (auto simp: set_limit_def set_rest_def stale_def with_pool_def split: option.splits prod.splits)
  qed (auto simp: set_limit_def set_rest_def set_first_resize set_first_clear set_first_new with_pool_def
      split: option.splits prod.splits)
  have "vs \<noteq> [] \<longrightarrow> (\<exists>row. lt_limits (foldl ?set l vs) i = Some row
      \<and> (lm_version row, map_option fst (lm_pool row)) \<in> set vs
      \<and> (\<forall>(u, k) \<in> set vs. u \<le> lm_version row))"
  proof (induction vs rule: rev_induct)
    case (snoc y ys)
    obtain u k where y: "y = (u, k)" by fastforce
    let ?x = "foldl ?set l ys"
    from one [of u ?x k] obtain row where row: "lt_limits (set_limit i u k ?x) i = Some row"
      "if stale i u ?x then Some row = lt_limits ?x i
       else lm_version row = u \<and> map_option fst (lm_pool row) = k"
      by (auto split: option.splits)
    show ?case
    proof (cases "ys = []")
      case True
      with row y assms(4) show ?thesis by (auto simp: stale_def)
    next
      case False
      with snoc.IH row y show ?thesis by (auto simp: stale_def split: if_splits)
    qed
  qed simp
  with assms(2) obtain row where row: "lt_limits (foldl ?set l vs) i = Some row"
    "(lm_version row, map_option fst (lm_pool row)) \<in> set vs" "\<forall>(u, k) \<in> set vs. u \<le> lm_version row"
    by fastforce
  have "v \<le> lm_version row" using row(3) assms(2) by blast
  moreover have "lm_version row \<le> v" using assms(3) row(2) by blast
  ultimately have "lm_version row = v" by (rule antisym [OF _ _, symmetric])
  with row(2) have "(v, map_option fst (lm_pool row)) \<in> set vs" by simp
  from eq_key_imp_eq_value [OF assms(1) this assms(2)] have "map_option fst (lm_pool row) = m" .
  with row(1) show ?thesis by (simp add: provider_limit_def)
qed

theorem newest_row_sets_the_limit_witness:
  "map_option fst (provider_limit (foldl (\<lambda>l (v, m). set_limit 7 v m l) no_limits
      [(2, Some 4), (3, None), (1, Some 9)]) 7) = None"
  using newest_row_sets_the_limit [of "[(2, Some 4), (3, None), (1, Some 9)]" 3 None no_limits 7]
  by (simp add: no_limits_def)

end
