(* ===== verification/Tool_Names.thy ===== *)
theory Tool_Names
  imports Prelude "HOL-Library.Word" "HOL-Library.List_Lexorder"
begin

text \<open>
  Tool classes (\<open>src/anthropic/tools/class.rs\<close>) and the names and classes of MCP tools
  (\<open>src/mcp/tools.rs\<close>): the name the model calls a tool by, how a call finds the server and the tool
  again, which tools are left out because their call would reach another, and the class a call is judged
  at, with the user's overrides.

  JSON values come from serde_json, whose printing of a string or a number is a parameter
  (\<open>show_atom\<close>); so are the SHA-256 of a text (\<open>sha256_hex\<close>) and reqwest's reading of a method
  (\<open>parse_method\<close>). A server's listing and the configurations are arguments.
\<close>

unbundle bit_operations_syntax

section \<open>Classes\<close>

datatype tool_class = ReadOnly | Writing | Destructive

fun class_rank :: "tool_class \<Rightarrow> nat" where
  "class_rank ReadOnly = 0"
| "class_rank Writing = 1"
| "class_rank Destructive = 2"

instantiation tool_class :: linorder
begin

definition less_eq_tool_class :: "tool_class \<Rightarrow> tool_class \<Rightarrow> bool" where
  "less_eq_tool_class a b \<longleftrightarrow> class_rank a \<le> class_rank b"

definition less_tool_class :: "tool_class \<Rightarrow> tool_class \<Rightarrow> bool" where
  "less_tool_class a b \<longleftrightarrow> class_rank a < class_rank b"

instance
proof
  fix a b :: tool_class
  show "a \<le> b \<Longrightarrow> b \<le> a \<Longrightarrow> a = b"
    by (cases a; cases b) (auto simp: less_eq_tool_class_def)
qed (auto simp: less_eq_tool_class_def less_tool_class_def)

end

fun class_as_str :: "tool_class \<Rightarrow> string" where
  "class_as_str ReadOnly = ''read-only''"
| "class_as_str Writing = ''writing''"
| "class_as_str Destructive = ''destructive''"

definition class_parse :: "string \<Rightarrow> tool_class option" where
  "class_parse text =
     (if text = ''read-only'' then Some ReadOnly
      else if text = ''writing'' then Some Writing
      else if text = ''destructive'' then Some Destructive
      else None)"

lemma class_parse_as_str [simp]: "class_parse (class_as_str c) = Some c"
  by (cases c) (simp_all add: class_parse_def)

text \<open>\<open>http_request\<close>'s class, by the method it sends and the override headers it carries.\<close>

definition method_class :: "string option \<Rightarrow> tool_class" where
  "method_class m =
     (case m of
        Some x \<Rightarrow> if x \<in> {''GET'', ''HEAD'', ''OPTIONS''} then ReadOnly
                 else if x = ''DELETE'' then Destructive else Writing
      | None \<Rightarrow> Writing)"

definition names_a_method_override :: "string \<Rightarrow> bool" where
  "names_a_method_override name =
     list_ex (\<lambda>header. eq_ignore_ascii_case name header)
       [''x-http-method-override'', ''x-http-method'', ''x-method-override'']"

definition http_request_class ::
  "(string \<Rightarrow> string option) \<Rightarrow> string \<Rightarrow> (string \<times> string) list \<Rightarrow> tool_class" where
  "http_request_class parse_method requested_method requested_headers =
     (let literal = method_class (parse_method requested_method);
          overrides = map (\<lambda>(_, value). method_class (parse_method value))
            (filter (\<lambda>(name, _). names_a_method_override name) requested_headers)
      in if overrides = [] then literal else max (Max (set overrides)) literal)"

section \<open>Names\<close>

definition MAX_TOOL_NAME :: nat where
  "MAX_TOOL_NAME = 128"

definition MAX_SERVER_PART :: nat where
  "MAX_SERVER_PART = 40"

definition TOOL_NAME_PREFIX :: string where
  "TOOL_NAME_PREFIX = ''mcp__''"

definition TOOL_NAME_SEPARATOR :: string where
  "TOOL_NAME_SEPARATOR = ''__''"

definition fnv1a :: "string \<Rightarrow> 64 word" where
  "fnv1a bytes =
     foldl (\<lambda>hash byte. (hash XOR of_nat (of_char byte)) * 0x100000001b3) 0xcbf29ce484222325 bytes"

definition hex_digit :: "nat \<Rightarrow> char" where
  "hex_digit d = char_of (if d < 10 then 48 + d else 87 + d)"

text \<open>The last \<open>k\<close> hexadecimal digits, so \<open>format!("{:06x}", n)\<close> for \<open>k = 6\<close> and \<open>n < 16^6\<close>.\<close>

fun hex_digits :: "nat \<Rightarrow> nat \<Rightarrow> string" where
  "hex_digits 0 n = []"
| "hex_digits (Suc k) n = hex_digits k (n div 16) @ [hex_digit (n mod 16)]"

definition name_char :: "char \<Rightarrow> bool" where
  "name_char c \<longleftrightarrow> is_ascii_alphanumeric c \<or> c = CHR ''_'' \<or> c = CHR ''-''"

definition safe_part :: "string \<Rightarrow> nat \<Rightarrow> string" where
  "safe_part text room =
     (if text \<noteq> [] \<and> length text \<le> room \<and> list_all name_char text then text
      else
        (let suffix = CHR ''_'' # hex_digits 6 (unat (fnv1a text AND 0x00ffffff));
             kept = take (room - length suffix)
               (map (\<lambda>c. if name_char c then c else CHR ''_'') (filter (\<lambda>c. \<not> is_continuation c) text))
         in kept @ suffix))"

definition namespaced_tool_name :: "string \<Rightarrow> string \<Rightarrow> string" where
  "namespaced_tool_name server_name tool_name =
     (let server = safe_part server_name MAX_SERVER_PART;
          room = MAX_TOOL_NAME - length TOOL_NAME_PREFIX - length server - length TOOL_NAME_SEPARATOR
      in TOOL_NAME_PREFIX @ server @ TOOL_NAME_SEPARATOR @ safe_part tool_name room)"

definition parse_tool_name :: "string \<Rightarrow> (string \<times> string) option" where
  "parse_tool_name name =
     (case strip_prefix TOOL_NAME_PREFIX name of
        None \<Rightarrow> None | Some rest \<Rightarrow> split_once TOOL_NAME_SEPARATOR rest)"

definition safe_tool_name :: "string \<Rightarrow> string" where
  "safe_tool_name name =
     (if 1 \<le> length name \<and> length name \<le> MAX_TOOL_NAME \<and> list_all name_char name then name
      else case parse_tool_name name of
             None \<Rightarrow> name | Some (server, tool) \<Rightarrow> namespaced_tool_name server tool)"

section \<open>From a name back to its server and tool\<close>

record mcp_server_config =
  sc_id :: int
  sc_name :: string

text \<open>\<open>Iterator::max_by_key\<close>: the last of the greatest.\<close>

fun max_by_key :: "('a \<Rightarrow> nat) \<Rightarrow> 'a list \<Rightarrow> 'a option" where
  "max_by_key f [] = None"
| "max_by_key f (x # xs) =
     (case max_by_key f xs of None \<Rightarrow> Some x | Some y \<Rightarrow> if f x \<le> f y then Some y else Some x)"

definition server_for :: "string \<Rightarrow> mcp_server_config list \<Rightarrow> (mcp_server_config \<times> string) option" where
  "server_for name configs =
     (case strip_prefix TOOL_NAME_PREFIX name of
        None \<Rightarrow> None
      | Some rest \<Rightarrow>
          max_by_key (\<lambda>(config, _). length (safe_part (sc_name config) MAX_SERVER_PART))
            (List.map_filter
              (\<lambda>config.
                 case strip_prefix (safe_part (sc_name config) MAX_SERVER_PART) rest of
                   None \<Rightarrow> None
                 | Some r \<Rightarrow> map_option (\<lambda>tool. (config, tool)) (strip_prefix TOOL_NAME_SEPARATOR r))
              configs))"

datatype json =
    JNull | JBool bool | JInt int | JFloat string | JString string | JArray "json list" | JObject "(string \<times> json) list"

record tool_annotations =
  an_read_only :: "bool option"
  an_destructive :: "bool option"

record mcp_tool =
  mt_name :: string
  mt_description :: "string option"
  mt_schema :: "(string \<times> json) list"
  mt_annotations :: "tool_annotations option"

definition listed_tool_name :: "mcp_tool list \<Rightarrow> string \<Rightarrow> string \<Rightarrow> string" where
  "listed_tool_name listed server_name part =
     (if list_ex (\<lambda>tool. mt_name tool = part) listed then part
      else
        (let called = namespaced_tool_name server_name part
         in case find (\<lambda>tool. namespaced_tool_name server_name tool = called) (map mt_name listed) of
              Some tool \<Rightarrow> tool | None \<Rightarrow> part))"

datatype resolve_error = Unknown_server string

text \<open>\<open>resolve_tool\<close> once the configurations are read; a failed read is an error of the database.\<close>

definition resolve_tool ::
  "mcp_server_config list \<Rightarrow> string \<Rightarrow> resolve_error + (mcp_server_config \<times> string)" where
  "resolve_tool configs name =
     (case server_for name configs of
        Some (config, part) \<Rightarrow> Inr (config, part)
      | None \<Rightarrow> Inl (Unknown_server
          (case parse_tool_name name of Some (server, _) \<Rightarrow> server | None \<Rightarrow> name)))"

record offered_tool =
  of_server :: string
  of_tool :: mcp_tool
  of_class :: tool_class

definition routes :: "mcp_server_config list \<Rightarrow> (string \<rightharpoonup> mcp_tool list) \<Rightarrow> offered_tool \<Rightarrow> bool" where
  "routes configs listed offer =
     (let name = namespaced_tool_name (of_server offer) (mt_name (of_tool offer));
          reached = (case server_for name configs of
              None \<Rightarrow> None
            | Some (config, part) \<Rightarrow>
                (let tools = (case listed (sc_name config) of Some ts \<Rightarrow> ts | None \<Rightarrow> [])
                 in if sc_name config = of_server offer
                    then Some (listed_tool_name tools (sc_name config) part) else None))
      in reached = Some (mt_name (of_tool offer)))"

definition routable_offers ::
  "offered_tool list \<Rightarrow> mcp_server_config list \<Rightarrow> (string \<rightharpoonup> mcp_tool list) \<Rightarrow> offered_tool list" where
  "routable_offers offered configs listed = filter (routes configs listed) offered"

section \<open>An MCP tool's class\<close>

definition class_from_annotations :: "tool_annotations option \<Rightarrow> tool_class" where
  "class_from_annotations annotations =
     (case map_option (\<lambda>a. (an_read_only a, an_destructive a)) annotations of
        Some (Some True, _) \<Rightarrow> ReadOnly
      | Some (_, Some False) \<Rightarrow> Writing
      | _ \<Rightarrow> Destructive)"

definition listed_class :: "mcp_tool list \<Rightarrow> string \<Rightarrow> tool_class" where
  "listed_class tools tool_name =
     (case find (\<lambda>tool. mt_name tool = tool_name) tools of
        None \<Rightarrow> Destructive | Some tool \<Rightarrow> class_from_annotations (mt_annotations tool))"

definition judged_class :: "string option \<Rightarrow> tool_class \<Rightarrow> tool_class" where
  "judged_class saved listed =
     (case saved of
        None \<Rightarrow> listed
      | Some text \<Rightarrow> (case class_parse text of Some c \<Rightarrow> c | None \<Rightarrow> Destructive))"

fun joined :: "string list \<Rightarrow> string" where
  "joined [] = []"
| "joined [x] = x"
| "joined (x # xs) = x @ '','' @ joined xs"

fun canonical_json :: "(json \<Rightarrow> string) \<Rightarrow> json \<Rightarrow> string" where
  "canonical_json show_atom (JObject members) =
     ''{'' @ joined (map (\<lambda>(key, value). show_atom (JString key) @ '':'' @ value)
                     (sort_key fst (map (\<lambda>(key, value). (key, canonical_json show_atom value)) members))) @ ''}''"
| "canonical_json show_atom (JArray items) =
     ''['' @ joined (map (canonical_json show_atom) items) @ '']''"
| "canonical_json show_atom other = show_atom other"

definition fingerprint_text :: "(json \<Rightarrow> string) \<Rightarrow> mcp_tool \<Rightarrow> string" where
  "fingerprint_text show_atom tool =
     (case mt_description tool of Some d \<Rightarrow> d | None \<Rightarrow> []) @ [CHR 0x00]
     @ canonical_json show_atom (JObject (mt_schema tool))"

definition tool_fingerprint :: "(string \<Rightarrow> string) \<Rightarrow> (json \<Rightarrow> string) \<Rightarrow> mcp_tool \<Rightarrow> string" where
  "tool_fingerprint sha256_hex show_atom tool = sha256_hex (fingerprint_text show_atom tool)"

definition legacy_fingerprint :: "(json \<Rightarrow> string) \<Rightarrow> mcp_tool \<Rightarrow> string" where
  "legacy_fingerprint show_atom tool = hex_digits 16 (unat (fnv1a (fingerprint_text show_atom tool)))"

definition fingerprint_names ::
  "(string \<Rightarrow> string) \<Rightarrow> (json \<Rightarrow> string) \<Rightarrow> string \<Rightarrow> mcp_tool \<Rightarrow> bool" where
  "fingerprint_names sha256_hex show_atom stored tool \<longleftrightarrow>
     stored = tool_fingerprint sha256_hex show_atom tool \<or> stored = legacy_fingerprint show_atom tool"

record saved_tool_class =
  sv_class :: string
  sv_fingerprint :: "string option"

definition override_is_current ::
  "(string \<Rightarrow> string) \<Rightarrow> (json \<Rightarrow> string) \<Rightarrow> saved_tool_class \<Rightarrow> mcp_tool option \<Rightarrow> bool" where
  "override_is_current sha256_hex show_atom saved listed =
     (case sv_fingerprint saved of
        None \<Rightarrow> True
      | Some f \<Rightarrow> (case listed of None \<Rightarrow> False | Some tool \<Rightarrow> fingerprint_names sha256_hex show_atom f tool))"

definition effective_override ::
  "(string \<Rightarrow> string) \<Rightarrow> (json \<Rightarrow> string) \<Rightarrow> saved_tool_class \<Rightarrow> mcp_tool option \<Rightarrow> string" where
  "effective_override sha256_hex show_atom saved listed =
     (if override_is_current sha256_hex show_atom saved listed then sv_class saved
      else
        (let annotated = (case listed of None \<Rightarrow> Destructive
                          | Some tool \<Rightarrow> class_from_annotations (mt_annotations tool))
         in case class_parse (sv_class saved) of
              Some c \<Rightarrow> class_as_str (max c annotated) | None \<Rightarrow> sv_class saved))"

section \<open>Safe names\<close>

lemma hex_digit_name: "d < 16 \<Longrightarrow> name_char (hex_digit d)"
  by (auto simp: name_char_def hex_digit_def is_ascii_alphanumeric_def is_ascii_digit_def is_ascii_lower_def)

lemma hex_digits_length [simp]: "length (hex_digits k n) = k"
  by (induction k arbitrary: n) simp_all

lemma hex_digits_name: "list_all name_char (hex_digits k n)"
  by (induction k arbitrary: n) (simp_all add: hex_digit_name)

lemma safe_part_ok:
  assumes "7 \<le> room"
  shows "safe_part text room \<noteq> []" "length (safe_part text room) \<le> room"
    "list_all name_char (safe_part text room)"
proof -
  have underscore: "name_char (CHR ''_'')" by (simp add: name_char_def)
  have "list_all name_char (take k (map (\<lambda>c. if name_char c then c else CHR ''_'') cs))" for k cs
    by (auto simp: list_all_iff underscore dest!: in_set_takeD)
  then show "list_all name_char (safe_part text room)"
    by (simp add: safe_part_def Let_def underscore hex_digits_name del: hex_digits.simps)
  show "safe_part text room \<noteq> []" "length (safe_part text room) \<le> room"
    using assms by (auto simp: safe_part_def Let_def simp del: hex_digits.simps)
qed

lemma safe_part_idem:
  assumes "7 \<le> room"
  shows "safe_part (safe_part text room) room = safe_part text room"
  using safe_part_ok [OF assms] by (subst safe_part_def) simp

definition server_part :: "string \<Rightarrow> string" where
  "server_part server = safe_part server MAX_SERVER_PART"

definition tool_room :: "string \<Rightarrow> nat" where
  "tool_room server = 121 - length (server_part server)"

lemma tool_room_ok: "7 \<le> tool_room server"
  using safe_part_ok(2) [of MAX_SERVER_PART server]
  by (simp add: tool_room_def server_part_def MAX_SERVER_PART_def)

lemma namespaced_eq:
  "namespaced_tool_name server tool =
     TOOL_NAME_PREFIX @ server_part server @ TOOL_NAME_SEPARATOR @ safe_part tool (tool_room server)"
  by (simp add: namespaced_tool_name_def server_part_def tool_room_def MAX_TOOL_NAME_def
      TOOL_NAME_PREFIX_def TOOL_NAME_SEPARATOR_def Let_def)

lemma namespaced_part:
  "namespaced_tool_name server (safe_part tool (tool_room server)) = namespaced_tool_name server tool"
  by (simp add: namespaced_eq safe_part_idem tool_room_ok)

text \<open>
  Every name an MCP tool is offered under is one Anthropic's API takes, whatever its server and the
  tool are called: 1 to 128 characters of \<open>[a-zA-Z0-9_-]\<close>; and such a name is left as it is when it is
  read back from history.
\<close>

theorem tool_names_are_accepted:
  "1 \<le> length (namespaced_tool_name server tool)
    \<and> length (namespaced_tool_name server tool) \<le> MAX_TOOL_NAME
    \<and> list_all name_char (namespaced_tool_name server tool)
    \<and> safe_tool_name (namespaced_tool_name server tool) = namespaced_tool_name server tool"
proof -
  have s: "length (server_part server) \<le> 40" "list_all name_char (server_part server)"
    using safe_part_ok [of MAX_SERVER_PART server] by (simp_all add: server_part_def MAX_SERVER_PART_def)
  have t: "length (safe_part tool (tool_room server)) \<le> tool_room server"
    "list_all name_char (safe_part tool (tool_room server))"
    using safe_part_ok [OF tool_room_ok] by simp_all
  have "1 \<le> length (namespaced_tool_name server tool)"
    "length (namespaced_tool_name server tool) \<le> MAX_TOOL_NAME"
    "list_all name_char (namespaced_tool_name server tool)"
    using s t by (simp_all add: namespaced_eq tool_room_def MAX_TOOL_NAME_def TOOL_NAME_PREFIX_def
        TOOL_NAME_SEPARATOR_def name_char_def is_ascii_alphanumeric_def is_ascii_lower_def)
  then show ?thesis by (simp add: safe_tool_name_def)
qed

section \<open>Calls reach the tool that was offered\<close>

lemma max_by_key_None [simp]: "max_by_key f xs = None \<longleftrightarrow> xs = []"
  by (cases xs) (auto split: option.split)

lemma max_by_key_Some:
  "max_by_key f xs = Some y \<Longrightarrow> y \<in> set xs \<and> (\<forall>x \<in> set xs. f x \<le> f y)"
  by (induction xs arbitrary: y) (fastforce split: option.splits if_splits)+

lemma max_by_key_unique:
  assumes "x \<in> set xs" and "\<And>y. y \<in> set xs \<Longrightarrow> y = x \<or> f y < f x"
  shows "max_by_key f xs = Some x"
proof (cases "max_by_key f xs")
  case None
  with assms(1) show ?thesis by simp
next
  case (Some y)
  from max_by_key_Some [OF this] assms Some show ?thesis by (metis leD)
qed

lemma server_for_eq:
  "server_for (TOOL_NAME_PREFIX @ rest) configs =
     max_by_key (\<lambda>(config, _). length (server_part (sc_name config)))
       (List.map_filter (\<lambda>config. map_option (\<lambda>tool. (config, tool))
          (strip_prefix (server_part (sc_name config) @ TOOL_NAME_SEPARATOR) rest)) configs)"
proof -
  have "strip_prefix (p @ q) r = (case strip_prefix p r of None \<Rightarrow> None | Some x \<Rightarrow> strip_prefix q x)"
    for p q r :: string
    by (induction p r rule: strip_prefix.induct) (simp_all split: list.split)
  then show ?thesis
    by (simp add: server_for_def server_part_def)
      (rule arg_cong [where f = "max_by_key _"], rule arg_cong2 [where f = List.map_filter],
        auto split: option.split)
qed

lemma routes_reached:
  assumes "routes configs listed x"
  obtains config part where
    "server_for (namespaced_tool_name (of_server x) (mt_name (of_tool x))) configs = Some (config, part)"
    "sc_name config = of_server x"
    "listed_tool_name (case listed (of_server x) of Some ts \<Rightarrow> ts | None \<Rightarrow> []) (of_server x) part
       = mt_name (of_tool x)"
  using assms unfolding routes_def Let_def by (auto split: option.splits if_splits)

text \<open>
  (C15) No two tools offered to the model share a name: two offers kept by \<open>routable_offers\<close> under one
  name are the same tool of the same server, and the call by it resolves to that server.
\<close>

theorem offered_names_are_unambiguous:
  assumes "a \<in> set (routable_offers offered configs listed)"
    and "b \<in> set (routable_offers offered configs listed)"
    and "namespaced_tool_name (of_server a) (mt_name (of_tool a))
       = namespaced_tool_name (of_server b) (mt_name (of_tool b))"
  shows "of_server a = of_server b \<and> mt_name (of_tool a) = mt_name (of_tool b)
    \<and> (\<exists>config part. resolve_tool configs (namespaced_tool_name (of_server a) (mt_name (of_tool a)))
          = Inr (config, part) \<and> sc_name config = of_server a)"
proof -
  let ?listed = "\<lambda>s. case listed s of Some ts \<Rightarrow> ts | None \<Rightarrow> []"
  have routes: "routes configs listed a" "routes configs listed b"
    using assms(1,2) by (simp_all add: routable_offers_def)
  obtain c p where a: "server_for (namespaced_tool_name (of_server a) (mt_name (of_tool a))) configs = Some (c, p)"
    "sc_name c = of_server a" "listed_tool_name (?listed (of_server a)) (of_server a) p = mt_name (of_tool a)"
    by (rule routes_reached [OF routes(1)])
  obtain d q where b: "server_for (namespaced_tool_name (of_server b) (mt_name (of_tool b))) configs = Some (d, q)"
    "sc_name d = of_server b" "listed_tool_name (?listed (of_server b)) (of_server b) q = mt_name (of_tool b)"
    by (rule routes_reached [OF routes(2)])
  from a(1) b(1) assms(3) have "d = c" "q = p" by simp_all
  with a b have "of_server a = of_server b" "mt_name (of_tool a) = mt_name (of_tool b)" by simp_all
  with a(1,2) show ?thesis by (simp add: resolve_tool_def)
qed

text \<open>
  Only clashes are left out: a listed tool is offered when its server is configured, no other
  configured server's part with \<open>__\<close> starts its name unless it is shorter, and no other tool that server
  lists has its safe name.
\<close>

theorem clash_free_tools_are_offered:
  assumes "offer \<in> set offered" and "c \<in> set configs" and "sc_name c = of_server offer"
    and "\<forall>d \<in> set configs. d = c
       \<or> \<not> starts_with (namespaced_tool_name (of_server offer) (mt_name (of_tool offer)))
             (TOOL_NAME_PREFIX @ safe_part (sc_name d) MAX_SERVER_PART @ TOOL_NAME_SEPARATOR)
       \<or> length (safe_part (sc_name d) MAX_SERVER_PART) < length (safe_part (sc_name c) MAX_SERVER_PART)"
    and "listed (of_server offer) = Some tools" and "of_tool offer \<in> set tools"
    and "\<forall>t \<in> set tools. namespaced_tool_name (of_server offer) (mt_name t)
           = namespaced_tool_name (of_server offer) (mt_name (of_tool offer))
         \<longrightarrow> mt_name t = mt_name (of_tool offer)"
  shows "offer \<in> set (routable_offers offered configs listed)"
proof -
  let ?s = "of_server offer" and ?t = "mt_name (of_tool offer)"
  let ?part = "safe_part ?t (tool_room ?s)"
  let ?rest = "server_part ?s @ TOOL_NAME_SEPARATOR @ ?part"
  have name: "namespaced_tool_name ?s ?t = TOOL_NAME_PREFIX @ ?rest" by (simp add: namespaced_eq)
  have "server_for (namespaced_tool_name ?s ?t) configs = Some (c, ?part)"
    unfolding name server_for_eq
  proof (rule max_by_key_unique)
    have "strip_prefix (server_part ?s @ TOOL_NAME_SEPARATOR) ?rest = Some ?part"
      by (simp add: strip_prefix_iff)
    with assms(2,3) show "(c, ?part) \<in> set (List.map_filter (\<lambda>config. map_option (Pair config)
        (strip_prefix (server_part (sc_name config) @ TOOL_NAME_SEPARATOR) ?rest)) configs)"
      by auto
  next
    fix y assume "y \<in> set (List.map_filter (\<lambda>config. map_option (Pair config)
        (strip_prefix (server_part (sc_name config) @ TOOL_NAME_SEPARATOR) ?rest)) configs)"
    then obtain d p where y: "y = (d, p)" "d \<in> set configs"
      "?rest = (server_part (sc_name d) @ TOOL_NAME_SEPARATOR) @ p"
      by (auto simp: strip_prefix_iff)
    show "y = (c, ?part) \<or> (case y of (config, _) \<Rightarrow> length (server_part (sc_name config)))
        < (case (c, ?part) of (config, _) \<Rightarrow> length (server_part (sc_name config)))"
    proof (cases "d = c")
      case True
      with y assms(3) show ?thesis by simp
    next
      case False
      have "starts_with (namespaced_tool_name ?s ?t)
          (TOOL_NAME_PREFIX @ safe_part (sc_name d) MAX_SERVER_PART @ TOOL_NAME_SEPARATOR)"
        unfolding name y(3) by (simp add: starts_with_iff server_part_def)
      with assms(4) y(1,2) False show ?thesis by (auto simp: server_part_def)
    qed
  qed
  moreover have "listed_tool_name tools ?s ?part = ?t"
  proof (cases "\<exists>t \<in> set tools. mt_name t = ?part")
    case True
    with assms(7) have "?part = ?t" by (metis namespaced_part)
    with True show ?thesis by (auto simp: listed_tool_name_def list_ex_iff)
  next
    case False
    have "find (\<lambda>tool. namespaced_tool_name ?s tool = namespaced_tool_name ?s ?part) (map mt_name tools) = Some ?t"
    proof (cases "find (\<lambda>tool. namespaced_tool_name ?s tool = namespaced_tool_name ?s ?part) (map mt_name tools)")
      case None
      with assms(6) show ?thesis by (auto simp: find_None_iff namespaced_part)
    next
      case (Some x)
      with assms(7) have "x = ?t" by (auto simp: find_Some_iff namespaced_part)
      with Some show ?thesis by simp
    qed
    with False show ?thesis by (simp add: listed_tool_name_def list_ex_iff)
  qed
  ultimately show ?thesis
    using assms(1,3,5) by (simp add: routable_offers_def routes_def Let_def)
qed

definition two_servers :: "mcp_server_config list" where
  "two_servers = [\<lparr>sc_id = 1, sc_name = ''a''\<rparr>, \<lparr>sc_id = 2, sc_name = ''a__b''\<rparr>]"

definition tool_named :: "string \<Rightarrow> mcp_tool" where
  "tool_named n = \<lparr>mt_name = n, mt_description = None, mt_schema = [], mt_annotations = None\<rparr>"

definition offer_of :: "string \<Rightarrow> string \<Rightarrow> offered_tool" where
  "offer_of s t = \<lparr>of_server = s, of_tool = tool_named t, of_class = Destructive\<rparr>"

definition clashing_listing :: "string \<rightharpoonup> mcp_tool list" where
  "clashing_listing = [''a'' \<mapsto> [tool_named ''b__c''], ''a__b'' \<mapsto> [tool_named ''c'']]"

lemmas name_eval =
  namespaced_tool_name_def safe_part_def MAX_SERVER_PART_def MAX_TOOL_NAME_def TOOL_NAME_PREFIX_def
  TOOL_NAME_SEPARATOR_def name_char_def is_ascii_alphanumeric_def is_ascii_digit_def is_ascii_lower_def
  is_ascii_upper_def offer_of_def tool_named_def two_servers_def clashing_listing_def Let_def

theorem clash_free_tools_are_offered_witness:
  "offer_of ''a__b'' ''c'' \<in> set (routable_offers [offer_of ''a'' ''b__c'', offer_of ''a__b'' ''c'']
     two_servers clashing_listing)"
  using clash_free_tools_are_offered
    [of "offer_of ''a__b'' ''c''" "[offer_of ''a'' ''b__c'', offer_of ''a__b'' ''c'']"
      "\<lparr>sc_id = 2, sc_name = ''a__b''\<rparr>" two_servers clashing_listing "[tool_named ''c'']"]
  by (simp add: name_eval)

theorem offered_names_are_unambiguous_witness:
  "\<exists>config part. resolve_tool two_servers (namespaced_tool_name ''a__b'' ''c'') = Inr (config, part)
     \<and> sc_name config = ''a__b''"
proof -
  let ?o = "offer_of ''a__b'' ''c''"
  have "?o \<in> set (routable_offers [?o] two_servers clashing_listing)"
    by (simp add: routable_offers_def routes_def server_for_def listed_tool_name_def List.map_filter_simps
        name_eval)
  from offered_names_are_unambiguous [OF this this refl] show ?thesis
    by (simp add: offer_of_def tool_named_def)
qed

section \<open>Classes a call is judged at\<close>

text \<open>
  An override set for another tool than the one listed under its name now can only narrow: the call
  is judged at a class at least as reaching as the server's own annotations give it, and as the class
  the user saved.
\<close>

theorem stale_override_only_narrows:
  assumes "\<not> override_is_current sha256_hex show_atom saved listed"
  shows "judged_class (Some (effective_override sha256_hex show_atom saved listed)) any
      \<ge> (case listed of None \<Rightarrow> Destructive | Some tool \<Rightarrow> class_from_annotations (mt_annotations tool))
    \<and> (case class_parse (sv_class saved) of
         Some c \<Rightarrow> judged_class (Some (effective_override sha256_hex show_atom saved listed)) any \<ge> c
       | None \<Rightarrow> judged_class (Some (effective_override sha256_hex show_atom saved listed)) any = Destructive)"
proof -
  have top: "c \<le> Destructive" for c :: tool_class by (cases c) (simp_all add: less_eq_tool_class_def)
  show ?thesis
    using assms top
    by (auto simp: effective_override_def judged_class_def Let_def split: option.split)
qed

theorem stale_override_only_narrows_witness:
  "judged_class (Some (effective_override (\<lambda>_. ''new'') (\<lambda>_. [])
      \<lparr>sv_class = ''read-only'', sv_fingerprint = Some ''old''\<rparr> (Some (tool_named ''drop'')))) ReadOnly \<ge> Destructive"
proof -
  have "length (legacy_fingerprint (\<lambda>_. []) (tool_named ''drop'')) = 16"
    by (simp add: legacy_fingerprint_def)
  then have "\<not> override_is_current (\<lambda>_. ''new'') (\<lambda>_. [])
      \<lparr>sv_class = ''read-only'', sv_fingerprint = Some ''old''\<rparr> (Some (tool_named ''drop''))"
    by (auto simp: override_is_current_def fingerprint_names_def tool_fingerprint_def
        dest: arg_cong [of _ _ length])
  from stale_override_only_narrows [OF this, of ReadOnly] show ?thesis
    by (simp add: class_from_annotations_def tool_named_def)
qed

text \<open>
  A method-override header that names no method still raises a read: a \<open>GET\<close> with one is judged
  writing, as any text that doesn't parse is, not by its literal method.
\<close>

theorem unparsable_override_raises_a_read:
  assumes "parse_method ''GET'' = Some ''GET''" and "parse_method bad = None"
  shows "http_request_class parse_method ''GET'' [(''X-HTTP-Method-Override'', bad)] = Writing
    \<and> http_request_class parse_method ''GET'' [] = ReadOnly"
proof -
  have "names_a_method_override ''X-HTTP-Method-Override''"
    by code_simp
  with assms show ?thesis
    by (simp add: http_request_class_def method_class_def max_def less_eq_tool_class_def)
qed

theorem unparsable_override_raises_a_read_witness:
  "http_request_class (\<lambda>m. if m = ''GET'' then Some m else None) ''GET''
     [(''X-HTTP-Method-Override'', ''GET /x'')] = Writing"
  using unparsable_override_raises_a_read [of "\<lambda>m. if m = ''GET'' then Some m else None" "''GET /x''"]
  by simp

end
