(* ===== verification/Tool_Rules.thy ===== *)
theory Tool_Rules
  imports Tool_Names
begin

text \<open>
  \<open>src/personas/rules.rs\<close>: a persona's tool rules. A block of rules is a class ceiling and lists of
  allow and deny patterns; \<open>check_rules\<close> reads the YAML's text into it, or says which of the grammar's
  checks fails; a conversation's chain of blocks decides which tools it is offered and may call.

  The error texts are the constructors of \<open>rules_error\<close> and \<open>refusal\<close>, with the values each message is
  made of. Reading the stored JSON into entries is serde's, a parameter (\<open>read_entries\<close>).
\<close>

section \<open>Rules\<close>

datatype ceiling = C_All | C_NoDestructive | C_ReadOnly

fun ceiling_as_str :: "ceiling \<Rightarrow> string" where
  "ceiling_as_str C_All = ''all''"
| "ceiling_as_str C_NoDestructive = ''no-destructive''"
| "ceiling_as_str C_ReadOnly = ''read-only''"

fun ceiling_allows :: "ceiling \<Rightarrow> tool_class \<Rightarrow> bool" where
  "ceiling_allows C_All c = True"
| "ceiling_allows C_NoDestructive c = (c \<noteq> Destructive)"
| "ceiling_allows C_ReadOnly c = (c = ReadOnly)"

record pattern =
  pt_server :: "string option"
  pt_tool :: string

definition pattern_to_string :: "pattern \<Rightarrow> string" where
  "pattern_to_string p =
     (case pt_server p of Some server \<Rightarrow> server @ ''/'' @ pt_tool p | None \<Rightarrow> pt_tool p)"

definition pattern_from_string :: "string \<Rightarrow> pattern" where
  "pattern_from_string s =
     (case split_once ''/'' s of
        Some (server, tool) \<Rightarrow> \<lparr>pt_server = Some server, pt_tool = tool\<rparr>
      | None \<Rightarrow> \<lparr>pt_server = None, pt_tool = s\<rparr>)"

datatype tool_rules =
  ToolRules (tr_class: ceiling) (tr_allow: "pattern list") (tr_deny: "pattern list") (tr_own: "tool_rules option")

record raw_own_rules =
  ro_class :: ceiling
  ro_allow :: "string list"
  ro_deny :: "string list"

record raw_tool_rules =
  rw_class :: ceiling
  rw_allow :: "string list"
  rw_deny :: "string list"
  rw_own :: "raw_own_rules option"

section \<open>Checking what a persona file says\<close>

datatype rules_error =
    Empty_pattern string string
  | More_than_one_slash string string string
  | Wildcard_in_server string string string
  | Empty_part string string string
  | In_both_lists string string string

definition parse_pattern :: "string \<Rightarrow> string \<Rightarrow> string \<Rightarrow> rules_error + pattern" where
  "parse_pattern path block s =
     (if s = [] then Inl (Empty_pattern path block)
      else case split_once ''/'' s of
             Some (server, tool) \<Rightarrow>
               if CHR ''/'' \<in> set server \<or> CHR ''/'' \<in> set tool then Inl (More_than_one_slash path block s)
               else if CHR ''*'' \<in> set server then Inl (Wildcard_in_server path block s)
               else if server = [] \<or> tool = [] then Inl (Empty_part path block s)
               else Inr \<lparr>pt_server = Some server, pt_tool = tool\<rparr>
           | None \<Rightarrow> Inr \<lparr>pt_server = None, pt_tool = s\<rparr>)"

text \<open>Collecting an iterator of results: the first error, or all the values.\<close>

fun collect :: "('a \<Rightarrow> 'e + 'b) \<Rightarrow> 'a list \<Rightarrow> 'e + 'b list" where
  "collect f [] = Inr []"
| "collect f (x # xs) =
     (case f x of
        Inl e \<Rightarrow> Inl e
      | Inr y \<Rightarrow> (case collect f xs of Inl e \<Rightarrow> Inl e | Inr ys \<Rightarrow> Inr (y # ys)))"

definition check_lists :: "string \<Rightarrow> string \<Rightarrow> raw_tool_rules \<Rightarrow> rules_error + tool_rules" where
  "check_lists path block raw =
     (case collect (parse_pattern path block) (rw_allow raw) of
        Inl e \<Rightarrow> Inl e
      | Inr allow \<Rightarrow>
          (case collect (parse_pattern path block) (rw_deny raw) of
             Inl e \<Rightarrow> Inl e
           | Inr deny \<Rightarrow>
               (case find (\<lambda>s. s \<in> set (rw_allow raw)) (rw_deny raw) of
                  Some dup \<Rightarrow> Inl (In_both_lists path block dup)
                | None \<Rightarrow> Inr (ToolRules (rw_class raw) allow deny None))))"

definition check_rules :: "string \<Rightarrow> raw_tool_rules \<Rightarrow> rules_error + tool_rules" where
  "check_rules path raw =
     (case (case rw_own raw of
              None \<Rightarrow> Inr None
            | Some own \<Rightarrow>
                (case check_lists path ''smelt.tools.own''
                        \<lparr>rw_class = ro_class own, rw_allow = ro_allow own, rw_deny = ro_deny own, rw_own = None\<rparr> of
                   Inl e \<Rightarrow> Inl e | Inr rules \<Rightarrow> Inr (Some rules))) of
        Inl e \<Rightarrow> Inl e
      | Inr own \<Rightarrow>
          (case check_lists path ''smelt.tools'' raw of
             Inl e \<Rightarrow> Inl e
           | Inr rules \<Rightarrow> Inr (ToolRules (tr_class rules) (tr_allow rules) (tr_deny rules) own)))"

section \<open>Matching\<close>

datatype tool_ref = Native string | Mcp string string

fun tool_ref_name :: "tool_ref \<Rightarrow> string" where
  "tool_ref_name (Native name) = name"
| "tool_ref_name (Mcp server tool) = namespaced_tool_name server tool"

text \<open>\<open>str::is_char_boundary\<close>, which \<open>rest.get(cut..)\<close> asks.\<close>

definition char_boundary :: "string \<Rightarrow> nat \<Rightarrow> bool" where
  "char_boundary s i \<longleftrightarrow> i = 0 \<or> i = length s \<or> (i < length s \<and> \<not> is_continuation (s ! i))"

function glob :: "string \<Rightarrow> string \<Rightarrow> bool" where
  "glob p s =
     (case split_once ''*'' p of
        None \<Rightarrow> p = s
      | Some (head, tail) \<Rightarrow>
          (case strip_prefix head s of
             None \<Rightarrow> False
           | Some rest \<Rightarrow>
               list_ex (\<lambda>cut. char_boundary rest cut \<and> CHR ''/'' \<notin> set (take cut rest) \<and> glob tail (drop cut rest))
                 [0..<Suc (length rest)]))"
  by pat_completeness auto
termination
  by (relation "measure (\<lambda>(p, s). length p)") (auto dest!: split_once_parts)

declare glob.simps [simp del]

definition pattern_level :: "pattern \<Rightarrow> nat" where
  "pattern_level p =
     (if pt_server p \<noteq> None \<and> pt_tool p = ''*'' then 3 else if CHR ''*'' \<in> set (pt_tool p) then 2 else 1)"

fun pattern_matches :: "pattern \<Rightarrow> tool_ref \<Rightarrow> bool" where
  "pattern_matches p (Native name) = (pt_server p = None \<and> glob (pt_tool p) name)"
| "pattern_matches p (Mcp server tool) = (pt_server p = Some server \<and> glob (pt_tool p) tool)"

section \<open>Verdicts\<close>

datatype refusal =
    Denied_by_pattern string string
  | Denied_by_class string ceiling tool_class
  | Binds_only_here refusal

definition better :: "(nat \<times> pattern \<times> bool) option \<Rightarrow> pattern \<Rightarrow> bool \<Rightarrow> bool" where
  "better best p denies =
     (case best of
        None \<Rightarrow> True
      | Some (best_level, _, best_denies) \<Rightarrow>
          pattern_level p < best_level \<or> (pattern_level p = best_level \<and> denies \<and> \<not> best_denies))"

definition best_step ::
  "tool_ref \<Rightarrow> (nat \<times> pattern \<times> bool) option \<Rightarrow> pattern \<times> bool \<Rightarrow> (nat \<times> pattern \<times> bool) option" where
  "best_step tool best x =
     (let (p, denies) = x
      in if \<not> pattern_matches p tool then best
         else if better best p denies then Some (pattern_level p, p, denies) else best)"

definition rules_allow :: "tool_rules \<Rightarrow> tool_ref \<Rightarrow> tool_class \<Rightarrow> refusal + unit" where
  "rules_allow rules tool c =
     (case foldl (best_step tool) None
             (map (\<lambda>p. (p, False)) (tr_allow rules) @ map (\<lambda>p. (p, True)) (tr_deny rules)) of
        Some (_, p, True) \<Rightarrow> Inl (Denied_by_pattern (tool_ref_name tool) (pattern_to_string p))
      | Some (_, _, False) \<Rightarrow> Inr ()
      | None \<Rightarrow>
          if ceiling_allows (tr_class rules) c then Inr ()
          else Inl (Denied_by_class (tool_ref_name tool) (tr_class rules) c))"

type_synonym rule_chain = "tool_rules list"

fun chain_allows_at :: "rule_chain \<Rightarrow> tool_ref \<Rightarrow> tool_class \<Rightarrow> refusal + unit" where
  "chain_allows_at [] tool c = Inr ()"
| "chain_allows_at (entry # chain) tool c =
     (case rules_allow entry tool c of
        Inl why \<Rightarrow> Inl why
      | Inr _ \<Rightarrow>
          (case (case tr_own entry of
                   None \<Rightarrow> Inr ()
                 | Some own \<Rightarrow>
                     (case rules_allow own tool c of Inl why \<Rightarrow> Inl (Binds_only_here why) | Inr _ \<Rightarrow> Inr ())) of
             Inl why \<Rightarrow> Inl why
           | Inr _ \<Rightarrow> chain_allows_at chain tool c))"

definition chain_allows_any :: "rule_chain \<Rightarrow> tool_ref \<Rightarrow> tool_class list \<Rightarrow> bool" where
  "chain_allows_any chain tool classes = list_ex (\<lambda>c. chain_allows_at chain tool c = Inr ()) classes"

definition try_from_stored ::
  "(json \<Rightarrow> string + tool_rules list) \<Rightarrow> json option \<Rightarrow> string + rule_chain" where
  "try_from_stored read_entries stored =
     (case stored of
        None \<Rightarrow> Inr []
      | Some v \<Rightarrow> (case read_entries v of
            Inl e \<Rightarrow> Inl (''the stored rules won't read: '' @ e) | Inr entries \<Rightarrow> Inr entries))"

definition from_stored :: "(json \<Rightarrow> string + tool_rules list) \<Rightarrow> json option \<Rightarrow> rule_chain" where
  "from_stored read_entries stored =
     (case try_from_stored read_entries stored of Inl _ \<Rightarrow> [] | Inr chain \<Rightarrow> chain)"

definition for_child :: "json option \<Rightarrow> json option" where
  "for_child parent =
     map_option (\<lambda>chain. case chain of
         JArray entries \<Rightarrow> JArray (map (\<lambda>entry. case entry of
             JObject members \<Rightarrow> JObject (filter (\<lambda>(key, _). key \<noteq> ''own'') members)
           | other \<Rightarrow> other) entries)
       | other \<Rightarrow> other) parent"

section \<open>Patterns that rule nothing\<close>

definition unmatched_servers :: "tool_rules \<Rightarrow> string list \<Rightarrow> string list" where
  "unmatched_servers rules server_names =
     map pattern_to_string
       (filter (\<lambda>p. case pt_server p of None \<Rightarrow> False | Some server \<Rightarrow> server \<notin> set server_names)
         (tr_allow rules @ tr_deny rules
          @ (case tr_own rules of Some own \<Rightarrow> tr_allow own @ tr_deny own | None \<Rightarrow> [])))"

fun join_with :: "string \<Rightarrow> string list \<Rightarrow> string" where
  "join_with sep [] = []"
| "join_with sep [x] = x"
| "join_with sep (x # xs) = x @ sep @ join_with sep xs"

definition unmatched_note :: "string list \<Rightarrow> string option" where
  "unmatched_note patterns =
     (case patterns of
        [] \<Rightarrow> None
      | [p] \<Rightarrow> Some (''smelt.tools pattern `'' @ p
          @ ''` names no configured server, so it rules nothing (a renamed server leaves this behind)'')
      | _ \<Rightarrow> Some (''smelt.tools patterns '' @ join_with '', '' (map (\<lambda>p. ''`'' @ p @ ''`'') patterns)
          @ '' name no configured server, so they rule nothing (a renamed server leaves this behind)''))"

section \<open>What a wildcard matches\<close>

inductive glob_match :: "string \<Rightarrow> string \<Rightarrow> bool" where
  gm_end: "glob_match [] []"
| gm_char: "c \<noteq> CHR ''*'' \<Longrightarrow> glob_match p s \<Longrightarrow> glob_match (c # p) (c # s)"
| gm_star: "CHR ''/'' \<notin> set run \<Longrightarrow> run = [] \<or> s = [] \<or> \<not> is_continuation (hd s) \<Longrightarrow> glob_match p s \<Longrightarrow>
    glob_match (CHR ''*'' # p) (run @ s)"

inductive_simps glob_match_nil: "glob_match [] s"
inductive_simps glob_match_cons: "glob_match (c # p) s"

lemma glob_match_literal:
  "CHR ''*'' \<notin> set head \<Longrightarrow> glob_match (head @ q) s \<longleftrightarrow> (\<exists>r. s = head @ r \<and> glob_match q r)"
proof (induction head arbitrary: s)
  case Nil
  then show ?case by simp
next
  case (Cons c head)
  then show ?case by (auto simp: glob_match_cons)
qed

lemma glob_match_star:
  "glob_match (CHR ''*'' # p) s \<longleftrightarrow>
     (\<exists>cut \<le> length s. char_boundary s cut \<and> CHR ''/'' \<notin> set (take cut s) \<and> glob_match p (drop cut s))"
  (is "?match = ?cut")
proof
  assume ?match
  then obtain run r where r: "s = run @ r" "CHR ''/'' \<notin> set run" "run = [] \<or> r = [] \<or> \<not> is_continuation (hd r)"
    "glob_match p r"
    by (auto simp: glob_match_cons)
  then have "char_boundary s (length run)"
    by (cases r) (auto simp: char_boundary_def nth_append)
  with r show ?cut by (intro exI [of _ "length run"]) simp
next
  assume ?cut
  then obtain cut where cut: "cut \<le> length s" "char_boundary s cut" "CHR ''/'' \<notin> set (take cut s)"
    "glob_match p (drop cut s)" by blast
  have "glob_match (CHR ''*'' # p) (take cut s @ drop cut s)"
    using cut by (intro gm_star) (auto simp: char_boundary_def hd_drop_conv_nth)
  then show ?match by simp
qed

text \<open>
  (C8) A pattern's text matches a name exactly when the name is the pattern with each \<open>*\<close> replaced by a
  run of whole characters with no \<open>/\<close> in it.
\<close>

theorem glob_is_wildcard_match: "glob p s = glob_match p s"
proof (induction p s rule: glob.induct)
  case (1 p s)
  show ?case
  proof (cases "split_once ''*'' p")
    case None
    then have "CHR ''*'' \<notin> set p" by (simp add: split_once_char_None)
    from glob_match_literal [OF this, of "[]" s] None show ?thesis
      by (subst glob.simps) (auto simp: glob_match_nil)
  next
    case (Some x)
    obtain head tail where x: "x = (head, tail)" by fastforce
    have p: "p = head @ CHR ''*'' # tail" using split_once_parts [of "''*''" p head tail] Some x by simp
    have head: "CHR ''*'' \<notin> set head" using split_once_char_free Some x by metis
    show ?thesis
    proof (cases "strip_prefix head s")
      case None
      then have "\<not> (\<exists>r. s = head @ r)" by (metis strip_prefix_append option.distinct(1))
      with None Some x show ?thesis
        by (subst glob.simps) (simp add: p glob_match_literal [OF head])
    next
      case (Some rest)
      have s: "s = head @ rest" using Some by (simp add: strip_prefix_iff)
      have "glob p s \<longleftrightarrow> (\<exists>cut \<le> length rest. char_boundary rest cut \<and> CHR ''/'' \<notin> set (take cut rest)
          \<and> glob tail (drop cut rest))"
        using \<open>split_once ''*'' p = Some x\<close> x Some
        by (subst glob.simps) (auto simp: list_ex_iff less_Suc_eq_le simp del: upt_Suc)
      also have "\<dots> \<longleftrightarrow> (\<exists>cut \<le> length rest. char_boundary rest cut \<and> CHR ''/'' \<notin> set (take cut rest)
          \<and> glob_match tail (drop cut rest))"
        using 1 [OF \<open>split_once ''*'' p = Some x\<close> x [symmetric] Some] by (metis atLeastLessThan_iff le0 less_Suc_eq_le set_upt)
      also have "\<dots> \<longleftrightarrow> glob_match p s"
        by (simp add: p s glob_match_literal [OF head] glob_match_star)
      finally show ?thesis .
    qed
  qed
qed

section \<open>The most specific pattern decides\<close>

definition levels :: "pattern list \<Rightarrow> tool_ref \<Rightarrow> nat set" where
  "levels ps tool = {pattern_level p | p. p \<in> set ps \<and> pattern_matches p tool}"

text \<open>The levels of what the loop has seen, and what its \<open>best\<close> says of them.\<close>

definition seen_levels :: "tool_ref \<Rightarrow> bool \<Rightarrow> (pattern \<times> bool) list \<Rightarrow> nat set" where
  "seen_levels tool denies xs = {pattern_level p | p. (p, denies) \<in> set xs \<and> pattern_matches p tool}"

lemma seen_levels_snoc:
  "seen_levels tool b (xs @ [(p, d)]) =
     (if pattern_matches p tool \<and> d = b then insert (pattern_level p) (seen_levels tool b xs)
      else seen_levels tool b xs)"
  by (auto simp: seen_levels_def)

lemma seen_levels_finite [simp]: "finite (seen_levels tool b xs)"
proof -
  have "seen_levels tool b xs \<subseteq> (\<lambda>(p, d). pattern_level p) ` set xs" by (force simp: seen_levels_def)
  then show ?thesis by (rule finite_subset) simp
qed

definition best_ok :: "tool_ref \<Rightarrow> (pattern \<times> bool) list \<Rightarrow> (nat \<times> pattern \<times> bool) option \<Rightarrow> bool" where
  "best_ok tool xs best =
     (let allow = seen_levels tool False xs; deny = seen_levels tool True xs
      in case best of
           None \<Rightarrow> allow = {} \<and> deny = {}
         | Some (l, p, d) \<Rightarrow>
             l \<in> (if d then deny else allow) \<and> (\<forall>k \<in> allow \<union> deny. l \<le> k) \<and> (\<not> d \<longrightarrow> l \<notin> deny))"

lemma best_ok_step:
  assumes "best_ok tool xs best"
  shows "best_ok tool (xs @ [(p, d)]) (best_step tool best (p, d))"
proof (cases best)
  case None
  with assms show ?thesis
    by (cases d) (auto simp: best_ok_def best_step_def better_def seen_levels_snoc Let_def)
next
  case (Some b)
  obtain l q e where b: "b = (l, q, e)" by (cases b)
  show ?thesis
    using assms unfolding Some b
    by (cases d; cases e)
      (auto simp: best_ok_def best_step_def better_def seen_levels_snoc Let_def ball_Un
        dest: less_imp_le order_less_le_trans)
qed

lemma best_ok_foldl: "best_ok tool xs (foldl (best_step tool) None xs)"
proof (induction xs rule: rev_induct)
  case Nil
  show ?case by (simp add: best_ok_def seen_levels_def)
next
  case (snoc x xs)
  then show ?case using best_ok_step [of tool xs _ "fst x" "snd x"] by simp
qed

text \<open>
  (C7) One block's verdict: with no pattern matching the tool, the class ceiling decides; otherwise the
  patterns at the most specific level matching it do, and there a deny wins over an allow.
\<close>

theorem most_specific_pattern_decides:
  "(rules_allow rules tool c = Inr ()) =
     (if levels (tr_allow rules) tool \<union> levels (tr_deny rules) tool = {} then ceiling_allows (tr_class rules) c
      else Min (levels (tr_allow rules) tool \<union> levels (tr_deny rules) tool) \<notin> levels (tr_deny rules) tool)"
proof -
  let ?xs = "map (\<lambda>p. (p, False)) (tr_allow rules) @ map (\<lambda>p. (p, True)) (tr_deny rules)"
  let ?A = "levels (tr_allow rules) tool" and ?D = "levels (tr_deny rules) tool"
  have seen: "seen_levels tool False ?xs = ?A" "seen_levels tool True ?xs = ?D"
    by (auto simp: seen_levels_def levels_def)
  have fin: "finite ?A" "finite ?D"
    using seen_levels_finite [of tool False ?xs] seen_levels_finite [of tool True ?xs] by (simp_all add: seen)
  have best: "best_ok tool ?xs (foldl (best_step tool) None ?xs)" by (rule best_ok_foldl)
  show ?thesis
  proof (cases "foldl (best_step tool) None ?xs")
    case None
    with best show ?thesis by (simp add: best_ok_def seen rules_allow_def Let_def)
  next
    case (Some b)
    obtain l q d where b: "b = (l, q, d)" by (cases b)
    from best Some b have l: "l \<in> (if d then ?D else ?A)" "\<forall>k \<in> ?A \<union> ?D. l \<le> k" "\<not> d \<longrightarrow> l \<notin> ?D"
      by (simp_all add: best_ok_def seen Let_def)
    have "Min (?A \<union> ?D) = l" using l(1,2) fin by (intro Min_eqI) (auto split: if_splits)
    with Some b l show ?thesis by (cases d) (auto simp: rules_allow_def)
  qed
qed

section \<open>Chains\<close>

definition entry_allows :: "tool_rules \<Rightarrow> tool_ref \<Rightarrow> tool_class \<Rightarrow> bool" where
  "entry_allows entry tool c \<longleftrightarrow>
     rules_allow entry tool c = Inr () \<and> (\<forall>own. tr_own entry = Some own \<longrightarrow> rules_allow own tool c = Inr ())"

lemma chain_allows_iff:
  "chain_allows_at chain tool c = Inr () \<longleftrightarrow> (\<forall>entry \<in> set chain. entry_allows entry tool c)"
  by (induction chain) (auto simp: entry_allows_def split: sum.split option.split)

lemma ceiling_mono: "ceiling_allows k c \<Longrightarrow> c' \<le> c \<Longrightarrow> ceiling_allows k c'"
  by (cases k; cases c; cases c') (simp_all add: less_eq_tool_class_def)

lemma rules_allow_mono: "rules_allow r tool c = Inr () \<Longrightarrow> c' \<le> c \<Longrightarrow> rules_allow r tool c' = Inr ()"
  by (auto simp: rules_allow_def ceiling_mono split: option.splits bool.splits if_splits)

lemma entry_allows_mono: "entry_allows r tool c \<Longrightarrow> c' \<le> c \<Longrightarrow> entry_allows r tool c'"
  by (auto simp: entry_allows_def rules_allow_mono)

text \<open>
  A chain only ever narrows: adding a persona's entry allows a call exactly when the chain before it
  did and the entry and its own rules do too; and a tool is offered (at some class its calls can have)
  exactly when its least reaching call is allowed.
\<close>

theorem chains_only_narrow:
  assumes "classes \<noteq> []"
  shows "(chain_allows_at (chain @ [entry]) tool c = Inr ()) =
      (chain_allows_at chain tool c = Inr () \<and> entry_allows entry tool c)
    \<and> chain_allows_any chain tool classes = (chain_allows_at chain tool (Min (set classes)) = Inr ())"
proof -
  have "Min (set classes) \<in> set classes" using assms by simp
  moreover have "Min (set classes) \<le> k" if "k \<in> set classes" for k using that by simp
  ultimately have "chain_allows_any chain tool classes = (chain_allows_at chain tool (Min (set classes)) = Inr ())"
    unfolding chain_allows_any_def list_ex_iff chain_allows_iff by (blast intro: entry_allows_mono)
  then show ?thesis by (auto simp: chain_allows_iff)
qed

theorem chains_only_narrow_witness:
  "chain_allows_any [ToolRules C_NoDestructive [] [] None] (Native ''http_request'') [ReadOnly, Destructive]
   = (chain_allows_at [ToolRules C_NoDestructive [] [] None] (Native ''http_request'')
        (Min (set [ReadOnly, Destructive])) = Inr ())"
  using chains_only_narrow [of "[ReadOnly, Destructive]" "[ToolRules C_NoDestructive [] [] None]"] by blast

section \<open>Checked rules\<close>

definition pattern_ok :: "pattern \<Rightarrow> bool" where
  "pattern_ok p \<longleftrightarrow>
     pt_tool p \<noteq> [] \<and> CHR ''/'' \<notin> set (pt_tool p)
   \<and> (\<forall>server. pt_server p = Some server \<longrightarrow>
        server \<noteq> [] \<and> CHR ''/'' \<notin> set server \<and> CHR ''*'' \<notin> set server)"

lemma parse_pattern_ok:
  assumes "parse_pattern path block s = Inr p"
  shows "pattern_ok p \<and> pattern_to_string p = s"
proof (cases "split_once ''/'' s")
  case None
  then have "CHR ''/'' \<notin> set s" by (simp add: split_once_char_None)
  with assms None show ?thesis
    by (auto simp: parse_pattern_def pattern_ok_def pattern_to_string_def split: if_splits)
next
  case (Some x)
  obtain server tool where x: "x = (server, tool)" by fastforce
  from Some x have "s = server @ ''/'' @ tool" by (auto dest: split_once_parts)
  with assms Some x show ?thesis
    by (auto simp: parse_pattern_def pattern_ok_def pattern_to_string_def split: if_splits)
qed

lemma pattern_round_trip: "pattern_ok p \<Longrightarrow> pattern_from_string (pattern_to_string p) = p"
  using split_once_char_None [of "CHR ''/''" "pt_tool p"]
  by (cases p) (auto simp: pattern_ok_def pattern_to_string_def pattern_from_string_def split_once_char
      split: option.split)

lemma collect_Inr:
  "collect f xs = Inr ys \<Longrightarrow> list_all2 (\<lambda>x y. f x = Inr y) xs ys"
  by (induction xs arbitrary: ys) (auto split: sum.splits)

lemma collected_patterns:
  assumes "collect (parse_pattern path block) xs = Inr ps"
  shows "list_all pattern_ok ps \<and> map pattern_to_string ps = xs"
  using collect_Inr [OF assms]
  by (induction rule: list_all2_induct) (auto dest: parse_pattern_ok)

lemma check_lists_ok:
  assumes "check_lists path block raw = Inr rules"
  shows "list_all pattern_ok (tr_allow rules @ tr_deny rules)
    \<and> map pattern_to_string (tr_allow rules) = rw_allow raw
    \<and> map pattern_to_string (tr_deny rules) = rw_deny raw
    \<and> set (rw_allow raw) \<inter> set (rw_deny raw) = {} \<and> tr_class rules = rw_class raw"
  using assms
  by (auto simp: check_lists_def find_None_iff split: sum.splits option.splits dest!: collected_patterns)

text \<open>
  (C16) Rules that pass the check mean what the file says: every pattern has the grammar's shape (one
  \<open>/\<close> at most, a named server with no wildcard, no empty part), prints as it was written and is read
  back from storage as itself, and none is in both lists; the same for the \<open>own\<close> block.
\<close>

theorem checked_rules_read_back:
  assumes "check_rules path raw = Inr rules"
  shows "map pattern_to_string (tr_allow rules) = rw_allow raw
    \<and> map pattern_to_string (tr_deny rules) = rw_deny raw
    \<and> set (rw_allow raw) \<inter> set (rw_deny raw) = {}
    \<and> list_all (\<lambda>p. pattern_ok p \<and> pattern_from_string (pattern_to_string p) = p)
        (tr_allow rules @ tr_deny rules)
    \<and> (case (rw_own raw, tr_own rules) of
         (None, None) \<Rightarrow> True
       | (Some own, Some r) \<Rightarrow>
           map pattern_to_string (tr_allow r) = ro_allow own \<and> map pattern_to_string (tr_deny r) = ro_deny own
         \<and> list_all pattern_ok (tr_allow r @ tr_deny r) \<and> tr_own r = None
       | _ \<Rightarrow> False)"
proof -
  obtain main where main: "check_lists path ''smelt.tools'' raw = Inr main"
    "tr_allow rules = tr_allow main" "tr_deny rules = tr_deny main"
    using assms by (auto simp: check_rules_def split: sum.splits)
  have own: "case (rw_own raw, tr_own rules) of
         (None, None) \<Rightarrow> True
       | (Some own, Some r) \<Rightarrow>
           map pattern_to_string (tr_allow r) = ro_allow own \<and> map pattern_to_string (tr_deny r) = ro_deny own
         \<and> list_all pattern_ok (tr_allow r @ tr_deny r) \<and> tr_own r = None
       | _ \<Rightarrow> False"
  proof (cases "rw_own raw")
    case None
    with assms show ?thesis by (auto simp: check_rules_def split: sum.splits)
  next
    case (Some own)
    with assms obtain r where r: "tr_own rules = Some r" "check_lists path ''smelt.tools.own''
        \<lparr>rw_class = ro_class own, rw_allow = ro_allow own, rw_deny = ro_deny own, rw_own = None\<rparr> = Inr r"
      by (auto simp: check_rules_def split: sum.splits)
    have "tr_own r = None" using r(2) by (auto simp: check_lists_def split: sum.splits option.splits)
    with Some r check_lists_ok [OF r(2)] show ?thesis by simp
  qed
  with check_lists_ok [OF main(1)] main(2,3) show ?thesis
    by (auto simp: list_all_iff pattern_round_trip)
qed

theorem checked_rules_read_back_witness:
  "\<exists>rules. check_rules ''p.md'' \<lparr>rw_class = C_ReadOnly, rw_allow = [''github/get_*''], rw_deny = [''write_file''],
      rw_own = None\<rparr> = Inr rules
    \<and> map pattern_to_string (tr_allow rules) = [''github/get_*'']"
proof -
  let ?raw = "\<lparr>rw_class = C_ReadOnly, rw_allow = [''github/get_*''], rw_deny = [''write_file''], rw_own = None\<rparr>"
  obtain rules where "check_rules ''p.md'' ?raw = Inr rules"
    by (simp add: check_rules_def check_lists_def parse_pattern_def)
  with checked_rules_read_back [OF this] show ?thesis by auto
qed

end
