(* ===== verification/Stream_Blocks.thy ===== *)
theory Stream_Blocks
  imports Tool_Names "HOL-Library.Product_Lexorder"
begin

text \<open>
  A streamed reply's bytes and blocks: \<open>src/anthropic/stream/lines.rs\<close> (\<open>LineBuffer\<close>) and the \<open>Blocks\<close> of
  \<open>src/anthropic/stream.rs\<close>, which assemble a reply's content by block index.

  \<open>String::from_utf8_lossy\<close> is left out: a line is its bytes, which are what it decodes. serde_json's
  parser is a parameter (\<open>parse_json\<close>: the value, or its error's text). A \<open>BTreeMap\<close> is its list of
  entries in key order.
\<close>

section \<open>Whole lines of a chunked body\<close>

record line_buffer =
  lb_bytes :: bytes
  lb_scanned :: nat

definition empty_buffer :: line_buffer where
  "empty_buffer = \<lparr>lb_bytes = [], lb_scanned = 0\<rparr>"

definition lb_push :: "bytes \<Rightarrow> line_buffer \<Rightarrow> line_buffer" where
  "lb_push chunk b = b\<lparr>lb_bytes := lb_bytes b @ chunk\<rparr>"

definition newline :: char where
  "newline = CHR 0x0A"

fun position :: "('a \<Rightarrow> bool) \<Rightarrow> 'a list \<Rightarrow> nat option" where
  "position P [] = None"
| "position P (x # xs) = (if P x then Some 0 else map_option Suc (position P xs))"

definition next_line :: "line_buffer \<Rightarrow> bytes option \<times> line_buffer" where
  "next_line b =
     (case position (\<lambda>c. c = newline) (drop (lb_scanned b) (lb_bytes b)) of
        None \<Rightarrow> (None, b\<lparr>lb_scanned := length (lb_bytes b)\<rparr>)
      | Some off \<Rightarrow>
          (let e = lb_scanned b + off
           in (Some (take e (lb_bytes b)), \<lparr>lb_bytes = drop (Suc e) (lb_bytes b), lb_scanned = 0\<rparr>)))"

lemma position_Some:
  "position P xs = Some i \<Longrightarrow> i < length xs \<and> P (xs ! i) \<and> (\<forall>x \<in> set (take i xs). \<not> P x)"
  by (induction xs arbitrary: i) (auto split: if_splits)

lemma position_None: "position P xs = None \<longleftrightarrow> (\<forall>x \<in> set xs. \<not> P x)"
  by (induction xs) auto

lemma next_line_shrinks: "next_line b = (Some line, b') \<Longrightarrow> length (lb_bytes b') < length (lb_bytes b)"
  by (auto simp: next_line_def Let_def split: option.splits dest: position_Some)

text \<open>The \<open>while let Some(line) = lines.next_line()\<close> of the stream loop.\<close>

function drain_lines :: "line_buffer \<Rightarrow> bytes list \<times> line_buffer" where
  "drain_lines b =
     (case next_line b of
        (None, b') \<Rightarrow> ([], b')
      | (Some line, b') \<Rightarrow> (let (ls, b'') = drain_lines b' in (line # ls, b'')))"
  by pat_completeness auto
termination
  by (relation "measure (\<lambda>b. length (lb_bytes b))") (auto dest: next_line_shrinks [OF sym])

declare drain_lines.simps [simp del]

fun feed_chunks :: "bytes list \<Rightarrow> line_buffer \<Rightarrow> bytes list \<times> line_buffer" where
  "feed_chunks [] b = ([], b)"
| "feed_chunks (chunk # chunks) b =
     (let (ls, b') = drain_lines (lb_push chunk b); (ms, b'') = feed_chunks chunks b'
      in (ls @ ms, b''))"

text \<open>A body's whole lines and what follows the last newline.\<close>

function body_lines :: "bytes \<Rightarrow> bytes list \<times> bytes" where
  "body_lines s =
     (case split_once [newline] s of
        None \<Rightarrow> ([], s)
      | Some (line, rest) \<Rightarrow> (let (ls, r) = body_lines rest in (line # ls, r)))"
  by pat_completeness auto
termination
  by (relation "measure length") (auto dest!: split_once_parts)

declare body_lines.simps [simp del]

definition buffer_ok :: "line_buffer \<Rightarrow> bool" where
  "buffer_ok b \<longleftrightarrow> lb_scanned b \<le> length (lb_bytes b) \<and> newline \<notin> set (take (lb_scanned b) (lb_bytes b))"

lemma buffer_ok_push: "buffer_ok b \<Longrightarrow> buffer_ok (lb_push chunk b)"
  by (simp add: buffer_ok_def lb_push_def)

lemma next_line_None:
  assumes "buffer_ok b" and "next_line b = (None, b')"
  shows "newline \<notin> set (lb_bytes b)" and "lb_bytes b' = lb_bytes b" and "buffer_ok b'"
proof -
  have "newline \<notin> set (drop (lb_scanned b) (lb_bytes b))"
    using assms(2) by (auto simp: next_line_def Let_def position_None split: option.splits)
  moreover have "newline \<notin> set (take (lb_scanned b) (lb_bytes b))" using assms(1) by (simp add: buffer_ok_def)
  ultimately show free: "newline \<notin> set (lb_bytes b)" by (metis append_take_drop_id Un_iff set_append)
  show "lb_bytes b' = lb_bytes b" "buffer_ok b'"
    using assms(2) free by (auto simp: next_line_def Let_def buffer_ok_def split: option.splits)
qed

lemma next_line_Some:
  assumes "buffer_ok b" and "next_line b = (Some line, b')"
  shows "lb_bytes b = line @ newline # lb_bytes b'" and "newline \<notin> set line" and "buffer_ok b'"
proof -
  obtain off where off: "position (\<lambda>c. c = newline) (drop (lb_scanned b) (lb_bytes b)) = Some off"
    using assms(2) by (auto simp: next_line_def Let_def split: option.splits)
  let ?e = "lb_scanned b + off"
  from assms(2) off have line: "line = take ?e (lb_bytes b)"
    "b' = \<lparr>lb_bytes = drop (Suc ?e) (lb_bytes b), lb_scanned = 0\<rparr>"
    by (simp_all add: next_line_def Let_def)
  from position_Some [OF off] have at: "?e < length (lb_bytes b)" "lb_bytes b ! ?e = newline"
    "newline \<notin> set (take off (drop (lb_scanned b) (lb_bytes b)))"
    by (auto simp: add.commute)
  show "lb_bytes b = line @ newline # lb_bytes b'"
    using id_take_nth_drop [OF at(1)] at(2) line by simp
  show "newline \<notin> set line"
    using at(3) assms(1) by (simp add: line take_add buffer_ok_def)
  show "buffer_ok b'" by (simp add: line buffer_ok_def)
qed

lemma body_lines_cons: "newline \<notin> set line \<Longrightarrow>
    body_lines (line @ newline # rest) = (line # fst (body_lines rest), snd (body_lines rest))"
  by (subst body_lines.simps) (simp add: split_once_char case_prod_unfold Let_def)

lemma body_lines_rest: "newline \<notin> set s \<Longrightarrow> body_lines s = ([], s)"
  using split_once_char_None [of newline s] by (subst body_lines.simps) simp

lemma drain_lines_spec:
  "buffer_ok b \<Longrightarrow>
     fst (drain_lines b) = fst (body_lines (lb_bytes b))
   \<and> lb_bytes (snd (drain_lines b)) = snd (body_lines (lb_bytes b)) \<and> buffer_ok (snd (drain_lines b))"
proof (induction b rule: drain_lines.induct)
  case (1 b)
  obtain x b' where n: "next_line b = (x, b')" by fastforce
  show ?case
  proof (cases x)
    case None
    with n next_line_None [OF 1(2), of b'] show ?thesis
      by (subst (1 2 3) drain_lines.simps) (simp add: body_lines_rest)
  next
    case (Some line)
    note l = next_line_Some [OF 1(2), of line b']
    from 1(1) [OF n [symmetric] Some] l n Some show ?thesis
      by (subst (1 2 3) drain_lines.simps) (simp add: body_lines_cons case_prod_unfold Let_def)
  qed
qed

lemma body_lines_append:
  "fst (body_lines (s @ t)) = fst (body_lines s) @ fst (body_lines (snd (body_lines s) @ t))
   \<and> snd (body_lines (s @ t)) = snd (body_lines (snd (body_lines s) @ t))"
proof (induction s rule: body_lines.induct)
  case (1 s)
  show ?case
  proof (cases "split_once [newline] s")
    case None
    then show ?thesis by (simp add: split_once_char_None body_lines_rest)
  next
    case (Some x)
    obtain line rest where x: "x = (line, rest)" by fastforce
    have s: "s = line @ newline # rest" "newline \<notin> set line"
      using Some x split_once_parts [of "[newline]" s line rest] split_once_char_free [of newline s line rest] by auto
    from 1 [OF Some x [symmetric]] show ?thesis by (simp add: s body_lines_cons)
  qed
qed

lemma body_lines_free: "newline \<notin> set (snd (body_lines s))"
proof (induction s rule: body_lines.induct)
  case (1 s)
  show ?case
  proof (cases "split_once [newline] s")
    case None
    then show ?thesis by (simp add: split_once_char_None body_lines_rest)
  next
    case (Some x)
    with 1 [OF Some, of "fst x" "snd x"] show ?thesis
      by (subst body_lines.simps) (simp add: case_prod_unfold Let_def)
  qed
qed

lemma fed_lines:
  "fst (feed_chunks chunks empty_buffer) = fst (body_lines (concat chunks))
   \<and> lb_bytes (snd (feed_chunks chunks empty_buffer)) = snd (body_lines (concat chunks))"
proof -
  have "buffer_ok b \<Longrightarrow> newline \<notin> set (lb_bytes b) \<Longrightarrow>
      fst (feed_chunks chunks b) = fst (body_lines (lb_bytes b @ concat chunks))
    \<and> lb_bytes (snd (feed_chunks chunks b)) = snd (body_lines (lb_bytes b @ concat chunks))" for b
  proof (induction chunks arbitrary: b)
    case Nil
    then show ?case by (simp add: body_lines_rest)
  next
    case (Cons chunk chunks)
    let ?d = "drain_lines (lb_push chunk b)"
    have d: "fst ?d = fst (body_lines (lb_bytes b @ chunk))"
      "lb_bytes (snd ?d) = snd (body_lines (lb_bytes b @ chunk))" "buffer_ok (snd ?d)"
      using drain_lines_spec [OF buffer_ok_push [OF Cons.prems(1), of chunk]] by (simp_all add: lb_push_def)
    with Cons.IH [of "snd ?d"] body_lines_free body_lines_append [of "lb_bytes b @ chunk" "concat chunks"] show ?case
      by (simp add: case_prod_unfold Let_def)
  qed
  from this [of empty_buffer] show ?thesis by (simp add: empty_buffer_def buffer_ok_def)
qed

text \<open>
  However a body is split into chunks, the lines handed out are its lines: those of the whole body
  up to its last newline, each once and whole, and what follows waits in the buffer.
\<close>

theorem lines_do_not_depend_on_chunks:
  "fst (feed_chunks chunks empty_buffer) = fst (body_lines (concat chunks))
   \<and> lb_bytes (snd (feed_chunks chunks empty_buffer)) = snd (body_lines (concat chunks))"
  by (rule fed_lines)

section \<open>Blocks by index\<close>

datatype content_block =
    Text string
  | ToolUse string string json
  | ToolResult string string "bool option"
  | Thinking string string
  | CompactionSummary string int "string option"
  | CompactionPlaceholder string

datatype partial_block =
    P_Text string
  | P_ToolUse string string string
  | P_Thinking string string

datatype finished = Finished_block content_block | Unparsed_call string string

fun finished_tool_name :: "finished \<Rightarrow> string option" where
  "finished_tool_name (Finished_block (ToolUse _ name _)) = Some name"
| "finished_tool_name (Unparsed_call name _) = Some name"
| "finished_tool_name (Finished_block _) = None"

fun finalize :: "(string \<Rightarrow> string + json) \<Rightarrow> partial_block \<Rightarrow> finished" where
  "finalize parse_json (P_Text t) = Finished_block (Text t)"
| "finalize parse_json (P_ToolUse i name partial_json) =
     (if partial_json = [] then Finished_block (ToolUse i name (JObject []))
      else case parse_json partial_json of
             Inr input \<Rightarrow> Finished_block (ToolUse i name input)
           | Inl e \<Rightarrow> Unparsed_call name (''failed to parse tool_use input JSON for '' @ name @ '': '' @ e))"
| "finalize parse_json (P_Thinking thinking signature) = Finished_block (Thinking thinking signature)"

definition is_plain_tool_name :: "string \<Rightarrow> bool" where
  "is_plain_tool_name name \<longleftrightarrow>
     1 \<le> length name \<and> length name \<le> 128
   \<and> list_all (\<lambda>b. is_ascii_alphanumeric b \<or> b = CHR ''_'' \<or> b = CHR ''-'' \<or> b = CHR ''.'') name"

definition is_cut_off :: "string \<Rightarrow> bool" where
  "is_cut_off stop_reason \<longleftrightarrow> stop_reason \<in> {''max_tokens'', ''model_context_window_exceeded''}"

definition stopped_early :: "string \<Rightarrow> bool" where
  "stopped_early stop_reason \<longleftrightarrow> is_cut_off stop_reason \<or> stop_reason = ''refusal''"

text \<open>\<open>BTreeMap::insert\<close> on the list of entries.\<close>

fun bt_insert :: "'k::linorder \<Rightarrow> 'v \<Rightarrow> ('k \<times> 'v) list \<Rightarrow> ('k \<times> 'v) list" where
  "bt_insert k v [] = [(k, v)]"
| "bt_insert k v ((j, w) # es) =
     (if k < j then (k, v) # (j, w) # es else if k = j then (k, v) # es else (j, w) # bt_insert k v es)"

definition bt_remove :: "'k \<Rightarrow> ('k \<times> 'v) list \<Rightarrow> ('k \<times> 'v) list" where
  "bt_remove k es = filter (\<lambda>(j, _). j \<noteq> k) es"

record blocks =
  bl_open :: "(nat \<times> partial_block) list"
  bl_done :: "((nat \<times> nat) \<times> finished) list"
  bl_last :: "nat option"

definition no_blocks :: blocks where
  "no_blocks = \<lparr>bl_open = [], bl_done = [], bl_last = None\<rparr>"

definition open_at :: "nat option \<Rightarrow> blocks \<Rightarrow> (nat \<times> partial_block) option" where
  "open_at index b =
     (case (case index of Some i \<Rightarrow> Some i | None \<Rightarrow> bl_last b) of
        None \<Rightarrow> None | Some i \<Rightarrow> map_option (\<lambda>p. (i, p)) (map_of (bl_open b) i))"

definition blocks_stop :: "(string \<Rightarrow> string + json) \<Rightarrow> nat option \<Rightarrow> blocks \<Rightarrow> blocks" where
  "blocks_stop parse_json index b =
     (case open_at index b of
        None \<Rightarrow> b
      | Some (i, p) \<Rightarrow>
          b\<lparr>bl_open := bt_remove i (bl_open b),
            bl_done := bt_insert (i, length (bl_done b)) (finalize parse_json p) (bl_done b)\<rparr>)"

definition next_index :: "blocks \<Rightarrow> nat" where
  "next_index b =
     (let seen = map fst (bl_open b) @ map (fst \<circ> fst) (bl_done b)
      in if seen = [] then 0 else Suc (Max (set seen)))"

definition blocks_start :: "(string \<Rightarrow> string + json) \<Rightarrow> nat option \<Rightarrow> partial_block \<Rightarrow> blocks \<Rightarrow> blocks" where
  "blocks_start parse_json index block b =
     (let i = (case index of Some i \<Rightarrow> i | None \<Rightarrow> next_index b)
      in case (map_of (bl_open b) i, block) of
           (Some (P_ToolUse call name input), P_ToolUse new_call new_name _) \<Rightarrow>
             if call = new_call
             then b\<lparr>bl_open := bt_insert i (P_ToolUse call new_name input) (bl_open b), bl_last := Some i\<rparr>
             else (let b' = blocks_stop parse_json (Some i) b
                   in b'\<lparr>bl_open := bt_insert i block (bl_open b'), bl_last := Some i\<rparr>)
         | _ \<Rightarrow>
             (let b' = blocks_stop parse_json (Some i) b
              in b'\<lparr>bl_open := bt_insert i block (bl_open b'), bl_last := Some i\<rparr>))"

definition blocks_text :: "(string \<Rightarrow> string + json) \<Rightarrow> nat option \<Rightarrow> string \<Rightarrow> blocks \<Rightarrow> blocks" where
  "blocks_text parse_json index t b =
     (case open_at index b of
        Some (i, P_Text existing) \<Rightarrow> b\<lparr>bl_open := bt_insert i (P_Text (existing @ t)) (bl_open b)\<rparr>
      | _ \<Rightarrow> blocks_start parse_json index (P_Text t) b)"

definition blocks_thinking :: "(string \<Rightarrow> string + json) \<Rightarrow> nat option \<Rightarrow> string \<Rightarrow> blocks \<Rightarrow> blocks" where
  "blocks_thinking parse_json index t b =
     (case open_at index b of
        Some (i, P_Thinking existing signature) \<Rightarrow>
          b\<lparr>bl_open := bt_insert i (P_Thinking (existing @ t) signature) (bl_open b)\<rparr>
      | _ \<Rightarrow> blocks_start parse_json index (P_Thinking t []) b)"

definition blocks_signature :: "nat option \<Rightarrow> string \<Rightarrow> blocks \<Rightarrow> blocks" where
  "blocks_signature index s b =
     (case open_at index b of
        Some (i, P_Thinking t existing) \<Rightarrow> b\<lparr>bl_open := bt_insert i (P_Thinking t (existing @ s)) (bl_open b)\<rparr>
      | _ \<Rightarrow> b)"

definition blocks_tool_input :: "nat option \<Rightarrow> string \<Rightarrow> blocks \<Rightarrow> blocks" where
  "blocks_tool_input index s b =
     (case open_at index b of
        Some (i, P_ToolUse call name existing) \<Rightarrow>
          b\<lparr>bl_open := bt_insert i (P_ToolUse call name (existing @ s)) (bl_open b)\<rparr>
      | _ \<Rightarrow> b)"

text \<open>\<open>Blocks::finish\<close>: its loop stops the first open block until there is none.\<close>

definition close_all :: "(string \<Rightarrow> string + json) \<Rightarrow> blocks \<Rightarrow> blocks" where
  "close_all parse_json b = foldl (\<lambda>b i. blocks_stop parse_json (Some i) b) b (map fst (bl_open b))"

fun block_results :: "finished list \<Rightarrow> string + content_block list" where
  "block_results [] = Inr []"
| "block_results (Unparsed_call _ e # fs) = Inl e"
| "block_results (Finished_block c # fs) =
     (case block_results fs of Inl e \<Rightarrow> Inl e | Inr cs \<Rightarrow> Inr (c # cs))"

definition blocks_finish ::
  "(string \<Rightarrow> string + json) \<Rightarrow> string \<Rightarrow> blocks \<Rightarrow> string + (content_block list \<times> string option)" where
  "blocks_finish parse_json stop_reason b =
     (let all_done = map snd (bl_done (close_all parse_json b));
          (kept, cut_off_call) =
            (if stopped_early stop_reason \<and> all_done \<noteq> [] then
               (case finished_tool_name (last all_done) of
                  Some name \<Rightarrow> (butlast all_done, if is_plain_tool_name name then Some name else None)
                | None \<Rightarrow> (all_done, None))
             else (all_done, None))
      in case block_results kept of Inl e \<Rightarrow> Inl e | Inr content \<Rightarrow> Inr (content, cut_off_call))"

section \<open>One index at a time\<close>

text \<open>
  The specification: each index keeps the block open there and those finished there, and an event at it
  changes nothing else.
\<close>

datatype block_event =
    E_start partial_block
  | E_text string
  | E_thinking string
  | E_signature string
  | E_input string
  | E_stop

fun run_event :: "(string \<Rightarrow> string + json) \<Rightarrow> blocks \<Rightarrow> nat option \<times> block_event \<Rightarrow> blocks" where
  "run_event parse_json b (i, E_start p) = blocks_start parse_json i p b"
| "run_event parse_json b (i, E_text t) = blocks_text parse_json i t b"
| "run_event parse_json b (i, E_thinking t) = blocks_thinking parse_json i t b"
| "run_event parse_json b (i, E_signature s) = blocks_signature i s b"
| "run_event parse_json b (i, E_input s) = blocks_tool_input i s b"
| "run_event parse_json b (i, E_stop) = blocks_stop parse_json i b"

type_synonym slot = "partial_block option \<times> finished list"

definition slot_stop :: "(string \<Rightarrow> string + json) \<Rightarrow> slot \<Rightarrow> slot" where
  "slot_stop parse_json s =
     (None, snd s @ (case fst s of Some p \<Rightarrow> [finalize parse_json p] | None \<Rightarrow> []))"

definition slot_start :: "(string \<Rightarrow> string + json) \<Rightarrow> partial_block \<Rightarrow> slot \<Rightarrow> slot" where
  "slot_start parse_json block s =
     (case (fst s, block) of
        (Some (P_ToolUse call name input), P_ToolUse new_call new_name _) \<Rightarrow>
          if call = new_call then (Some (P_ToolUse call new_name input), snd s)
          else (Some block, snd (slot_stop parse_json s))
      | _ \<Rightarrow> (Some block, snd (slot_stop parse_json s)))"

fun slot_event :: "(string \<Rightarrow> string + json) \<Rightarrow> slot \<Rightarrow> block_event \<Rightarrow> slot" where
  "slot_event parse_json s (E_start p) = slot_start parse_json p s"
| "slot_event parse_json s (E_text t) =
     (case fst s of Some (P_Text e) \<Rightarrow> (Some (P_Text (e @ t)), snd s) | _ \<Rightarrow> slot_start parse_json (P_Text t) s)"
| "slot_event parse_json s (E_thinking t) =
     (case fst s of Some (P_Thinking e g) \<Rightarrow> (Some (P_Thinking (e @ t) g), snd s)
      | _ \<Rightarrow> slot_start parse_json (P_Thinking t []) s)"
| "slot_event parse_json s (E_signature g) =
     (case fst s of Some (P_Thinking t e) \<Rightarrow> (Some (P_Thinking t (e @ g)), snd s) | _ \<Rightarrow> s)"
| "slot_event parse_json s (E_input x) =
     (case fst s of Some (P_ToolUse c n e) \<Rightarrow> (Some (P_ToolUse c n (e @ x)), snd s) | _ \<Rightarrow> s)"
| "slot_event parse_json s E_stop = slot_stop parse_json s"

text \<open>What an index's own events leave it with, once it is closed.\<close>

definition index_blocks :: "(string \<Rightarrow> string + json) \<Rightarrow> block_event list \<Rightarrow> finished list" where
  "index_blocks parse_json es = snd (slot_stop parse_json (foldl (slot_event parse_json) (None, []) es))"

section \<open>The blocks refine their indices\<close>

lemma map_of_bt_insert [simp]: "map_of (bt_insert k v es) i = (if i = k then Some v else map_of es i)"
  by (induction k v es rule: bt_insert.induct) auto

lemma keys_bt_insert [simp]: "fst ` set (bt_insert k v es) = insert k (fst ` set es)"
  by (induction k v es rule: bt_insert.induct) auto

lemma sorted_bt_insert:
  "sorted_wrt (<) (map fst es) \<Longrightarrow> sorted_wrt (<) (map fst (bt_insert k v es))"
proof (induction k v es rule: bt_insert.induct)
  case (2 k v j w es)
  have "x \<in> insert k (fst ` set es)" if "x \<in> set (map fst (bt_insert k v es))" for x
    using that keys_bt_insert [of k v es] by (simp del: keys_bt_insert)
  with 2 show ?case by (fastforce simp del: keys_bt_insert)
qed simp

lemma map_of_bt_remove [simp]: "map_of (bt_remove k es) i = (if i = k then None else map_of es i)"
  by (induction es) (auto simp: bt_remove_def)

lemma sorted_bt_remove: "sorted_wrt (<) (map fst es) \<Longrightarrow> sorted_wrt (<) (map fst (bt_remove k es))"
  by (induction es) (auto simp: bt_remove_def)

lemma length_bt_insert: "k \<notin> fst ` set es \<Longrightarrow> length (bt_insert k v es) = Suc (length es)"
  by (induction k v es rule: bt_insert.induct) auto

definition finished_at :: "nat \<Rightarrow> ((nat \<times> nat) \<times> finished) list \<Rightarrow> finished list" where
  "finished_at i d = map snd (filter (\<lambda>((j, _), _). j = i) d)"

lemma finished_at_insert:
  assumes "sorted_wrt (<) (map fst d)" and "\<forall>((j, m), f) \<in> set d. m < n"
  shows "finished_at i (bt_insert (k, n) v d) = (if i = k then finished_at i d @ [v] else finished_at i d)"
  using assms
proof (induction d)
  case Nil
  then show ?case by (simp add: finished_at_def)
next
  case (Cons e d)
  obtain a m w where e: "e = ((a, m), w)" by (metis prod.exhaust)
  show ?case
  proof (cases "(k, n) < (a, m)")
    case True
    then have ka: "k < a" using Cons.prems(2) e by auto
    have "filter (\<lambda>((j, _), _). j = k) (e # d) = []"
      using Cons.prems(1) ka e by (fastforce simp: filter_empty_conv)
    with True e show ?thesis by (simp add: finished_at_def)
  next
    case False
    then have "(k, n) \<noteq> (a, m)" using Cons.prems(2) e by auto
    with False e Cons show ?thesis by (auto simp: finished_at_def)
  qed
qed

definition blocks_ok :: "blocks \<Rightarrow> bool" where
  "blocks_ok b \<longleftrightarrow>
     sorted_wrt (<) (map fst (bl_open b)) \<and> sorted_wrt (<) (map fst (bl_done b))
   \<and> (\<forall>((j, m), f) \<in> set (bl_done b). m < length (bl_done b))"

definition view :: "blocks \<Rightarrow> nat \<Rightarrow> slot" where
  "view b i = (map_of (bl_open b) i, finished_at i (bl_done b))"

lemma blocks_ok_open:
  "blocks_ok b \<Longrightarrow> blocks_ok (b\<lparr>bl_open := bt_insert i p (bl_open b), bl_last := l\<rparr>)"
  "blocks_ok b \<Longrightarrow> blocks_ok (b\<lparr>bl_open := bt_insert i p (bl_open b)\<rparr>)"
  by (simp_all add: blocks_ok_def sorted_bt_insert)

lemma view_open [simp]:
  "view (b\<lparr>bl_open := bt_insert i p (bl_open b), bl_last := l\<rparr>) j = (if j = i then (Some p, snd (view b j)) else view b j)"
  "view (b\<lparr>bl_open := bt_insert i p (bl_open b)\<rparr>) j = (if j = i then (Some p, snd (view b j)) else view b j)"
  by (simp_all add: view_def)

lemma open_at_Some: "open_at (Some i) b = map_option (\<lambda>p. (i, p)) (fst (view b i))"
  by (simp add: open_at_def view_def)

lemma blocks_stop_refines:
  assumes "blocks_ok b"
  shows "blocks_ok (blocks_stop parse_json (Some i) b)
    \<and> view (blocks_stop parse_json (Some i) b) j = (if j = i then slot_stop parse_json (view b j) else view b j)"
proof (cases "map_of (bl_open b) i")
  case None
  with assms show ?thesis by (auto simp: blocks_stop_def open_at_def view_def slot_stop_def)
next
  case (Some p)
  let ?n = "length (bl_done b)"
  have below: "\<forall>((j, m), f) \<in> set (bl_done b). m < ?n" and sorted: "sorted_wrt (<) (map fst (bl_done b))"
    using assms by (simp_all add: blocks_ok_def)
  have new: "(i, ?n) \<notin> fst ` set (bl_done b)" using below by force
  let ?d = "bt_insert (i, ?n) (finalize parse_json p) (bl_done b)"
  have "m < length ?d" if "((a, m), f) \<in> set ?d" for a m f
  proof -
    have "(a, m) \<in> fst ` set ?d" using image_eqI [OF _ that, of "(a, m)" fst] by simp
    then have "(a, m) \<in> insert (i, ?n) (fst ` set (bl_done b))" by simp
    with below show ?thesis by (force simp: length_bt_insert [OF new])
  qed
  then show ?thesis
    using Some assms finished_at_insert [OF sorted below, of j i]
    by (auto simp: blocks_stop_def open_at_def view_def slot_stop_def blocks_ok_def sorted_bt_insert
        sorted_bt_remove)
qed

lemma blocks_start_refines:
  assumes "blocks_ok b"
  shows "blocks_ok (blocks_start parse_json (Some i) p b)
    \<and> view (blocks_start parse_json (Some i) p b) j =
        (if j = i then slot_start parse_json p (view b j) else view b j)"
proof -
  let ?b = "blocks_stop parse_json (Some i) b"
  let ?fresh = "?b\<lparr>bl_open := bt_insert i p (bl_open ?b), bl_last := Some i\<rparr>"
  have fresh: "blocks_ok ?fresh"
    "view ?fresh j = (if j = i then (Some p, snd (slot_stop parse_json (view b j))) else view b j)"
    using blocks_stop_refines [OF assms, of parse_json i j] by (auto intro: blocks_ok_open)
  show ?thesis
  proof (cases "\<exists>c n x n' x'. fst (view b i) = Some (P_ToolUse c n x) \<and> p = P_ToolUse c n' x'")
    case True
    then show ?thesis
      using assms by (auto simp: blocks_start_def slot_start_def view_def intro: blocks_ok_open)
  next
    case False
    then have "blocks_start parse_json (Some i) p b = ?fresh"
      by (auto simp: blocks_start_def view_def Let_def split: option.split partial_block.split)
    moreover have "slot_start parse_json p (view b i) = (Some p, snd (slot_stop parse_json (view b i)))"
      using False by (auto simp: slot_start_def split: option.split partial_block.split)
    ultimately show ?thesis using fresh by simp
  qed
qed

lemma run_event_refines:
  assumes "blocks_ok b"
  shows "blocks_ok (run_event parse_json b (Some i, e))
    \<and> view (run_event parse_json b (Some i, e)) j =
        (if j = i then slot_event parse_json (view b j) e else view b j)"
proof (cases e)
  case (E_start p)
  with blocks_start_refines [OF assms] show ?thesis by simp
next
  case E_stop
  with blocks_stop_refines [OF assms] show ?thesis by simp
next
  case (E_text t)
  with assms blocks_start_refines [OF assms, of parse_json i "P_Text t" j] show ?thesis
    by (auto simp: blocks_text_def open_at_Some intro: blocks_ok_open split: option.split partial_block.split)
next
  case (E_thinking t)
  with assms blocks_start_refines [OF assms, of parse_json i "P_Thinking t []" j] show ?thesis
    by (auto simp: blocks_thinking_def open_at_Some intro: blocks_ok_open split: option.split partial_block.split)
next
  case (E_signature g)
  with assms show ?thesis
    by (auto simp: blocks_signature_def open_at_Some intro: blocks_ok_open split: option.split partial_block.split)
next
  case (E_input x)
  with assms show ?thesis
    by (auto simp: blocks_tool_input_def open_at_Some intro: blocks_ok_open split: option.split partial_block.split)
qed

lemma run_events_refine:
  "blocks_ok b \<Longrightarrow>
     blocks_ok (foldl (run_event parse_json) b (map (\<lambda>(i, e). (Some i, e)) evs))
   \<and> view (foldl (run_event parse_json) b (map (\<lambda>(i, e). (Some i, e)) evs)) j =
       foldl (slot_event parse_json) (view b j) (map snd (filter (\<lambda>(i, _). i = j) evs))"
proof (induction evs arbitrary: b)
  case Nil
  then show ?case by simp
next
  case (Cons x evs)
  obtain i e where x: "x = (i, e)" by fastforce
  from run_event_refines [OF Cons.prems, of parse_json i e] Cons.IH show ?case by (auto simp: x)
qed

lemma stops_refine:
  "blocks_ok b \<Longrightarrow> distinct ks \<Longrightarrow>
     blocks_ok (foldl (\<lambda>b i. blocks_stop parse_json (Some i) b) b ks)
   \<and> view (foldl (\<lambda>b i. blocks_stop parse_json (Some i) b) b ks) j =
       (if j \<in> set ks then slot_stop parse_json (view b j) else view b j)"
proof (induction ks arbitrary: b)
  case Nil
  then show ?case by simp
next
  case (Cons k ks)
  from blocks_stop_refines [OF Cons.prems(1), of parse_json k] Cons show ?case by auto
qed

lemma close_all_refines:
  assumes "blocks_ok b"
  shows "blocks_ok (close_all parse_json b)
    \<and> view (close_all parse_json b) j = (None, snd (slot_stop parse_json (view b j)))"
proof -
  have "sorted_wrt (<) (map fst (bl_open b))" using assms by (simp add: blocks_ok_def)
  then have "distinct (map fst (bl_open b))" using strict_sorted_iff by blast
  moreover have "fst (view b j) = None" if "j \<notin> fst ` set (bl_open b)"
    using that by (simp add: view_def map_of_eq_None_iff)
  ultimately show ?thesis
    using stops_refine [OF assms, of "map fst (bl_open b)" parse_json j]
    by (auto simp: close_all_def slot_stop_def prod_eq_iff split: if_splits)
qed

lemma sorted_split_least:
  assumes "sorted_wrt (<) (map fst d)" and "\<forall>((j, m), f) \<in> set d. i \<le> (j::nat)"
  shows "d = filter (\<lambda>((j, _), _). j = i) d @ filter (\<lambda>((j, _), _). j \<noteq> i) d"
  using assms
proof (induction d)
  case Nil
  then show ?case by simp
next
  case (Cons e d)
  obtain a m w where e: "e = ((a, m), w)" by (metis prod.exhaust)
  show ?case
  proof (cases "a = i")
    case True
    with Cons e show ?thesis by simp
  next
    case False
    with Cons.prems(2) e have "i < a" by auto
    have "filter (\<lambda>((j, _), _). j = i) d = []"
      using Cons.prems(1) e \<open>i < a\<close> by (fastforce simp: filter_empty_conv)
    moreover from this have "filter (\<lambda>((j, _), _). j \<noteq> i) d = d"
      by (auto simp: filter_id_conv filter_empty_conv)
    ultimately show ?thesis using False e by simp
  qed
qed

lemma done_by_index:
  assumes "sorted_wrt (<) (map fst d)" and "sorted_wrt (<) is" and "\<forall>((j, m), f) \<in> set d. j \<in> set is"
  shows "map snd d = concat (map (\<lambda>i. finished_at i d) is)"
  using assms
proof (induction "is" arbitrary: d)
  case Nil
  then show ?case by (cases d) auto
next
  case (Cons i "is")
  let ?rest = "filter (\<lambda>((j, _), _). j \<noteq> i) d"
  have "d = filter (\<lambda>((j, _), _). j = i) d @ ?rest"
    using Cons.prems by (intro sorted_split_least) fastforce+
  then have "map snd d = finished_at i d @ map snd ?rest"
    by (metis finished_at_def map_append)
  also have "map snd ?rest = concat (map (\<lambda>k. finished_at k ?rest) is)"
  proof (rule Cons.IH)
    show "sorted_wrt (<) (map fst ?rest)"
      using Cons.prems(1) by (simp add: sorted_wrt_map sorted_wrt_filter)
  qed (use Cons.prems in auto)
  also have "map (\<lambda>k. finished_at k ?rest) is = map (\<lambda>k. finished_at k d) is"
  proof (rule map_cong [OF refl])
    fix k assume "k \<in> set is"
    with Cons.prems(2) have "k \<noteq> i" by auto
    then show "finished_at k ?rest = finished_at k d"
      by (auto simp: finished_at_def intro!: arg_cong [where f = "map snd"] filter_cong)
  qed
  finally show ?case by simp
qed

text \<open>
  (C6) A reply's blocks come out in index order, each assembled from the events of its own index alone,
  however the events of different indices are interleaved, and whichever of them were left open.
\<close>

theorem blocks_assemble_by_index:
  "map snd (bl_done (close_all parse_json
       (foldl (run_event parse_json) no_blocks (map (\<lambda>(i, e). (Some i, e)) evs)))) =
   concat (map (\<lambda>i. index_blocks parse_json (map snd (filter (\<lambda>(j, _). j = i) evs)))
     (sorted_list_of_set (fst ` set evs)))"
proof -
  let ?b = "foldl (run_event parse_json) no_blocks (map (\<lambda>(i, e). (Some i, e)) evs)"
  let ?c = "close_all parse_json ?b"
  have start: "blocks_ok no_blocks" "view no_blocks i = (None, [])" for i
    by (simp_all add: blocks_ok_def no_blocks_def view_def finished_at_def)
  have b: "blocks_ok ?b"
    "view ?b i = foldl (slot_event parse_json) (None, []) (map snd (filter (\<lambda>(j, _). j = i) evs))" for i
    using run_events_refine [OF start(1), of parse_json evs i] by (simp_all add: start(2))
  have c: "blocks_ok ?c" "finished_at i (bl_done ?c) = index_blocks parse_json (map snd (filter (\<lambda>(j, _). j = i) evs))" for i
    using close_all_refines [OF b(1), of parse_json i] b(2) [of i] by (simp_all add: view_def index_blocks_def)
  have "j \<in> fst ` set evs" if "((j, m), f) \<in> set (bl_done ?c)" for j m f
  proof (rule ccontr)
    assume "j \<notin> fst ` set evs"
    then have "filter (\<lambda>(i, _). i = j) evs = []" by (force simp: filter_empty_conv)
    then have "finished_at j (bl_done ?c) = []" by (simp add: c(2) index_blocks_def slot_stop_def)
    with that show False by (force simp: finished_at_def filter_empty_conv)
  qed
  then have "map snd (bl_done ?c) = concat (map (\<lambda>i. finished_at i (bl_done ?c)) (sorted_list_of_set (fst ` set evs)))"
    using c(1) by (intro done_by_index) (auto simp: blocks_ok_def)
  then show ?thesis by (simp add: c(2))
qed

lemma block_results_cases:
  "case block_results fs of
     Inr cs \<Rightarrow> map Finished_block cs = fs
   | Inl e \<Rightarrow> (\<exists>name. Unparsed_call name e \<in> set fs)"
  by (induction fs rule: block_results.induct) (auto split: sum.splits)

text \<open>
  A reply that stopped early in the middle of a tool call never runs that call: its last block, if
  a call, is dropped whether or not its input parsed, and named only by a plain tool name; every other
  block is kept. A call kept whose input doesn't parse fails the reply.
\<close>

theorem cut_off_call_never_runs:
  assumes "stopped_early stop_reason"
    and "finished_in_order = map snd (bl_done (close_all parse_json b))" and "finished_in_order \<noteq> []"
    and "finished_tool_name (last finished_in_order) = Some name"
  shows "case blocks_finish parse_json stop_reason b of
      Inr (content, cut_off_call) \<Rightarrow>
        map Finished_block content = butlast finished_in_order
      \<and> cut_off_call = (if is_plain_tool_name name then Some name else None)
    | Inl e \<Rightarrow> \<exists>n. Unparsed_call n e \<in> set (butlast finished_in_order)"
  using assms block_results_cases [of "butlast finished_in_order"]
  by (auto simp: blocks_finish_def Let_def split: sum.splits)

theorem cut_off_call_never_runs_witness:
  "blocks_finish (\<lambda>_. Inl ''eof'') ''max_tokens''
     (run_event (\<lambda>_. Inl ''eof'') (run_event (\<lambda>_. Inl ''eof'') (run_event (\<lambda>_. Inl ''eof'') no_blocks
        (Some 0, E_text ''hi'')) (Some 1, E_start (P_ToolUse ''t'' ''run'' []))) (Some 1, E_input ''{''))
   = Inr ([Text ''hi''], Some ''run'')"
proof -
  let ?p = "\<lambda>_. Inl ''eof'' :: string + json"
  let ?b = "run_event ?p (run_event ?p (run_event ?p no_blocks
        (Some 0, E_text ''hi'')) (Some 1, E_start (P_ToolUse ''t'' ''run'' []))) (Some 1, E_input ''{'')"
  have e: "map snd (bl_done (close_all ?p ?b)) = [Finished_block (Text ''hi''),
      Unparsed_call ''run'' ''failed to parse tool_use input JSON for run: eof'']"
    by (simp add: no_blocks_def blocks_text_def open_at_def blocks_start_def blocks_stop_def
        blocks_tool_input_def close_all_def bt_remove_def)
  have "is_plain_tool_name ''run''"
    by (simp add: is_plain_tool_name_def is_ascii_alphanumeric_def is_ascii_lower_def)
  with cut_off_call_never_runs [OF _ e [symmetric], of "''max_tokens''" "''run''"] show ?thesis
    by (auto simp: stopped_early_def is_cut_off_def split: sum.splits)
qed

end
