(* ===== verification/Stream_Call.thy ===== *)
theory Stream_Call
  imports Stream_Blocks Window_Budget
begin

text \<open>
  A model call: \<open>src/anthropic/stream/interpret.rs\<close> (what an SSE event says),
  \<open>src/anthropic/stream/meter.rs\<close> (the usage known while it streams), and the call itself in
  \<open>src/anthropic/stream.rs\<close>: which form the request is sent in, its retries, and the loop that reads the
  reply.

  The network is a parameter: \<open>respond n form\<close> is the answer to the \<open>n\<close>-th request. So are serde_json's
  parser and the reading of a \<open>TokenUsage\<close> (\<open>read_usage\<close>), and the hash of the provider's address and
  credential, the \<open>key\<close> of its remembered form. Errors are values, before \<open>overflow::classify\<close> and the
  wording of hints; spans, sleeps and the timeouts' clocks are left out (a timeout is a response).
\<close>

section \<open>One event\<close>

fun get :: "string \<Rightarrow> json \<Rightarrow> json option" where
  "get key (JObject members) = map_of members key"
| "get key _ = None"

fun as_str :: "json \<Rightarrow> string option" where
  "as_str (JString s) = Some s"
| "as_str _ = None"

fun as_i64 :: "json \<Rightarrow> i64 option" where
  "as_i64 (JInt n) = (if i64_min \<le> n \<and> n \<le> i64_max then Some n else None)"
| "as_i64 _ = None"

fun as_u64 :: "json \<Rightarrow> u64 option" where
  "as_u64 (JInt n) = (if 0 \<le> n \<and> n < 2 ^ 64 then Some (nat n) else None)"
| "as_u64 _ = None"

text \<open>\<open>value.get(a).and_then(|v| v.get(b)).and_then(Value::as_str)\<close>.\<close>

definition get_str :: "string \<Rightarrow> string \<Rightarrow> json \<Rightarrow> string option" where
  "get_str a b v = Option.bind (Option.bind (get a v) (get b)) as_str"

record delta_usage =
  du_input :: "i64 option"
  du_output :: "i64 option"
  du_cache_creation :: "i64 option"
  du_cache_read :: "i64 option"

definition no_delta_usage :: delta_usage where
  "no_delta_usage = \<lparr>du_input = None, du_output = None, du_cache_creation = None, du_cache_read = None\<rparr>"

definition delta_usage_from :: "json \<Rightarrow> delta_usage" where
  "delta_usage_from usage =
     (let count = (\<lambda>key. Option.bind (get key usage) as_i64)
      in \<lparr>du_input = count ''input_tokens'', du_output = count ''output_tokens'',
          du_cache_creation = count ''cache_creation_input_tokens'',
          du_cache_read = count ''cache_read_input_tokens''\<rparr>)"

definition replaced :: "i64 option \<Rightarrow> i64 \<Rightarrow> i64" where
  "replaced new old = (case new of Some n \<Rightarrow> n | None \<Rightarrow> old)"

definition apply_to :: "delta_usage \<Rightarrow> token_usage \<Rightarrow> token_usage" where
  "apply_to d usage =
     (let usage = usage\<lparr>output_tokens := replaced (du_output d) (output_tokens usage)\<rparr>;
          input_side = [du_input d, du_cache_creation d, du_cache_read d]
      in if list_ex (\<lambda>count. case count of Some c \<Rightarrow> c \<noteq> 0 | None \<Rightarrow> False) input_side
         then usage\<lparr>input_tokens := replaced (du_input d) (input_tokens usage),
                cache_creation_input_tokens := replaced (du_cache_creation d) (cache_creation_input_tokens usage),
                cache_read_input_tokens := replaced (du_cache_read d) (cache_read_input_tokens usage)\<rparr>
         else usage)"

datatype stream_outcome =
    TextDelta string
  | ThinkingDelta string
  | ThinkingSignatureDelta string
  | ToolUseStart string string
  | ToolUseInputDelta string
  | BlockStop
  | Delta "string option" delta_usage
  | InitialUsage token_usage
  | Error string
  | Ignored

definition interpret_stream_event :: "(json \<Rightarrow> token_usage option) \<Rightarrow> json \<Rightarrow> stream_outcome" where
  "interpret_stream_event read_usage v =
     (let kind = Option.bind (get ''type'' v) as_str;
          or_empty = (\<lambda>x. case x of Some s \<Rightarrow> s | None \<Rightarrow> '''')
      in if kind = Some ''message_start'' then
           (case Option.bind (Option.bind (get ''message'' v) (get ''usage'')) read_usage of
              Some usage \<Rightarrow> InitialUsage usage | None \<Rightarrow> Ignored)
         else if kind = Some ''content_block_start'' then
           (if get_str ''content_block'' ''type'' v = Some ''tool_use''
            then ToolUseStart (or_empty (get_str ''content_block'' ''id'' v)) (or_empty (get_str ''content_block'' ''name'' v))
            else Ignored)
         else if kind = Some ''content_block_delta'' then
           (let t = get_str ''delta'' ''type'' v
            in if t = Some ''text_delta'' then TextDelta (or_empty (get_str ''delta'' ''text'' v))
               else if t = Some ''input_json_delta'' then ToolUseInputDelta (or_empty (get_str ''delta'' ''partial_json'' v))
               else if t = Some ''thinking_delta'' then ThinkingDelta (or_empty (get_str ''delta'' ''thinking'' v))
               else if t = Some ''signature_delta'' then ThinkingSignatureDelta (or_empty (get_str ''delta'' ''signature'' v))
               else Ignored)
         else if kind = Some ''content_block_stop'' then BlockStop
         else if kind = Some ''message_delta'' then
           (let stop_reason = get_str ''delta'' ''stop_reason'' v;
                usage = (case get ''usage'' v of Some u \<Rightarrow> delta_usage_from u | None \<Rightarrow> no_delta_usage)
            in if stop_reason = None \<and> usage = no_delta_usage then Ignored else Delta stop_reason usage)
         else if kind = Some ''error'' then
           Error (case get_str ''error'' ''message'' v of Some m \<Rightarrow> m | None \<Rightarrow> ''unknown error from Anthropic'')
         else Ignored)"

definition block_index :: "json \<Rightarrow> nat option" where
  "block_index v = Option.bind (get ''index'' v) as_u64"

section \<open>The meter\<close>

record metered =
  me_usage :: token_usage
  me_output_reported :: bool
  me_streamed_bytes :: nat

definition no_usage :: token_usage where
  "no_usage = \<lparr>input_tokens = 0, output_tokens = 0, cache_creation_input_tokens = 0, cache_read_input_tokens = 0\<rparr>"

definition new_meter :: metered where
  "new_meter = \<lparr>me_usage = no_usage, me_output_reported = False, me_streamed_bytes = 0\<rparr>"

definition meter_start :: "token_usage \<Rightarrow> metered \<Rightarrow> metered" where
  "meter_start initial m =
     m\<lparr>me_usage := (me_usage m)\<lparr>input_tokens := input_tokens initial,
         cache_creation_input_tokens := cache_creation_input_tokens initial,
         cache_read_input_tokens := cache_read_input_tokens initial\<rparr>\<rparr>"

definition meter_delta :: "delta_usage \<Rightarrow> metered \<Rightarrow> metered" where
  "meter_delta d m =
     m\<lparr>me_usage := apply_to d (me_usage m),
       me_output_reported := (me_output_reported m \<or> du_output d \<noteq> None)\<rparr>"

definition meter_streamed :: "nat \<Rightarrow> metered \<Rightarrow> metered" where
  "meter_streamed n m = m\<lparr>me_streamed_bytes := me_streamed_bytes m + n\<rparr>"

definition meter_known :: "metered \<Rightarrow> token_usage option" where
  "meter_known m =
     (let usage = (if me_output_reported m then me_usage m
                   else (me_usage m)\<lparr>output_tokens := min (int (me_streamed_bytes m div 4)) i64_max\<rparr>);
          nothing = (me_streamed_bytes m = 0 \<and> usage = no_usage)
      in if nothing then None else Some usage)"

section \<open>Reading the reply\<close>

record stream_state =
  ss_blocks :: blocks
  ss_stop_reason :: string
  ss_meter :: metered
  ss_deltas :: "string list"

definition new_stream :: "metered \<Rightarrow> stream_state" where
  "new_stream m = \<lparr>ss_blocks = no_blocks, ss_stop_reason = [], ss_meter = m, ss_deltas = []\<rparr>"

text \<open>An \<open>error\<close> event, with the value \<open>overflow::classify\<close> reads.\<close>

datatype stream_fault = Error_event string json | Unparsed_input string | Read_failed string

fun act_on ::
  "(string \<Rightarrow> string + json) \<Rightarrow> json \<Rightarrow> nat option \<Rightarrow> stream_outcome \<Rightarrow> stream_state \<Rightarrow> stream_fault + stream_state" where
  "act_on pj v i (TextDelta t) s =
     Inr (s\<lparr>ss_meter := meter_streamed (length t) (ss_meter s), ss_deltas := ss_deltas s @ [t],
            ss_blocks := blocks_text pj i t (ss_blocks s)\<rparr>)"
| "act_on pj v i (ThinkingDelta t) s =
     Inr (s\<lparr>ss_meter := meter_streamed (length t) (ss_meter s), ss_blocks := blocks_thinking pj i t (ss_blocks s)\<rparr>)"
| "act_on pj v i (ThinkingSignatureDelta g) s = Inr (s\<lparr>ss_blocks := blocks_signature i g (ss_blocks s)\<rparr>)"
| "act_on pj v i (ToolUseStart c n) s = Inr (s\<lparr>ss_blocks := blocks_start pj i (P_ToolUse c n []) (ss_blocks s)\<rparr>)"
| "act_on pj v i (ToolUseInputDelta x) s =
     Inr (s\<lparr>ss_meter := meter_streamed (length x) (ss_meter s), ss_blocks := blocks_tool_input i x (ss_blocks s)\<rparr>)"
| "act_on pj v i BlockStop s = Inr (s\<lparr>ss_blocks := blocks_stop pj i (ss_blocks s)\<rparr>)"
| "act_on pj v i (Delta reason d) s =
     Inr (s\<lparr>ss_stop_reason := (case reason of Some r \<Rightarrow> r | None \<Rightarrow> ss_stop_reason s),
            ss_meter := meter_delta d (ss_meter s)\<rparr>)"
| "act_on pj v i (InitialUsage u) s = Inr (s\<lparr>ss_meter := meter_start u (ss_meter s)\<rparr>)"
| "act_on pj v i (Error m) s = Inl (Error_event m v)"
| "act_on pj v i Ignored s = Inr s"

definition read_line ::
  "(string \<Rightarrow> string + json) \<Rightarrow> (json \<Rightarrow> token_usage option) \<Rightarrow> string \<Rightarrow> stream_state \<Rightarrow> stream_fault + stream_state" where
  "read_line pj read_usage line s =
     (case strip_prefix ''data: '' (str_trim line) of
        None \<Rightarrow> Inr s
      | Some data \<Rightarrow>
          (case pj data of
             Inl _ \<Rightarrow> Inr s
           | Inr v \<Rightarrow> act_on pj v (block_index v) (interpret_stream_event read_usage v) s))"

fun read_lines ::
  "(string \<Rightarrow> string + json) \<Rightarrow> (json \<Rightarrow> token_usage option) \<Rightarrow> string list \<Rightarrow> stream_state \<Rightarrow>
     stream_fault + stream_state" where
  "read_lines pj read_usage [] s = Inr s"
| "read_lines pj read_usage (l # ls) s =
     (case read_line pj read_usage l s of Inl e \<Rightarrow> Inl e | Inr s' \<Rightarrow> read_lines pj read_usage ls s')"

text \<open>The chunks, or where the stream fails: its end, a chunk that doesn't come in time or an error.\<close>

datatype chunk = Bytes bytes | Failed_read string

fun read_chunks ::
  "(string \<Rightarrow> string + json) \<Rightarrow> (json \<Rightarrow> token_usage option) \<Rightarrow> chunk list \<Rightarrow> line_buffer \<Rightarrow> stream_state \<Rightarrow>
     stream_fault + stream_state" where
  "read_chunks pj read_usage [] b s = Inr s"
| "read_chunks pj read_usage (Failed_read e # cs) b s = Inl (Read_failed e)"
| "read_chunks pj read_usage (Bytes c # cs) b s =
     (let (ls, b') = drain_lines (lb_push c b)
      in case read_lines pj read_usage ls s of
           Inl e \<Rightarrow> Inl e | Inr s' \<Rightarrow> read_chunks pj read_usage cs b' s')"

record streamed_turn =
  sd_content :: "content_block list"
  sd_stop_reason :: string
  sd_usage :: token_usage
  sd_cut_off_call :: "string option"

definition read_reply ::
  "(string \<Rightarrow> string + json) \<Rightarrow> (json \<Rightarrow> token_usage option) \<Rightarrow> chunk list \<Rightarrow> metered \<Rightarrow>
     stream_fault + streamed_turn" where
  "read_reply pj read_usage chunks m =
     (case read_chunks pj read_usage chunks empty_buffer (new_stream m) of
        Inl e \<Rightarrow> Inl e
      | Inr s \<Rightarrow>
          (case blocks_finish pj (ss_stop_reason s) (ss_blocks s) of
             Inl e \<Rightarrow> Inl (Unparsed_input e)
           | Inr (content, cut_call) \<Rightarrow>
               Inr \<lparr>sd_content = content, sd_stop_reason = ss_stop_reason s,
                    sd_usage = me_usage (ss_meter s), sd_cut_off_call = cut_call\<rparr>))"

section \<open>The forms a request is sent in\<close>

datatype binding = AsIs | DropBlock | Strip

definition BINDING_BETA :: string where
  "BINDING_BETA = ''thinking-binding-controls-2026-08-01''"

definition provider_error_message :: "(string \<Rightarrow> string + json) \<Rightarrow> string \<Rightarrow> string" where
  "provider_error_message pj body =
     (let message = (case pj body of Inl _ \<Rightarrow> None | Inr v \<Rightarrow> get_str ''error'' ''message'' v)
      in case message of
           None \<Rightarrow> str_trim body
         | Some m \<Rightarrow>
             (let nested = (case pj m of
                  Inl _ \<Rightarrow> None
                | Inr v \<Rightarrow> (case (case get ''error'' v of Some e \<Rightarrow> Some e | None \<Rightarrow> get ''message'' v) of
                     None \<Rightarrow> None | Some e \<Rightarrow> as_str e))
              in str_trim (case nested of Some n \<Rightarrow> n | None \<Rightarrow> m)))"

definition is_binding_mismatch :: "(string \<Rightarrow> string + json) \<Rightarrow> string \<Rightarrow> bool" where
  "is_binding_mismatch pj body =
     str_contains (provider_error_message pj body) ''bound to a different conversation''"

definition refuses_binding_controls :: "string \<Rightarrow> bool" where
  "refuses_binding_controls body \<longleftrightarrow> str_contains body ''block_binding'' \<or> str_contains body BINDING_BETA"

definition untried :: "binding list \<Rightarrow> binding \<Rightarrow> binding option" where
  "untried tried b = (if b \<in> set tried then None else Some b)"

definition or_else :: "'a option \<Rightarrow> 'a option \<Rightarrow> 'a option" where
  "or_else a b = (case a of Some x \<Rightarrow> Some x | None \<Rightarrow> b)"

definition next_binding ::
  "(string \<Rightarrow> string + json) \<Rightarrow> binding \<Rightarrow> binding list \<Rightarrow> bool \<Rightarrow> string \<Rightarrow> binding option" where
  "next_binding pj b tried has_thinking body =
     (case b of
        AsIs \<Rightarrow>
          if is_binding_mismatch pj body \<and> has_thinking then or_else (untried tried DropBlock) (untried tried Strip)
          else if is_binding_mismatch pj body then untried tried Strip
          else None
      | DropBlock \<Rightarrow>
          if is_binding_mismatch pj body \<or> refuses_binding_controls body
          then or_else (untried tried AsIs) (untried tried Strip) else None
      | Strip \<Rightarrow> None)"

text \<open>\<open>RECOVERY\<close>: the form a provider took before.\<close>

definition binding_for :: "'key \<Rightarrow> bool \<Rightarrow> ('key \<rightharpoonup> binding) \<Rightarrow> binding" where
  "binding_for key has_thinking known =
     (if known key = Some DropBlock \<and> has_thinking then DropBlock else AsIs)"

definition remember_binding :: "'key \<Rightarrow> binding \<Rightarrow> ('key \<rightharpoonup> binding) \<Rightarrow> ('key \<rightharpoonup> binding)" where
  "remember_binding key b known = known(key \<mapsto> b)"

definition forget_binding :: "'key \<Rightarrow> ('key \<rightharpoonup> binding) \<Rightarrow> ('key \<rightharpoonup> binding)" where
  "forget_binding key known = known(key := None)"

definition is_transient_status :: "nat \<Rightarrow> bool" where
  "is_transient_status status \<longleftrightarrow> status \<in> {429, 503, 529}"

definition RETRIES :: nat where
  "RETRIES = 2"

text \<open>An answer: a failure to send or to hear back in time, or a status and its body.\<close>

datatype response = No_response string | Response nat string

definition is_success :: "nat \<Rightarrow> bool" where
  "is_success status \<longleftrightarrow> 200 \<le> status \<and> status < 300"

datatype call_fault = Not_sent string | Refused_with nat string

record 'key tries =
  ts_sent :: "binding list"
  ts_retries :: nat
  ts_binding :: binding
  ts_known :: "'key \<rightharpoonup> binding"

definition note_sent :: "binding \<Rightarrow> 'key tries \<Rightarrow> 'key tries" where
  "note_sent b t = t\<lparr>ts_sent := ts_sent t @ [b]\<rparr>"

lemma next_binding_untried: "next_binding pj b tried th body = Some n \<Longrightarrow> n \<notin> set tried"
  by (auto simp: next_binding_def or_else_def untried_def split: binding.splits option.splits if_splits)

lemma binding_UNIV: "UNIV = {AsIs, DropBlock, Strip}"
  using binding.exhaust by blast

instance binding :: finite
  by standard (simp add: binding_UNIV)

text \<open>The loop of \<open>stream_message\<close>, up to the response it streams; \<open>attempt\<close> counts the transient
  retries.\<close>

function send_loop ::
  "(string \<Rightarrow> string + json) \<Rightarrow> (nat \<Rightarrow> binding \<Rightarrow> response) \<Rightarrow> 'key \<Rightarrow> bool \<Rightarrow>
     nat \<Rightarrow> binding \<Rightarrow> binding list \<Rightarrow> 'key tries \<Rightarrow> (call_fault + string) \<times> 'key tries" where
  "send_loop pj respond key has_thinking attempt b tried t =
     (let answer = respond (length (ts_sent t)) b; t = note_sent b t
      in case answer of
           No_response e \<Rightarrow> (Inl (Not_sent e), t)
         | Response status body \<Rightarrow>
             if is_success status then
               (Inr body, if b = DropBlock then t\<lparr>ts_known := remember_binding key b (ts_known t)\<rparr> else t)
             else if is_transient_status status \<and> attempt < RETRIES then
               send_loop pj respond key has_thinking (attempt + 1) b tried (t\<lparr>ts_retries := attempt + 1\<rparr>)
             else
               (case (if status = 400 then next_binding pj b tried has_thinking body else None) of
                  Some n \<Rightarrow>
                    send_loop pj respond key has_thinking attempt n (tried @ [n])
                      (t\<lparr>ts_known := (if b = DropBlock then forget_binding key (ts_known t) else ts_known t),
                         ts_binding := n\<rparr>)
                | None \<Rightarrow> (Inl (Refused_with status body), t)))"
  by pat_completeness auto
termination
proof (relation "measure (\<lambda>(pj, respond, key, th, attempt, b, tried, t).
      (RETRIES - attempt) + card (UNIV - set tried))", goal_cases)
  case 1
  then show ?case by simp
next
  case 2
  then show ?case by (auto simp: RETRIES_def)
next
  case (3 pj respond key th attempt b tried t answer t' status body n)
  then have "n \<notin> set tried" by (auto dest: next_binding_untried split: if_splits)
  then have "UNIV - set (tried @ [n]) \<subset> UNIV - set tried" by auto
  then have "card (UNIV - set (tried @ [n])) < card (UNIV - set tried)" by (intro psubset_card_mono) auto
  then show ?case by simp
qed

declare send_loop.simps [simp del]

definition send_request ::
  "(string \<Rightarrow> string + json) \<Rightarrow> (nat \<Rightarrow> binding \<Rightarrow> response) \<Rightarrow> 'key \<Rightarrow> bool \<Rightarrow> ('key \<rightharpoonup> binding) \<Rightarrow>
     (call_fault + string) \<times> 'key tries" where
  "send_request pj respond key has_thinking known =
     (let b = binding_for key has_thinking known
      in send_loop pj respond key has_thinking 0 b [b]
           \<lparr>ts_sent = [], ts_retries = 0, ts_binding = b, ts_known = known\<rparr>)"

datatype hint = No_hint | Prompt_caching_hint | Effort_hint

definition failure_hint :: "bool \<Rightarrow> bool \<Rightarrow> string \<Rightarrow> hint" where
  "failure_hint prompt_caching has_output_config message =
     (if prompt_caching \<and> str_contains message ''cache_control'' then Prompt_caching_hint
      else if has_output_config \<and> (str_contains message ''effort'' \<or> str_contains message ''output_config'')
      then Effort_hint else No_hint)"

section \<open>Properties\<close>

lemma read_lines_append:
  "read_lines pj ru (ls @ ms) s =
     (case read_lines pj ru ls s of Inl e \<Rightarrow> Inl e | Inr s' \<Rightarrow> read_lines pj ru ms s')"
  by (induction ls arbitrary: s) (simp_all split: sum.split)

lemma read_chunks_lines:
  "read_chunks pj ru (map Bytes cs) b s = read_lines pj ru (fst (feed_chunks cs b)) s"
  by (induction cs arbitrary: b s) (auto simp: read_lines_append Let_def split: prod.split sum.split)

text \<open>
  (C17) What a reply comes to does not depend on how the network cut it: two ways of splitting the same
  body into chunks give the same content, stop reason, usage and errors.
\<close>

theorem reply_does_not_depend_on_chunks:
  assumes "concat cs = concat ds"
  shows "read_reply pj read_usage (map Bytes cs) m = read_reply pj read_usage (map Bytes ds) m"
proof -
  have "fst (feed_chunks xs empty_buffer) = fst (body_lines (concat xs))" for xs
    using fed_lines [of xs] by simp
  with assms show ?thesis by (simp add: read_reply_def read_chunks_lines)
qed

theorem reply_does_not_depend_on_chunks_witness:
  "read_reply (\<lambda>_. Inl []) (\<lambda>_. None) (map Bytes [''data'', '': x'']) new_meter
   = read_reply (\<lambda>_. Inl []) (\<lambda>_. None) (map Bytes [''data: x'']) new_meter"
  by (rule reply_does_not_depend_on_chunks) simp

definition drop_block_only :: "('key \<rightharpoonup> binding) \<Rightarrow> bool" where
  "drop_block_only known \<longleftrightarrow> ran known \<subseteq> {DropBlock}"

lemma drop_block_only_upd:
  "drop_block_only known \<Longrightarrow> drop_block_only (remember_binding key DropBlock known)"
  "drop_block_only known \<Longrightarrow> drop_block_only (forget_binding key known)"
  by (auto simp: drop_block_only_def remember_binding_def forget_binding_def ran_def split: if_splits)

lemma send_loop_bounds:
  assumes "attempt \<le> RETRIES" and "drop_block_only (ts_known t)"
    and "result = snd (send_loop pj respond key th attempt b tried t)"
  shows "length (ts_sent result) \<le> length (ts_sent t) + 1 + (RETRIES - attempt) + card (UNIV - set tried)
    \<and> (\<exists>more. ts_sent result = ts_sent t @ b # more) \<and> drop_block_only (ts_known result)
    \<and> (ts_retries t \<le> RETRIES \<longrightarrow> ts_retries result \<le> RETRIES)"
  using assms
proof (induction pj respond key th attempt b tried t arbitrary: result rule: send_loop.induct)
  case (1 pj respond key th attempt b tried t)
  let ?t = "note_sent b t"
  have sent: "ts_sent ?t = ts_sent t @ [b]" "ts_known ?t = ts_known t" "ts_retries ?t = ts_retries t"
    by (simp_all add: note_sent_def)
  show ?case
  proof (cases "respond (length (ts_sent t)) b")
    case (No_response e)
    with 1 sent show ?thesis by (simp add: send_loop.simps [of pj respond key th attempt b] Let_def)
  next
    case (Response status body)
    note answer = Response
    consider (success) "is_success status"
      | (retry) "\<not> is_success status" "is_transient_status status \<and> attempt < RETRIES"
      | (rebind) n where "\<not> is_success status" "\<not> (is_transient_status status \<and> attempt < RETRIES)"
          "(if status = 400 then next_binding pj b tried th body else None) = Some n"
      | (refused) "\<not> is_success status" "\<not> (is_transient_status status \<and> attempt < RETRIES)"
          "(if status = 400 then next_binding pj b tried th body else None) = None"
      by (cases "if status = 400 then next_binding pj b tried th body else None") blast+
    then show ?thesis
    proof cases
      case success
      with 1 sent answer show ?thesis
        by (cases b) (simp_all add: send_loop.simps [of pj respond key th attempt] Let_def drop_block_only_upd)
    next
      case retry
      from retry answer have step: "send_loop pj respond key th attempt b tried t =
          send_loop pj respond key th (attempt + 1) b tried (?t\<lparr>ts_retries := attempt + 1\<rparr>)"
        by (simp add: send_loop.simps [of pj respond key th attempt b] Let_def)
      from 1(1) [OF refl refl answer retry] 1(3-5) retry sent show ?thesis
        unfolding 1(5) step by (fastforce simp: RETRIES_def)
    next
      case (rebind n)
      let ?t' = "?t\<lparr>ts_known := (if b = DropBlock then forget_binding key (ts_known ?t) else ts_known ?t),
          ts_binding := n\<rparr>"
      from rebind answer have step: "send_loop pj respond key th attempt b tried t =
          send_loop pj respond key th attempt n (tried @ [n]) ?t'"
        by (auto simp: send_loop.simps [of pj respond key th attempt b] Let_def)
      have "n \<in> UNIV - set tried" using rebind(3) by (auto dest: next_binding_untried split: if_splits)
      moreover have "UNIV - set (tried @ [n]) = (UNIV - set tried) - {n}" by auto
      ultimately have "card (UNIV - set tried) = Suc (card (UNIV - set (tried @ [n])))"
        using card_Suc_Diff1 [of "UNIV - set tried" n] by (simp only: finite)
      moreover have "drop_block_only (ts_known ?t')" using 1(4) by (simp add: drop_block_only_upd note_sent_def)
      ultimately show ?thesis
        using 1(2) [OF refl refl answer rebind(1,2,3) 1(3) _ refl] sent
        unfolding 1(5) step by fastforce
    next
      case refused
      with 1 sent answer show ?thesis
        by (simp add: send_loop.simps [of pj respond key th attempt b] Let_def split: if_splits)
    qed
  qed
qed

text \<open>
  (C11) A model call is bounded whatever the provider answers: it sends at most five requests (two
  retries of a passing failure, and each form of the request at most once), never starts with the
  history stripped of its thinking, and only ever remembers drop-block for a provider.
\<close>

theorem model_call_is_bounded:
  assumes "ran known \<subseteq> {DropBlock}"
    and "result = snd (send_request pj respond key has_thinking known)"
  shows "length (ts_sent result) \<le> 5 \<and> ts_sent result \<noteq> [] \<and> hd (ts_sent result) \<noteq> Strip
    \<and> ts_retries result \<le> 2 \<and> ran (ts_known result) \<subseteq> {DropBlock}"
proof -
  let ?b = "binding_for key has_thinking known"
  have "card (UNIV - set [?b]) = 2" "?b \<noteq> Strip"
    by (auto simp: binding_for_def binding_UNIV)
  then show ?thesis
    using assms send_loop_bounds [of 0 "\<lparr>ts_sent = [], ts_retries = 0, ts_binding = ?b, ts_known = known\<rparr>" result
        pj respond key has_thinking ?b "[?b]"]
    by (auto simp: send_request_def drop_block_only_def RETRIES_def Let_def)
qed

theorem model_call_is_bounded_witness:
  "length (ts_sent (snd (send_request (\<lambda>_. Inl []) (\<lambda>n b. Response 503 []) (1::nat) True Map.empty))) \<le> 5"
  using model_call_is_bounded [of Map.empty _ "\<lambda>_. Inl []" "\<lambda>n b. Response 503 []" "1::nat" True, OF _ refl]
  by simp

end
