(* ===== verification/Text_Calls.thy ===== *)
theory Text_Calls
  imports Stream_Call
begin

text \<open>
  \<open>src/text_calls.rs\<close>, the recogniser: the tool calls a model wrote in a reply's text instead of making
  them. Code and leaked reasoning are masked first; special-token markers then count anywhere, tag markers
  at a line's start with the structure that names a tool.

  Text is its UTF-8 bytes, and a position is a byte offset; a subslice of a text is one of its suffixes, so
  \<open>offset\<close> is a difference of lengths. serde_json's reading of the first value of a text is a parameter
  (\<open>parse_first\<close>).
\<close>

section \<open>Names\<close>

record text_call =
  tc_name :: "string option"

definition MAX_NAME :: nat where
  "MAX_NAME = 128"

definition is_name_char :: "char \<Rightarrow> bool" where
  "is_name_char c \<longleftrightarrow> is_ascii_alphanumeric c \<or> c \<in> {CHR ''_'', CHR ''.'', CHR '':'', CHR ''-''}"

definition name_at :: "string \<Rightarrow> string" where
  "name_at s = takeWhile is_name_char s"

definition checked :: "string \<Rightarrow> string option" where
  "checked name = (if name \<noteq> [] \<and> length name \<le> MAX_NAME \<and> list_all is_name_char name then Some name else None)"

definition named :: "string \<Rightarrow> text_call" where
  "named name = \<lparr>tc_name = checked name\<rparr>"

definition after_name :: "string \<Rightarrow> string" where
  "after_name s = drop (length (name_at s)) s"

section \<open>Special-token markers\<close>

definition BAR :: string where
  "BAR = [CHR 0xEF, CHR 0xBD, CHR 0x9C]"

definition LOW :: string where
  "LOW = [CHR 0xE2, CHR 0x96, CHR 0x81]"

definition read_mistral :: "string \<Rightarrow> text_call option" where
  "read_mistral s =
     (if name_at s \<noteq> [] \<and> (starts_with (after_name s) ''[ARGS]'' \<or> starts_with (after_name s) ''[CALL_ID]'')
      then Some (named (name_at s))
      else if starts_with s ''[{'' \<or> starts_with s ''{'' then Some \<lparr>tc_name = None\<rparr> else None)"

definition read_kimi :: "string \<Rightarrow> text_call option" where
  "read_kimi s =
     (if starts_with (after_name s) ''<|tool_call_argument_begin|>'' then
        (let i = name_at s;
             i = (case strip_prefix ''functions.'' i of Some rest \<Rightarrow> rest | None \<Rightarrow> i)
         in case rsplit_once_char (CHR '':'') i of
              Some (name, n) \<Rightarrow> Some (named (if list_all is_ascii_digit n then name else i))
            | None \<Rightarrow> Some (named i))
      else None)"

definition read_deepseek :: "string \<Rightarrow> text_call option" where
  "read_deepseek s =
     (case strip_prefix (''<'' @ BAR @ ''tool'' @ LOW @ ''sep'' @ BAR @ ''>'') (after_name s) of
        None \<Rightarrow> None
      | Some rest \<Rightarrow> Some (named (if name_at s = ''function'' then name_at rest else name_at s)))"

definition read_gemma :: "string \<Rightarrow> text_call option" where
  "read_gemma s = (if starts_with (after_name s) ''{'' then Some (named (name_at s)) else None)"

definition read_lfm2 :: "string \<Rightarrow> text_call option" where
  "read_lfm2 s =
     (case strip_prefix ''['' s of
        None \<Rightarrow> None
      | Some s \<Rightarrow> if starts_with (after_name s) ''('' then Some (named (name_at s)) else None)"

definition read_gpt_oss :: "string \<Rightarrow> text_call option" where
  "read_gpt_oss s =
     (if starts_with (after_name s) ''<|'' \<or> starts_with (after_name s) '' <|'' then Some (named (name_at s)) else None)"

definition SPECIAL_MARKERS :: "(string \<times> (string \<Rightarrow> text_call option)) list" where
  "SPECIAL_MARKERS =
     [(''[TOOL_CALLS]'', read_mistral),
      (''<|tool_call_begin|>'', read_kimi),
      (''<'' @ BAR @ ''tool'' @ LOW @ ''call'' @ LOW @ ''begin'' @ BAR @ ''>'', read_deepseek),
      (''<|tool_call>call:'', read_gemma),
      (''<|tool_call_start|>'', read_lfm2),
      (''to=functions.'', read_gpt_oss)]"

section \<open>Calls written with tags\<close>

definition tag_char :: "char \<Rightarrow> bool" where
  "tag_char c \<longleftrightarrow> is_ascii_alphanumeric c \<or> c = CHR ''_'' \<or> c = CHR ''-''"

definition tag :: "string \<Rightarrow> string option" where
  "tag s =
     (case strip_prefix ''<'' s of
        None \<Rightarrow> None
      | Some s \<Rightarrow>
          (if starts_with s ''/'' then None
           else
             (let bare = (case strip_prefix BAR s of Some b \<Rightarrow> b | None \<Rightarrow> s);
                  ns = length (takeWhile tag_char bare);
                  after = drop ns bare;
                  local = (case strip_prefix '':'' after of Some l \<Rightarrow> Some l | None \<Rightarrow> strip_prefix BAR after)
              in case local of
                   Some l \<Rightarrow> Some (if 0 < ns then l else s)
                 | None \<Rightarrow> Some s)))"

definition is_close :: "string \<Rightarrow> string \<Rightarrow> bool" where
  "is_close s local =
     (case strip_prefix ''</'' s of
        None \<Rightarrow> False
      | Some rest \<Rightarrow> (case tag (CHR ''<'' # rest) of None \<Rightarrow> False | Some l \<Rightarrow> starts_with l local))"

definition offset :: "string \<Rightarrow> string \<Rightarrow> nat" where
  "offset outer inner = length outer - length inner"

definition invoke :: "string \<Rightarrow> string \<Rightarrow> (text_call \<times> nat) option" where
  "invoke s local =
     (case strip_prefix ''invoke name=\"'' local of
        None \<Rightarrow> None
      | Some rest \<Rightarrow>
          (case split_once ''\"'' rest of
             None \<Rightarrow> None
           | Some (name, _) \<Rightarrow> Some (\<lparr>tc_name = checked name\<rparr>, offset s rest + length name)))"

definition json_name :: "(string \<Rightarrow> json option) \<Rightarrow> string \<Rightarrow> string option option" where
  "json_name parse_first s =
     (case parse_first s of
        Some value \<Rightarrow> Option.bind (get ''name'' value) (\<lambda>v. map_option checked (as_str v))
      | None \<Rightarrow>
          (let call = (case split_once ''</tool_call>'' s of Some (call, _) \<Rightarrow> call | None \<Rightarrow> s)
           in Option.bind (split_once ''\"name\"'' call) (\<lambda>(_, rest).
              Option.bind (strip_prefix '':'' (trim_start rest)) (\<lambda>rest.
              Option.bind (strip_prefix ''\"'' (trim_start rest)) (\<lambda>rest.
              Option.bind (split_once ''\"'' rest) (\<lambda>(name, _). Some (checked name)))))))"

definition tag_call :: "(string \<Rightarrow> json option) \<Rightarrow> string \<Rightarrow> (text_call \<times> nat) option" where
  "tag_call parse_first s =
     (case tag s of
        None \<Rightarrow> None
      | Some local \<Rightarrow>
          (case strip_prefix ''tool_call>'' local of
             Some after \<Rightarrow>
               (let glm = name_at after; tail = after_name after
                in if glm \<noteq> [] \<and> list_ex (starts_with tail) [[nl], [char_of (13::nat), nl], ''<arg_key>'', ''</tool_call>'']
                   then Some (named glm, offset s tail)
                   else
                     (let inner = trim_start after
                      in if starts_with inner ''{'' then
                           map_option (\<lambda>name. (\<lparr>tc_name = name\<rparr>, offset s inner + 1)) (json_name parse_first inner)
                         else
                           (case tag inner of
                              None \<Rightarrow> None
                            | Some inner_local \<Rightarrow>
                                (case strip_prefix ''function='' inner_local of
                                   Some rest \<Rightarrow> Some (named (name_at rest), offset s (after_name rest))
                                 | None \<Rightarrow> invoke s inner_local))))
           | None \<Rightarrow>
               (case strip_prefix ''function_calls>'' local of
                  Some after \<Rightarrow> Option.bind (tag (trim_start after)) (invoke s)
                | None \<Rightarrow>
                    (case strip_prefix ''function='' local of
                       Some rest \<Rightarrow>
                         (case strip_prefix ''>'' (after_name rest) of
                            None \<Rightarrow> None
                          | Some b \<Rightarrow>
                              (let body = trim_start b
                               in if starts_with body ''<parameter='' \<or> starts_with body ''{''
                                  then Some (named (name_at rest), offset s body) else None))
                     | None \<Rightarrow>
                         (if starts_with local ''invoke name=\"'' then
                            Option.bind (invoke s local) (\<lambda>(call, used).
                            Option.bind (split_once ''>'' (drop used s)) (\<lambda>(_, rest).
                              (let body = trim_start rest;
                                   param = (case tag body of None \<Rightarrow> False | Some l \<Rightarrow> starts_with l ''parameter name='')
                               in if param \<or> is_close body ''invoke>'' then Some (call, used) else None)))
                          else None)))))"

definition complete_tag_call :: "(string \<Rightarrow> json option) \<Rightarrow> string \<Rightarrow> bool" where
  "complete_tag_call parse_first s \<longleftrightarrow>
     starts_with s ''<'' \<and> tag_call parse_first s \<noteq> None
     \<and> list_ex (\<lambda>l. list_ex (is_close (trim_start l)) [''tool_call>'', ''function>'', ''function_calls>'', ''invoke>''])
         (drop 1 (str_lines s))"

section \<open>Leaked reasoning\<close>

abbreviation THINK :: string where "THINK \<equiv> ''<think>''"
abbreviation END_THINK :: string where "END_THINK \<equiv> ''</think>''"

definition find_at :: "string \<Rightarrow> string \<Rightarrow> nat option" where
  "find_at pat s = map_option (\<lambda>(before, _). length before) (split_once pat s)"

definition closing :: "string \<Rightarrow> nat \<Rightarrow> nat option" where
  "closing text open =
     (let after = open + length THINK
      in map_option (\<lambda>at. after + at + length END_THINK) (find_at END_THINK (drop after text)))"

definition next_line_start :: "string \<Rightarrow> nat \<Rightarrow> nat" where
  "next_line_start text from =
     (case find_at [nl] (drop from text) of None \<Rightarrow> length text | Some at \<Rightarrow> from + at + 1)"

lemma find_at_bound: "find_at pat s = Some at \<Longrightarrow> at + length pat \<le> length s"
  by (auto simp: find_at_def dest!: split_once_parts)

lemma closing_bounds: "closing text open = Some close \<Longrightarrow> open + 15 \<le> close \<and> close \<le> length text"
  by (auto simp: closing_def Let_def dest!: find_at_bound)

lemma next_line_start_bounds:
  "from < length text \<Longrightarrow> from < next_line_start text from" "from \<le> length text \<Longrightarrow> from \<le> next_line_start text from"
  "from \<le> length text \<Longrightarrow> next_line_start text from \<le> length text"
  by (auto simp: next_line_start_def split: option.splits dest!: find_at_bound)

text \<open>The pair straight after a close, with only spaces between.\<close>

definition next_pair :: "string \<Rightarrow> nat \<Rightarrow> (nat \<times> nat) option" where
  "next_pair text close =
     (let rest = drop close text;
          open = close + (length rest - length (trim_spaces rest))
      in if starts_with (drop open text) THINK then map_option (\<lambda>next. (open, next)) (closing text open) else None)"

lemma next_pair_bounds: "next_pair text close = Some (open, next) \<Longrightarrow> close \<le> open \<and> open + 15 \<le> next \<and> next \<le> length text"
  by (auto simp: next_pair_def Let_def split: if_splits dest!: closing_bounds)

function pairs_after :: "string \<Rightarrow> nat \<Rightarrow> (nat \<times> nat) list \<times> nat" where
  "pairs_after text close =
     (case next_pair text close of
        Some (open, next) \<Rightarrow> (let (ranges, start) = pairs_after text next in ((open, next) # ranges, start))
      | None \<Rightarrow> ([], next_line_start text close))"
  by pat_completeness auto
termination
  by (relation "measure (\<lambda>(text, close). length text - close)") (auto dest!: next_pair_bounds)

declare pairs_after.simps [simp del]

lemma pairs_after_bounds:
  "close \<le> length text \<Longrightarrow> close \<le> snd (pairs_after text close) \<and> snd (pairs_after text close) \<le> length text"
proof (induction "text" close rule: pairs_after.induct)
  case (1 t close)
  show ?case
  proof (cases "next_pair t close")
    case None
    then show ?thesis using 1(2) next_line_start_bounds by (simp add: pairs_after.simps [of t close])
  next
    case (Some p)
    obtain opn n where p: "next_pair t close = Some (opn, n)" using Some by (cases p) auto
    with 1(1) [OF p refl] next_pair_bounds [OF p] show ?thesis
      by (simp add: pairs_after.simps [of t close] case_prod_beta)
  qed
qed

fun opened_close :: "string \<Rightarrow> nat \<Rightarrow> string list \<Rightarrow> nat option" where
  "opened_close text start [] = None"
| "opened_close text start (line # lines) =
     (let body = trim_spaces line
      in if length line - length body \<le> 3 \<and> starts_with body END_THINK then
           (let at = start + length line - length body
            in if str_contains (take at text) THINK then None else Some (at + length END_THINK))
         else opened_close text (start + length line) lines)"

definition template_opened_close :: "string \<Rightarrow> nat option" where
  "template_opened_close text = opened_close text 0 (split_lines text)"

text \<open>The reasoning that opens at the start of the line at an offset.\<close>

definition think_at :: "string \<Rightarrow> nat \<Rightarrow> (nat \<times> nat) option" where
  "think_at text from =
     (let line_end = next_line_start text from;
          line = drop from (take line_end text);
          body = trim_spaces line;
          open = line_end - length body
      in if length line - length body \<le> 3 \<and> starts_with body THINK
         then map_option (\<lambda>close. (open, close)) (closing text open) else None)"

lemma length_trim_spaces: "length (trim_spaces s) \<le> length s"
  by (simp add: trim_spaces_def length_dropWhile_le)

lemma think_at_bounds:
  assumes "think_at text from = Some (open, close)" "from \<le> length text"
  shows "from \<le> open \<and> open + 15 \<le> close \<and> close \<le> length text"
proof -
  let ?e = "next_line_start text from"
  let ?body = "trim_spaces (drop from (take ?e text))"
  have "open = ?e - length ?body" "open + 15 \<le> close" "close \<le> length text"
    using assms(1) by (auto simp: think_at_def Let_def split: if_splits dest!: closing_bounds)
  moreover have "length ?body \<le> ?e - from"
    using length_trim_spaces [of "drop from (take ?e text)"] next_line_start_bounds(3) [OF assms(2)] by simp
  ultimately show ?thesis using next_line_start_bounds(2) [OF assms(2)] by simp
qed

function think_from :: "string \<Rightarrow> nat \<Rightarrow> (nat \<times> nat) list" where
  "think_from text from =
     (if length text \<le> from then []
      else case think_at text from of
             Some (open, close) \<Rightarrow>
               (let (ranges, next) = pairs_after text close in (open, close) # ranges @ think_from text next)
           | None \<Rightarrow> think_from text (next_line_start text from))"
  by pat_completeness auto
termination
proof (relation "measure (\<lambda>(text, from). length text - from)", goal_cases)
  case (2 t start)
  then show ?case using next_line_start_bounds [of start t] by (simp add: diff_less_mono2)
next
  case (3 t start p opn close)
  then show ?case
    using think_at_bounds [of t start opn close] pairs_after_bounds [of close t] by (cases "pairs_after t close") auto
qed simp

declare think_from.simps [simp del]

definition think_ranges :: "string \<Rightarrow> (nat \<times> nat) list" where
  "think_ranges text =
     (case template_opened_close text of
        Some close \<Rightarrow> (let (ranges, from) = pairs_after text close in (0, close) # ranges @ think_from text from)
      | None \<Rightarrow> think_from text 0)"

section \<open>Masking\<close>

text \<open>Blanking a range of bytes keeps its line feeds. Reading the masked bytes as a text again panics unless they are UTF-8.\<close>

definition blank :: "string \<Rightarrow> nat \<times> nat \<Rightarrow> string" where
  "blank out = (\<lambda>(a, b). take a out @ map (\<lambda>c. if c = nl then nl else CHR '' '') (drop a (take b out)) @ drop b out)"

definition from_utf8 :: "string \<Rightarrow> string option" where
  "from_utf8 out = (if valid_utf8 out then Some out else None)"

definition mask_think :: "string \<Rightarrow> string option" where
  "mask_think text = from_utf8 (foldl blank text (think_ranges text))"

definition run_of :: "char \<Rightarrow> string \<Rightarrow> nat" where
  "run_of c s = length (takeWhile (\<lambda>d. d = c) s)"

abbreviation run_at :: "string \<Rightarrow> nat \<Rightarrow> nat" where
  "run_at text i \<equiv> run_of (CHR ''`'') (drop i text)"

lemma run_at_pos: "i < length text \<Longrightarrow> text ! i = CHR ''`'' \<Longrightarrow> 0 < run_at text i"
  by (simp add: run_of_def Cons_nth_drop_Suc [symmetric])

lemma run_at_bound: "i \<le> length text \<Longrightarrow> i + run_at text i \<le> length text"
  using length_takeWhile_le [of _ "drop i text"] by (simp add: run_of_def le_diff_conv2 add.commute)

function close_run :: "string \<Rightarrow> nat \<Rightarrow> nat \<Rightarrow> nat option" where
  "close_run text open j =
     (if length text \<le> j then None
      else if text ! j = CHR ''`'' then
        (let n = run_at text j in if n = open then Some (j + n) else close_run text open (j + n))
      else close_run text open (j + 1))"
  by pat_completeness auto
termination
  by (relation "measure (\<lambda>(text, open, j). length text - j)") (auto simp: run_at_pos diff_less_mono2)

declare close_run.simps [simp del]

lemma close_run_bounds:
  "close_run text opn j = Some e \<Longrightarrow> 0 < opn \<Longrightarrow> j < e \<and> e \<le> length text \<and> text ! (e - 1) = CHR ''`''"
proof (induction "text" opn j rule: close_run.induct)
  case (1 t opn j)
  consider (over) "length t \<le> j" | (other) "j < length t" "t ! j \<noteq> CHR ''`''"
    | (same) "j < length t" "t ! j = CHR ''`''" "run_at t j = opn"
    | (longer) "j < length t" "t ! j = CHR ''`''" "run_at t j \<noteq> opn"
    by linarith
  then show ?case
  proof cases
    case same
    have "takeWhile (\<lambda>d. d = CHR ''`'') (drop j t) ! (opn - 1) = CHR ''`''"
      using same(3) 1(4) by (metis (full_types) diff_less nth_mem run_of_def set_takeWhileD zero_less_one)
    moreover have "takeWhile (\<lambda>d. d = CHR ''`'') (drop j t) ! (opn - 1) = t ! (j + opn - 1)"
      using same(3) 1(4) same(1) by (subst takeWhile_nth) (auto simp: run_of_def)
    ultimately show ?thesis
      using same 1(3,4) run_at_bound [of j t] by (simp add: close_run.simps [of t opn j])
  qed (use 1 run_at_pos [of j t] in \<open>auto simp: close_run.simps [of t opn j]\<close>)
qed

function spans_from :: "string \<Rightarrow> nat \<Rightarrow> (nat \<times> nat) list" where
  "spans_from text i =
     (if length text \<le> i then []
      else if text ! i \<noteq> CHR ''`'' then spans_from text (i + 1)
      else
        (let open = run_at text i
         in case close_run text open (i + open) of
              Some close \<Rightarrow> (i, close) # spans_from text close
            | None \<Rightarrow> spans_from text (i + open)))"
  by pat_completeness auto
termination
  by (relation "measure (\<lambda>(text, i). length text - i)")
     (auto simp: run_at_pos diff_less_mono2 dest!: close_run_bounds)

declare spans_from.simps [simp del]

definition code_spans :: "string \<Rightarrow> (nat \<times> nat) list" where
  "code_spans text = spans_from text 0"

record mask =
  mk_out :: string
  mk_fence :: "(char \<times> nat) option"
  mk_paragraph :: "nat option"
  mk_start :: nat

abbreviation shifted :: "nat \<Rightarrow> nat \<times> nat \<Rightarrow> nat \<times> nat" where
  "shifted para \<equiv> map_prod ((+) para) ((+) para)"

definition indent_of :: "string \<Rightarrow> nat" where
  "indent_of line =
     sum_list (map (\<lambda>c. if c = CHR 0x09 then 4 else 1) (takeWhile (\<lambda>c. c = CHR '' '' \<or> c = CHR 0x09) line))"

definition line_body :: "string \<Rightarrow> string" where
  "line_body line = dropWhile (\<lambda>c. c = CHR '' '' \<or> c = CHR 0x09) line"

definition end_paragraph :: "string \<Rightarrow> nat \<Rightarrow> mask \<Rightarrow> mask" where
  "end_paragraph text stop st =
     (case mk_paragraph st of
        None \<Rightarrow> st
      | Some para \<Rightarrow>
          st\<lparr>mk_out := foldl blank (mk_out st) (map (shifted para) (code_spans (drop para (take stop text)))),
             mk_paragraph := None\<rparr>)"

definition mask_line :: "(string \<Rightarrow> json option) \<Rightarrow> string \<Rightarrow> mask \<Rightarrow> string \<Rightarrow> mask" where
  "mask_line parse_first text st line =
     (let start = mk_start st; stop = start + length line; indent = indent_of line; body = line_body line;
          call = (mk_fence st = None \<and> indent \<le> 3 \<and> complete_tag_call parse_first (drop (stop - length body) text));
          plain = (mk_fence st = None \<and> indent \<le> 3 \<and> run_of (CHR ''`'') body < 3 \<and> run_of (CHR ''~'') body < 3
                   \<and> \<not> starts_with body ''>'' \<and> str_trim body \<noteq> [] \<and> \<not> call);
          st = (if plain then st else end_paragraph text start st);
          blanked = st\<lparr>mk_out := blank (mk_out st) (start, stop), mk_start := stop\<rparr>
      in case mk_fence st of
           Some (ch, len) \<Rightarrow>
             (if indent \<le> 3 \<and> len \<le> run_of ch body \<and> str_trim (dropWhile (\<lambda>c. c = ch) body) = []
              then blanked\<lparr>mk_fence := None\<rparr> else blanked)
         | None \<Rightarrow>
             (if indent \<le> 3 \<and> (3 \<le> run_of (CHR ''`'') body \<or> 3 \<le> run_of (CHR ''~'') body) then
                (let ch = (if 3 \<le> run_of (CHR ''`'') body then CHR ''`'' else CHR ''~'')
                 in blanked\<lparr>mk_fence := Some (ch, run_of ch body)\<rparr>)
              else if 4 \<le> indent \<or> starts_with body ''>'' then blanked
              else if plain \<and> mk_paragraph st = None then st\<lparr>mk_paragraph := Some start, mk_start := stop\<rparr>
              else st\<lparr>mk_start := stop\<rparr>))"

definition mask_code :: "(string \<Rightarrow> json option) \<Rightarrow> string \<Rightarrow> string option" where
  "mask_code parse_first text =
     (let st = \<lparr>mk_out = foldl blank text (think_ranges text), mk_fence = None, mk_paragraph = None, mk_start = 0\<rparr>;
          st = foldl (mask_line parse_first text) st (split_lines text)
      in from_utf8 (mk_out (end_paragraph text (length text) st)))"

section \<open>Finding the calls\<close>

record scan =
  sc_found :: "(nat \<times> text_call) list"
  sc_consumed :: nat
  sc_start :: nat

definition special_calls :: "string \<Rightarrow> nat \<Rightarrow> string \<Rightarrow> (nat \<times> text_call) list" where
  "special_calls text start line =
     concat (map (\<lambda>(marker, read).
       List.map_filter (\<lambda>at. map_option (Pair (start + at)) (read (drop (start + at + length marker) text)))
         (matches_from marker 0 line)) SPECIAL_MARKERS)"

definition scan_line :: "(string \<Rightarrow> json option) \<Rightarrow> string \<Rightarrow> scan \<Rightarrow> string \<Rightarrow> scan" where
  "scan_line parse_first text sc line =
     (let start = sc_start sc; stop = start + length line;
          sc = sc\<lparr>sc_found := sc_found sc @ special_calls text start line, sc_start := stop\<rparr>;
          written = drop start (take stop text);
          indent = length written - length (trim_spaces written);
          at = start + indent
      in if sc_consumed sc \<le> start \<and> indent \<le> 3 \<and> starts_with (drop indent line) ''<'' then
           (case tag_call parse_first (drop at text) of
              Some (call, used) \<Rightarrow> sc\<lparr>sc_found := sc_found sc @ [(at, call)], sc_consumed := at + used\<rparr>
            | None \<Rightarrow> sc)
         else sc)"

definition found_calls :: "(string \<Rightarrow> json option) \<Rightarrow> string \<Rightarrow> (nat \<times> text_call) list option" where
  "found_calls parse_first text =
     map_option
       (\<lambda>masked. sort_key fst (sc_found (foldl (scan_line parse_first text) \<lparr>sc_found = [], sc_consumed = 0, sc_start = 0\<rparr>
          (split_lines masked))))
       (mask_code parse_first text)"

definition find_calls :: "(string \<Rightarrow> json option) \<Rightarrow> string \<Rightarrow> text_call list option" where
  "find_calls parse_first text = map_option (map snd) (found_calls parse_first text)"

section \<open>What masking keeps\<close>

definition masked_of :: "string \<Rightarrow> string \<Rightarrow> bool" where
  "masked_of text out \<longleftrightarrow>
     list_all2 (\<lambda>c d. d = c \<or> c \<noteq> nl \<and> d = CHR '' '') text out
     \<and> valid_utf8 out \<and> (\<forall>i. char_cut text i \<longrightarrow> valid_utf8 (take i out))"

definition range_ok :: "string \<Rightarrow> nat \<times> nat \<Rightarrow> bool" where
  "range_ok text = (\<lambda>(a, b). a \<le> b \<and> b \<le> length text \<and> char_cut text a \<and> char_cut text b)"

lemma masked_of_refl: "valid_utf8 text \<Longrightarrow> masked_of text text"
  by (simp add: masked_of_def list_all2_refl valid_utf8_cut)

lemma length_blank [simp]: "a \<le> b \<Longrightarrow> b \<le> length out \<Longrightarrow> length (blank out (a, b)) = length out"
  by (simp add: blank_def)

lemma nth_blank:
  "a \<le> b \<Longrightarrow> b \<le> length out \<Longrightarrow> i < length out \<Longrightarrow>
   blank out (a, b) ! i = (if a \<le> i \<and> i < b \<and> out ! i \<noteq> nl then CHR '' '' else out ! i)"
  by (auto simp: blank_def nth_append min_def)

lemma valid_utf8_blanked: "valid_utf8 (map (\<lambda>c. if c = nl then nl else CHR '' '') s)"
  by (rule valid_utf8_ascii) (auto simp: list_all_iff nl_def)

lemma valid_utf8_take_blank:
  assumes "a \<le> b" "b \<le> length out" "valid_utf8 (take a out)" "valid_utf8 (take b out)" "valid_utf8 (take i out)"
  shows "valid_utf8 (take i (blank out (a, b)))"
proof -
  let ?mid = "\<lambda>s. map (\<lambda>c. if c = nl then nl else CHR '' '') s"
  consider "i \<le> a" | "a < i" "i < b" | "b \<le> i" by linarith
  then show ?thesis
  proof cases
    case 1
    then show ?thesis using assms by (simp add: blank_def)
  next
    case 2
    then have "take i (blank out (a, b)) = take a out @ ?mid (take (i - a) (drop a (take b out)))"
      using assms by (simp add: blank_def take_map)
    then show ?thesis using assms(3) by (simp add: valid_utf8_append valid_utf8_blanked)
  next
    case 3
    have "take i out = take b out @ take (i - b) (drop b out)"
      using 3 assms(1,2) by (metis add_diff_inverse_nat append_take_drop_id drop_take linorder_not_le take_add)
    then have "valid_utf8 (take (i - b) (drop b out))" using assms(4,5) by (simp add: valid_utf8_append)
    moreover have "take i (blank out (a, b)) = take a out @ ?mid (drop a (take b out)) @ take (i - b) (drop b out)"
      using 3 assms by (simp add: blank_def)
    ultimately show ?thesis using assms(3) by (simp add: valid_utf8_append valid_utf8_blanked)
  qed
qed

lemma masked_of_blank:
  assumes "masked_of text out" "range_ok text r"
  shows "masked_of text (blank out r)"
proof -
  obtain a b where r: "r = (a, b)" "a \<le> b" "b \<le> length text" "char_cut text a" "char_cut text b"
    using assms(2) by (cases r) (auto simp: range_ok_def)
  have len: "length out = length text" using assms(1) by (auto simp: masked_of_def dest: list_all2_lengthD)
  have valid: "valid_utf8 (take i (blank out r))" if "char_cut text i" for i
    using assms(1) r that len by (auto simp: masked_of_def intro: valid_utf8_take_blank)
  moreover have "valid_utf8 (blank out r)"
    using valid [of "length text"] r(1-3) len by (simp add: char_cut_def)
  moreover have "list_all2 (\<lambda>c d. d = c \<or> c \<noteq> nl \<and> d = CHR '' '') text (blank out r)"
  proof (rule list_all2_all_nthI)
    show "length text = length (blank out r)" using r len by simp
    fix i
    assume i: "i < length text"
    have "out ! i = text ! i \<or> text ! i \<noteq> nl \<and> out ! i = CHR '' ''"
      using assms(1) i list_all2_nthD by (fastforce simp: masked_of_def)
    then show "blank out r ! i = text ! i \<or> text ! i \<noteq> nl \<and> blank out r ! i = CHR '' ''"
      using i r(1-3) len by (auto simp: nth_blank)
  qed
  ultimately show ?thesis by (simp add: masked_of_def)
qed

lemma masked_of_blanks:
  "masked_of text out \<Longrightarrow> list_all (range_ok text) rs \<Longrightarrow> masked_of text (foldl blank out rs)"
  by (induction rs arbitrary: out) (simp_all add: masked_of_blank)

lemma char_cut_at: "i < length s \<Longrightarrow> is_ascii (s ! i) \<Longrightarrow> char_cut s i"
  by (simp add: char_cut_def)

lemma char_cut_after: "0 < i \<Longrightarrow> i \<le> length s \<Longrightarrow> is_ascii (s ! (i - 1)) \<Longrightarrow> char_cut s i"
  by (auto simp: char_cut_def)

lemma find_at_parts: "find_at pat s = Some at \<Longrightarrow> \<exists>before after. s = before @ pat @ after \<and> length before = at"
  by (auto simp: find_at_def dest!: split_once_parts)

lemma closing_cut:
  assumes "closing text opn = Some close"
  shows "char_cut text close"
proof -
  have len: "length THINK = 7" "length END_THINK = 8" by simp_all
  obtain at where at': "find_at END_THINK (drop (opn + length THINK) text) = Some at"
      "close = opn + length THINK + at + length END_THINK"
    using assms unfolding closing_def Let_def map_option_eq_Some by blast
  note "at" = at' [unfolded len]
  then obtain before after where parts: "drop (opn + 7) text = before @ END_THINK @ after" "length before = at"
    using find_at_parts by blast
  have "opn + 7 + (at + 7) < length text" using find_at_bound [OF "at"(1)] by simp
  then have "text ! (close - 1) = drop (opn + 7) text ! (at + 7)" using "at"(2) by simp
  also have "\<dots> = CHR ''>''" by (simp add: parts nth_append flip: parts(2))
  finally show ?thesis
    using closing_bounds [OF assms] by (intro char_cut_after) simp_all
qed

lemma starts_with_first: "starts_with (drop i s) (c # p) \<Longrightarrow> i < length s \<and> s ! i = c"
  by (cases "i < length s") (auto simp: starts_with_def Cons_nth_drop_Suc [symmetric] split: if_splits)

lemma range_ok_think:
  assumes "starts_with (drop opn text) THINK" "closing text opn = Some close"
  shows "range_ok text (opn, close)"
  using assms starts_with_first [of opn "text" "CHR ''<''" "''think>''"] closing_bounds [OF assms(2)] closing_cut [OF assms(2)]
  by (auto simp: range_ok_def intro: char_cut_at)

lemma next_pair_range: "next_pair text close = Some r \<Longrightarrow> range_ok text r"
  by (auto simp: next_pair_def Let_def intro!: range_ok_think split: if_splits)

lemma pairs_after_ranges: "list_all (range_ok text) (fst (pairs_after text close))"
proof (induction "text" close rule: pairs_after.induct)
  case (1 t close)
  then show ?case
    by (simp add: pairs_after.simps [of t close] case_prod_beta next_pair_range split: option.split)
qed

lemma think_at_range:
  assumes "think_at text start = Some r" "start \<le> length text"
  shows "range_ok text r"
proof -
  let ?stop = "next_line_start text start"
  let ?body = "trim_spaces (drop start (take ?stop text))"
  let ?opn = "?stop - length ?body"
  obtain close where r: "starts_with ?body THINK" "closing text ?opn = Some close" "r = (?opn, close)"
    using assms(1) by (auto simp: think_at_def Let_def split: if_splits)
  have stop: "start \<le> ?stop" "?stop \<le> length text" using assms(2) next_line_start_bounds by auto
  have "?body = drop ?opn (take ?stop text)"
    using stop length_takeWhile_le [of "\<lambda>c. c = CHR '' ''" "drop start (take ?stop text)"]
    by (simp add: trim_spaces_def dropWhile_eq_drop)
  moreover have "drop ?opn text = drop ?opn (take ?stop text) @ drop ?stop text"
    using drop_append [of ?opn "take ?stop text" "drop ?stop text"] stop(2) by simp
  ultimately have "drop ?opn text = ?body @ drop ?stop text" by metis
  then have "starts_with (drop ?opn text) THINK" using r(1) unfolding starts_with_iff by (metis append.assoc)
  then show ?thesis unfolding r(3) by (rule range_ok_think [OF _ r(2)])
qed

lemma think_from_ranges: "list_all (range_ok text) (think_from text start)"
proof (induction "text" start rule: think_from.induct)
  case (1 t start)
  then show ?case
    using pairs_after_ranges [of t "snd (the (think_at t start))"]
    by (cases "think_at t start"; cases "pairs_after t (snd (the (think_at t start)))")
       (auto simp: think_from.simps [of t start] think_at_range split: prod.splits)
qed

lemma opened_close_range:
  "opened_close text start lines = Some close \<Longrightarrow> text = pre @ concat lines \<Longrightarrow> length pre = start \<Longrightarrow>
   range_ok text (0, close)"
proof (induction "text" start lines arbitrary: pre rule: opened_close.induct)
  case (2 t start line ls)
  let ?body = "trim_spaces line"
  let ?at = "start + length line - length ?body"
  show ?case
  proof (cases "length line - length ?body \<le> 3 \<and> starts_with ?body END_THINK")
    case True
    then have close: "close = ?at + 8" using 2(2) by (auto simp: Let_def split: if_splits)
    obtain sp where sp: "line = sp @ ?body" by (metis takeWhile_dropWhile_id trim_spaces_def)
    obtain r where r: "?body = END_THINK @ r" using True by (auto simp: starts_with_iff)
    have "?at = length (pre @ sp)" using sp 2(4) by (metis add_diff_cancel_right' length_append add.assoc)
    moreover have t: "t = (pre @ sp) @ END_THINK @ r @ concat ls" using 2(3) sp r by simp
    ultimately have "t ! (close - 1) = CHR ''>''" "close \<le> length t"
      using close by (simp_all add: nth_append)
    then show ?thesis
      using close by (auto simp: range_ok_def char_cut_def[of _ 0] intro!: char_cut_after)
  next
    case False
    then show ?thesis using 2(1) [OF refl, of "pre @ line"] 2(2-4) by (auto simp: Let_def split: if_splits)
  qed
qed simp

lemma think_ranges_ok: "list_all (range_ok text) (think_ranges text)"
  using pairs_after_ranges [of "text" "the (template_opened_close text)"] think_from_ranges [of "text"]
    opened_close_range [of "text" 0 "split_lines text" _ "[]"]
  by (auto simp: think_ranges_def template_opened_close_def split: option.split prod.split)

lemma spans_from_ok: "list_all (\<lambda>(a, b). a < b \<and> b \<le> length t \<and> t ! a = CHR ''`'' \<and> t ! (b - 1) = CHR ''`'') (spans_from t i)"
proof (induction t i rule: spans_from.induct)
  case (1 t i)
  then show ?case
    using close_run_bounds [of t "run_at t i" "i + run_at t i"] run_at_pos [of i t]
    by (cases "close_run t (run_at t i) (i + run_at t i)") (auto simp: spans_from.simps [of t i] Let_def not_le)
qed

lemma code_spans_ok:
  assumes "para \<le> stop" "stop \<le> length text"
  shows "list_all (range_ok text) (map (shifted para) (code_spans (drop para (take stop text))))"
proof -
  let ?t = "drop para (take stop text)"
  have "range_ok text (para + a, para + b)"
    if "a < b" "b \<le> length ?t" "?t ! a = CHR ''`''" "?t ! (b - 1) = CHR ''`''" for a b
    using that assms char_cut_at [of "para + a" "text"] char_cut_after [of "para + b" "text"]
    by (auto simp: range_ok_def add.commute)
  then show ?thesis
    using spans_from_ok [of ?t 0] by (auto simp: code_spans_def list_all_iff)
qed

lemma line_start_cut:
  assumes "split_lines text = pre @ post"
  shows "char_cut text (length (concat pre))"
proof (cases "pre = [] \<or> post = []")
  case True
  then show ?thesis using assms concat_split_lines [of "text"] by (auto simp: char_cut_def)
next
  case False
  then obtain pre' l where pre: "pre = pre' @ [l]" by (metis rev_exhaust)
  have l: "l \<noteq> []" "last l = nl"
    using split_lines_ends [of "text" pre' l post] assms pre False by auto
  have t: "text = concat pre' @ l @ concat post" using concat_split_lines [of "text"] assms pre by simp
  have "text ! (length (concat pre) - 1) = last l"
    using l(1) by (cases l rule: rev_cases) (simp_all add: t pre nth_append)
  moreover have "0 < length (concat pre)" "length (concat pre) \<le> length text" using l(1) by (simp_all add: t pre)
  ultimately show ?thesis using l(2) by (intro char_cut_after) (simp_all add: nl_def)
qed

lemma masked_of_end_paragraph:
  assumes "masked_of text (mk_out st)" "stop \<le> length text" "\<And>para. mk_paragraph st = Some para \<Longrightarrow> para \<le> stop"
  shows "masked_of text (mk_out (end_paragraph text stop st))" "mk_start (end_paragraph text stop st) = mk_start st"
    "mk_paragraph (end_paragraph text stop st) = None" "mk_fence (end_paragraph text stop st) = mk_fence st"
  using assms masked_of_blanks [OF assms(1) code_spans_ok]
  by (auto simp: end_paragraph_def split: option.split)

definition mask_ok :: "string \<Rightarrow> mask \<Rightarrow> bool" where
  "mask_ok text st \<longleftrightarrow> masked_of text (mk_out st) \<and> (\<forall>para. mk_paragraph st = Some para \<longrightarrow> para \<le> mk_start st)"

lemma mask_line_ok:
  assumes "mask_ok text st" "range_ok text (mk_start st, mk_start st + length line)"
  shows "mask_ok text (mask_line p text st line) \<and> mk_start (mask_line p text st line) = mk_start st + length line"
proof -
  let ?stop = "mk_start st + length line"
  let ?ended = "end_paragraph text (mk_start st) st"
  define here where "here s \<longleftrightarrow> mask_ok text s \<and> mk_start s = mk_start st" for s
  define past where "past s \<longleftrightarrow> mask_ok text s \<and> mk_start s = ?stop" for s
  have st: "here st" using assms(1) by (simp add: here_def)
  have ended: "here ?ended"
    using assms masked_of_end_paragraph [of "text" st "mk_start st"] by (auto simp: mask_ok_def here_def range_ok_def)
  have cond: "P a \<Longrightarrow> P b \<Longrightarrow> P (if c then a else b)" for P :: "mask \<Rightarrow> bool" and a b c
    by simp
  have fence: "past a \<Longrightarrow> (\<And>ch len. past (b ch len)) \<Longrightarrow> past (case f of None \<Rightarrow> a | Some (ch, len) \<Rightarrow> b ch len)"
    for a b and f :: "(char \<times> nat) option" by (simp split: option.split prod.split)
  have blanked: "here s \<Longrightarrow> past (s\<lparr>mk_out := blank (mk_out s) (mk_start st, ?stop), mk_start := ?stop\<rparr>)" for s
    using masked_of_blank [OF _ assms(2), of "mk_out s"] by (auto simp: mask_ok_def here_def past_def)
  have fenced: "past s \<Longrightarrow> past (s\<lparr>mk_fence := f\<rparr>)" for s f by (auto simp: mask_ok_def past_def)
  have kept: "here s \<Longrightarrow> past (s\<lparr>mk_start := ?stop\<rparr>)" for s
    by (auto simp: mask_ok_def here_def past_def)
  have opened: "here s \<Longrightarrow> past (s\<lparr>mk_paragraph := Some (mk_start st), mk_start := ?stop\<rparr>)" for s
    by (simp add: mask_ok_def here_def past_def)
  have "past (mask_line p text st line)"
    unfolding mask_line_def Let_def
    by (intro fence cond [of "past"] fenced blanked opened kept cond [of here] st ended)
  then show ?thesis by (simp add: past_def)
qed

lemma mask_lines_ok:
  assumes "split_lines text = pre @ post" "mask_ok text st" "mk_start st = length (concat pre)"
  shows "mask_ok text (foldl (mask_line p text) st post) \<and> mk_start (foldl (mask_line p text) st post) = length text"
  using assms
proof (induction post arbitrary: pre st)
  case Nil
  then show ?case using concat_split_lines [of "text"] by simp
next
  case (Cons line post)
  have "length (concat (pre @ [line])) \<le> length text"
    using Cons.prems(1) concat_split_lines [of "text"] by (metis append.assoc append_Cons append_Nil concat_append le_add1 length_append)
  then have "range_ok text (mk_start st, mk_start st + length line)"
    using line_start_cut [of "text" pre "line # post"] line_start_cut [of "text" "pre @ [line]" post] Cons.prems
    by (simp add: range_ok_def)
  from mask_line_ok [OF Cons.prems(2) this] show ?case
    using Cons.IH [of "pre @ [line]" "mask_line p text st line"] Cons.prems by simp
qed

lemma masking_ok:
  assumes "valid_utf8 text"
  shows "\<exists>masked. mask_think text = Some masked \<and> masked_of text masked"
    "\<exists>masked. mask_code parse_first text = Some masked \<and> masked_of text masked"
proof -
  let ?think = "foldl blank text (think_ranges text)"
  let ?st = "\<lparr>mk_out = ?think, mk_fence = None, mk_paragraph = None, mk_start = 0\<rparr>"
  let ?final = "foldl (mask_line parse_first text) ?st (split_lines text)"
  have think: "masked_of text ?think"
    using masked_of_blanks [OF masked_of_refl [OF assms] think_ranges_ok] .
  then show "\<exists>masked. mask_think text = Some masked \<and> masked_of text masked"
    by (simp add: mask_think_def from_utf8_def masked_of_def)
  have "mask_ok text ?st" using think by (simp add: mask_ok_def)
  then have fin: "mask_ok text ?final \<and> mk_start ?final = length text"
    by (intro mask_lines_ok [of "text" "[]" "split_lines text" ?st parse_first]) simp_all
  have "masked_of text (mk_out (end_paragraph text (length text) ?final))"
  proof (rule masked_of_end_paragraph(1))
    show "masked_of text (mk_out ?final)" using fin by (simp only: mask_ok_def)
    show "para \<le> length text" if "mk_paragraph ?final = Some para" for para
      using fin that unfolding mask_ok_def by metis
  qed simp
  then show "\<exists>masked. mask_code parse_first text = Some masked \<and> masked_of text masked"
    by (simp add: mask_code_def from_utf8_def masked_of_def Let_def)
qed

text \<open>
  Masking a reply's code and leaked reasoning never panics, whatever the reply and whatever the JSON
  reader makes of its calls: every range blanked starts and ends between characters, so the masked bytes are
  UTF-8. The masked text has the reply's length, each of its bytes is the reply's own or a space, and every
  line feed stays, so offsets and lines of the masked text are the reply's.
\<close>

theorem masking_keeps_the_text:
  assumes "valid_utf8 text"
  shows "(\<exists>masked. mask_think text = Some masked \<and> list_all2 (\<lambda>c d. d = c \<or> c \<noteq> nl \<and> d = CHR '' '') text masked)
    \<and> (\<exists>masked. mask_code parse_first text = Some masked \<and> list_all2 (\<lambda>c d. d = c \<or> c \<noteq> nl \<and> d = CHR '' '') text masked)"
  using masking_ok(1) [OF assms] masking_ok(2) [OF assms, of parse_first] unfolding masked_of_def by blast

theorem masking_keeps_the_text_witness:
  "mask_code (\<lambda>_. None) (''a `b` '' @ BAR @ [nl, CHR ''>'', CHR ''c'']) = Some (''a     '' @ BAR @ [nl, CHR '' '', CHR '' ''])
   \<and> (\<exists>masked. mask_think (''a `b` '' @ BAR @ [nl, CHR ''>'', CHR ''c'']) = Some masked
        \<and> list_all2 (\<lambda>c d. d = c \<or> c \<noteq> nl \<and> d = CHR '' '') (''a `b` '' @ BAR @ [nl, CHR ''>'', CHR ''c'']) masked)"
proof -
  have "valid_utf8 (''a `b` '' @ BAR @ [nl, CHR ''>'', CHR ''c''])" by code_simp
  moreover have "mask_code (\<lambda>_. None) (''a `b` '' @ BAR @ [nl, CHR ''>'', CHR ''c'']) = Some (''a     '' @ BAR @ [nl, CHR '' '', CHR '' ''])"
    by code_simp
  ultimately show ?thesis using masking_keeps_the_text by blast
qed

section \<open>Where calls are found\<close>

lemma masked_of_nth:
  assumes "masked_of text out"
  shows "length out = length text" "i < length text \<Longrightarrow> out ! i \<noteq> CHR '' '' \<Longrightarrow> text ! i = out ! i"
proof -
  have "list_all2 (\<lambda>c d. d = c \<or> c \<noteq> nl \<and> d = CHR '' '') text out" using assms by (simp add: masked_of_def)
  then show "length out = length text" "i < length text \<Longrightarrow> out ! i \<noteq> CHR '' '' \<Longrightarrow> text ! i = out ! i"
    by (auto simp: list_all2_conv_all_nth)
qed

definition starts_call :: "string \<Rightarrow> nat \<times> text_call \<Rightarrow> bool" where
  "starts_call masked = (\<lambda>(at, _). at < length masked \<and> masked ! at \<in> set ''[<t'')"

lemma special_calls_ok:
  assumes "masked = pre @ line @ post" "(at, call) \<in> set (special_calls text (length pre) line)"
  shows "starts_call masked (at, call)"
proof -
  obtain marker off where m: "marker \<in> fst ` set SPECIAL_MARKERS" "off \<in> set (matches_from marker 0 line)" "at = length pre + off"
    using assms(2) by (fastforce simp: special_calls_def map_filter_def)
  obtain p r where line: "line = p @ marker @ r" "off = length p" using matches_sound [OF m(2)] by auto
  have "marker \<noteq> []" "hd marker \<in> set ''[<t''" using m(1) by (auto simp: SPECIAL_MARKERS_def)
  moreover have "masked ! at = hd marker" "at < length masked"
    using line m(3) \<open>marker \<noteq> []\<close> by (simp_all add: assms(1) nth_append hd_conv_nth)
  ultimately show ?thesis by (simp add: starts_call_def)
qed

lemma scan_line_ok:
  assumes "masked = pre @ line @ post" "sc_start sc = length pre" "list_all (starts_call masked) (sc_found sc)"
  shows "list_all (starts_call masked) (sc_found (scan_line p text sc line))
    \<and> sc_start (scan_line p text sc line) = length (pre @ line)"
proof -
  have special: "list_all (starts_call masked) (sc_found sc @ special_calls text (length pre) line)"
    using assms(3) special_calls_ok [OF assms(1)] by (auto simp: list_all_iff)
  have tagged: "starts_call masked (length pre + i, call)" if "starts_with (drop i line) ''<''" for i call
    using starts_with_first [OF that] by (simp add: starts_call_def assms(1) nth_append)
  show ?thesis
    using special tagged assms(2) unfolding scan_line_def Let_def
    by (simp split: option.split prod.split)
qed

lemma scan_lines_ok:
  assumes "masked = pre @ concat lines" "sc_start sc = length pre" "list_all (starts_call masked) (sc_found sc)"
  shows "list_all (starts_call masked) (sc_found (foldl (scan_line p text) sc lines))"
  using assms
proof (induction lines arbitrary: pre sc)
  case (Cons line lines)
  have "masked = pre @ line @ concat lines" using Cons.prems(1) by simp
  from scan_line_ok [OF this Cons.prems(2,3)] Cons.IH [of "pre @ line"] Cons.prems(1) show ?case by simp
qed simp

text \<open>
  A call is only found where the reply's own text, outside its code and leaked reasoning, has one: at each
  found offset the masked text still has the reply's byte, which starts a marker (a bracket, an angle
  bracket or the \<open>to=\<close> of a header). The calls come in the order they are written, and looking for
  them never panics.
\<close>

theorem calls_are_found_outside_code:
  assumes "valid_utf8 text"
  shows "\<exists>masked found. mask_code parse_first text = Some masked \<and> found_calls parse_first text = Some found
    \<and> sorted (map fst found)
    \<and> (\<forall>(at, call) \<in> set found. at < length text \<and> masked ! at = text ! at \<and> text ! at \<in> set ''[<t'')"
proof -
  obtain masked where masked: "mask_code parse_first text = Some masked" "masked_of text masked"
    using masking_ok(2) [OF assms] by blast
  let ?scanned = "foldl (scan_line parse_first text) \<lparr>sc_found = [], sc_consumed = 0, sc_start = 0\<rparr> (split_lines masked)"
  let ?found = "sort_key fst (sc_found ?scanned)"
  have "list_all (starts_call masked) (sc_found ?scanned)"
    by (rule scan_lines_ok [of _ "[]"]) simp_all
  then have "at < length text \<and> masked ! at = text ! at \<and> text ! at \<in> set ''[<t''" if "(at, call) \<in> set ?found" for at call
    using that masked_of_nth [OF masked(2)] by (fastforce simp: list_all_iff starts_call_def)
  moreover have "found_calls parse_first text = Some ?found" using masked(1) by (simp add: found_calls_def)
  ultimately show ?thesis using masked(1) by (intro exI [of _ masked] exI [of _ ?found]) auto
qed

theorem calls_are_found_outside_code_witness:
  "find_calls (\<lambda>_. None) (''`<function=a>{` [TOOL_CALLS]b[ARGS]'' @ [nl] @ ''<function=c>{'') = Some [\<lparr>tc_name = Some ''b''\<rparr>, \<lparr>tc_name = Some ''c''\<rparr>]
   \<and> (\<exists>found. found_calls (\<lambda>_. None) (''`<function=a>{` [TOOL_CALLS]b[ARGS]'' @ [nl] @ ''<function=c>{'') = Some found
        \<and> sorted (map fst found))"
proof -
  have "valid_utf8 (''`<function=a>{` [TOOL_CALLS]b[ARGS]'' @ [nl] @ ''<function=c>{'')" by code_simp
  moreover have "find_calls (\<lambda>_. None) (''`<function=a>{` [TOOL_CALLS]b[ARGS]'' @ [nl] @ ''<function=c>{'') = Some [\<lparr>tc_name = Some ''b''\<rparr>, \<lparr>tc_name = Some ''c''\<rparr>]"
    by code_simp
  ultimately show ?thesis using calls_are_found_outside_code by blast
qed

end
