(* ===== verification/Text_Call_Notice.thy ===== *)
theory Text_Call_Notice
  imports Text_Calls "HOL-Library.List_Lexorder" "HOL-Library.Product_Lexorder"
begin

text \<open>
  \<open>src/text_calls.rs\<close>, the notices: what a model that wrote a call as text, or called a tool that isn't
  offered, is told. The offered tools with names like the call's are ranked by the words the names share
  (\<open>similar\<close>) and by edit distance; the transcript reads the calls' names back out of a saved notice
  (\<open>parse_text_call_notice\<close>).

  A \<open>BTreeSet\<close> of words is its sorted list. Unicode's lower-casing is a parameter (\<open>lower\<close>).
\<close>

section \<open>Words of a tool's name\<close>

definition VERBS :: "(string \<times> string list) list" where
  "VERBS =
     [(''save'', [''add'', ''create'', ''save'', ''post'', ''write'', ''new'', ''insert'', ''put'', ''set'', ''update'',
                  ''edit'', ''upsert'', ''make'', ''submit'']),
      (''get'', [''get'', ''read'', ''fetch'', ''view'', ''show'', ''retrieve'', ''load'', ''describe'', ''open'']),
      (''list'', [''list'', ''search'', ''find'', ''query'', ''browse'']),
      (''delete'', [''delete'', ''remove'', ''rm'', ''del'', ''destroy'', ''drop''])]"

text \<open>\<open>str::split\<close> at any of a few characters.\<close>

fun split_chars :: "char list \<Rightarrow> string \<Rightarrow> string list" where
  "split_chars seps [] = [[]]"
| "split_chars seps (c # cs) =
     (if c \<in> set seps then [] # split_chars seps cs
      else case split_chars seps cs of [] \<Rightarrow> [[c]] | w # ws \<Rightarrow> (c # w) # ws)"

definition word_of :: "string \<Rightarrow> string" where
  "word_of w =
     (let w = to_ascii_lowercase w;
          w = (if 3 < length w \<and> ends_with w ''s'' then butlast w else w)
      in case find (\<lambda>(_, all). w \<in> set all) VERBS of Some (verb, _) \<Rightarrow> verb | None \<Rightarrow> w)"

definition server_and_words :: "string \<Rightarrow> string option \<times> string list" where
  "server_and_words name =
     (let (server, tool) = (case parse_tool_name name of Some (s, t) \<Rightarrow> (Some s, t) | None \<Rightarrow> (None, name))
      in (server, remdups (sort (map word_of (filter (\<lambda>w. w \<noteq> []) (split_chars ''_-.'' tool))))))"

definition is_verb :: "string \<Rightarrow> bool" where
  "is_verb word = list_ex (\<lambda>(verb, _). verb = word) VERBS"

definition tool_part :: "string \<Rightarrow> string" where
  "tool_part name = (case parse_tool_name name of Some (_, tool) \<Rightarrow> tool | None \<Rightarrow> name)"

definition same_server :: "string option \<Rightarrow> string option \<Rightarrow> bool" where
  "same_server a b =
     (case (a, b) of (Some a, Some b) \<Rightarrow> eq_ignore_ascii_case a b | (None, None) \<Rightarrow> True | _ \<Rightarrow> False)"

section \<open>Edit distance\<close>

definition edit_cell :: "'c \<Rightarrow> 'c list \<Rightarrow> nat \<times> nat list \<Rightarrow> nat \<Rightarrow> nat \<times> nat list" where
  "edit_cell ca b = (\<lambda>(previous, row) j.
     (let substituted = previous + (if ca \<noteq> b ! j then 1 else 0);
          previous = row ! (j + 1)
      in (previous, row[j + 1 := min (min substituted (row ! j + 1)) (previous + 1)])))"

definition edit_row :: "'c list \<Rightarrow> nat list \<Rightarrow> nat \<times> 'c \<Rightarrow> nat list" where
  "edit_row b row = (\<lambda>(i, ca). snd (foldl (edit_cell ca b) (row ! 0, row[0 := i + 1]) [0..<length b]))"

definition edit_distance :: "'c list \<Rightarrow> 'c list \<Rightarrow> nat" where
  "edit_distance a b = foldl (edit_row b) [0..<length b + 1] (enumerate 0 a) ! length b"

definition is_near :: "(string \<Rightarrow> string) \<Rightarrow> string \<Rightarrow> string \<Rightarrow> bool" where
  "is_near lower a b =
     (let a = utf8_chars (lower a); b = utf8_chars (lower b);
          longer = max (length a) (length b);
          allowed = (if 8 \<le> longer then longer div 3 else 1)
      in 5 \<le> longer \<and> a \<noteq> b \<and> edit_distance a b \<le> allowed)"

section \<open>Similar tools\<close>

fun ilog2 :: "nat \<Rightarrow> nat" where
  "ilog2 n = (if n < 2 then 0 else 1 + ilog2 (n div 2))"

declare ilog2.simps [simp del]

type_synonym candidate = "string \<times> string option \<times> string list"

definition word_weight :: "candidate list \<Rightarrow> nat \<Rightarrow> string \<Rightarrow> nat" where
  "word_weight candidates offered word =
     (let df = max (length (filter (\<lambda>(_, _, w). word \<in> set w) candidates)) 1
      in 1 + ilog2 (max (max offered 1 div df) 1))"

definition joined_name :: "string \<Rightarrow> string" where
  "joined_name n = to_ascii_lowercase (filter is_ascii_alphanumeric (tool_part n))"

definition score_candidate ::
  "(string \<Rightarrow> string) \<Rightarrow> (string \<Rightarrow> nat) \<Rightarrow> string \<Rightarrow> string option \<Rightarrow> string list \<Rightarrow> candidate
   \<Rightarrow> (bool \<times> nat \<times> nat \<times> string) option" where
  "score_candidate lower weight name server words = (\<lambda>(offer, s, w).
     (let shared = filter (\<lambda>word. word \<in> set w) words;
          shares_a_word = list_ex (\<lambda>word. \<not> is_verb word) shared;
          unmatched = filter (\<lambda>nw. \<not> is_verb nw \<and> nw \<notin> set w) words;
          near = sum_list (List.map_filter
            (\<lambda>cw. map_option (\<lambda>nw. min (weight cw) (weight nw) div 2 + 1) (find (\<lambda>nw. is_near lower nw cw) unmatched))
            (filter (\<lambda>cw. \<not> is_verb cw \<and> cw \<notin> set words) w));
          same_joined = (joined_name name = joined_name offer)
      in if \<not> shares_a_word \<and> near = 0 \<and> \<not> same_joined then None
         else Some (same_server server s,
                    sum_list (map weight shared) + near + (if same_joined then 4 else 0),
                    length w - length shared, offer)))"

text \<open>The order the suggestions are sorted in: same server first, then score down, own words up, name up.\<close>

definition rank :: "bool \<times> nat \<times> nat \<times> string \<Rightarrow> bool \<times> int \<times> nat \<times> string" where
  "rank = (\<lambda>(same, score, extra, offer). (\<not> same, - int score, extra, offer))"

definition ranked :: "(string \<Rightarrow> string) \<Rightarrow> string \<Rightarrow> string list \<Rightarrow> (bool \<times> nat \<times> nat \<times> string) list" where
  "ranked lower name offered =
     (let words = snd (server_and_words name);
          server = fst (server_and_words (safe_tool_name name));
          candidates = map (\<lambda>offer. (offer, server_and_words offer)) (filter (\<lambda>offer. offer \<noteq> name) offered);
          weight = word_weight candidates (length offered)
      in sort_key rank (List.map_filter (score_candidate lower weight name server words) candidates))"

definition similar :: "(string \<Rightarrow> string) \<Rightarrow> string \<Rightarrow> string list \<Rightarrow> string list" where
  "similar lower name offered = map (\<lambda>(_, _, _, offer). offer) (take 5 (ranked lower name offered))"

section \<open>The notices\<close>

definition NOTICE_MARK :: string where
  "NOTICE_MARK = [CHR 0xE2, CHR 0x81, CHR 0xA3]"

definition mark_notice :: "string \<Rightarrow> string" where
  "mark_notice t = NOTICE_MARK @ t"

definition TEXT_CALL_NOTICE_START :: string where
  "TEXT_CALL_NOTICE_START =
     ''Your last reply wrote a tool call as text instead of making it, so it didn'' @ [CHR 0x27] @ ''t run.''"

definition TEXT_CALL_NOTICE_END :: string where
  "TEXT_CALL_NOTICE_END = '' Make the call as a tool call, not as text in your reply.''"

definition UNREADABLE :: string where
  "UNREADABLE = ''One call'' @ [CHR 0x27] @ ''s tool name couldn'' @ [CHR 0x27] @ ''t be read''"

definition EMPTY_REPLY_NOTICE :: string where
  "EMPTY_REPLY_NOTICE =
     ''Your last reply had no text and no tool call. Carry on: make the tool call you need, or answer.''"

definition empty_reply_notice :: string where
  "empty_reply_notice = mark_notice EMPTY_REPLY_NOTICE"

definition MAX_TEXT_CALL_CORRECTIONS :: nat where
  "MAX_TEXT_CALL_CORRECTIONS = 3"

abbreviation isn't :: string where
  "isn't \<equiv> ''isn'' @ [CHR 0x27] @ ''t''"

definition in_backticks :: "string \<Rightarrow> string" where
  "in_backticks s = [CHR 0x60] @ s @ [CHR 0x60]"

fun join_with :: "string \<Rightarrow> string list \<Rightarrow> string" where
  "join_with sep [] = []"
| "join_with sep [x] = x"
| "join_with sep (x # y # ys) = x @ sep @ join_with sep (y # ys)"

definition missing_server :: "string \<Rightarrow> string list \<Rightarrow> string option" where
  "missing_server name offered =
     (let safe_server = map_option fst (parse_tool_name (safe_tool_name name))
      in case parse_tool_name name of
           None \<Rightarrow> None
         | Some (server, _) \<Rightarrow>
             (if list_ex (\<lambda>offer. case parse_tool_name offer of
                   None \<Rightarrow> False
                 | Some (s, _) \<Rightarrow> eq_ignore_ascii_case s server
                     \<or> (case safe_server of None \<Rightarrow> False | Some w \<Rightarrow> eq_ignore_ascii_case s w)) offered
              then None else Some server))"

definition unoffered_sentence :: "(string \<Rightarrow> string) \<Rightarrow> string \<Rightarrow> string list \<Rightarrow> string" where
  "unoffered_sentence lower name offered =
     (let missing = missing_server name offered;
          suggestions = similar lower name offered;
          sentence = in_backticks name @ '' '' @ isn't @ '' an offered tool'';
          sentence = (case missing of
              Some server \<Rightarrow> sentence @ '', and no MCP server '' @ in_backticks server @ '' is offered''
            | None \<Rightarrow> sentence)
      in if suggestions \<noteq> [] then sentence @ ''; similar offered tools: '' @ join_with '', '' (map in_backticks suggestions) @ ''.''
         else if missing \<noteq> None then sentence @ ''.''
         else sentence @ '', and no offered tool has a similar name.'')"

definition call_sentence :: "(string \<Rightarrow> string) \<Rightarrow> string list \<Rightarrow> text_call \<Rightarrow> string" where
  "call_sentence lower offered call =
     (case tc_name call of
        None \<Rightarrow> '' '' @ UNREADABLE @ ''.''
      | Some name \<Rightarrow>
          (if name \<in> set offered
           then '' '' @ in_backticks name @ '' is offered, but a call written in a reply'' @ [CHR 0x27] @ ''s text '' @ isn't @ '' made.''
           else '' '' @ unoffered_sentence lower name offered))"

definition text_call_notice :: "(string \<Rightarrow> string) \<Rightarrow> text_call list \<Rightarrow> string list \<Rightarrow> string" where
  "text_call_notice lower calls offered =
     mark_notice TEXT_CALL_NOTICE_START @ concat (map (call_sentence lower offered) calls) @ TEXT_CALL_NOTICE_END"

definition is_unknown_name_error :: "string \<Rightarrow> bool" where
  "is_unknown_name_error e \<longleftrightarrow> starts_with e ''unknown tool: '' \<or> starts_with e ''unknown MCP server: ''"

definition is_unoffered_tool_of_an_offered_server :: "string \<Rightarrow> string list \<Rightarrow> bool" where
  "is_unoffered_tool_of_an_offered_server name offered \<longleftrightarrow>
     name \<notin> set offered
     \<and> (case (parse_tool_name name, parse_tool_name (safe_tool_name name)) of
          (Some (raw, _), Some (server, _)) \<Rightarrow>
            list_ex (\<lambda>offer. case parse_tool_name offer of None \<Rightarrow> False | Some (s, _) \<Rightarrow> s = server \<or> s = raw) offered
        | _ \<Rightarrow> False)"

definition unoffered_call_result :: "(string \<Rightarrow> string) \<Rightarrow> string \<Rightarrow> string \<Rightarrow> string list \<Rightarrow> string" where
  "unoffered_call_result lower e name offered = e @ [nl] @ unoffered_sentence lower name offered"

definition unoffered_bound_error :: "string \<Rightarrow> string" where
  "unoffered_bound_error name =
     ''The model called a tool that '' @ isn't @ '' offered, or wrote a call as text, ''
     @ nat_to_string (MAX_TEXT_CALL_CORRECTIONS + 1) @ '' times in a row (the last: '' @ in_backticks name
     @ ''), so the turn stopped.''"

definition bound_error :: "text_call list \<Rightarrow> string" where
  "bound_error calls =
     (let named_calls = List.map_filter tc_name calls;
          last_call = (case named_calls of
              name # _ \<Rightarrow> ''the last: '' @ in_backticks name
            | [] \<Rightarrow> ''the last one'' @ [CHR 0x27] @ ''s tool name couldn'' @ [CHR 0x27] @ ''t be read'')
      in ''The model wrote a tool call as text instead of making it '' @ nat_to_string (MAX_TEXT_CALL_CORRECTIONS + 1)
         @ '' times in a row ('' @ last_call @ ''), so the turn stopped.'')"

text \<open>One sentence of a notice: \<open>None\<close> when it is none, \<open>Some None\<close> when its call's name couldn't be read.\<close>

definition read_sentence :: "string \<Rightarrow> string option option" where
  "read_sentence sentence =
     (if sentence = UNREADABLE then Some None
      else Option.bind (strip_prefix [CHR 0x60] sentence) (\<lambda>rest.
           Option.bind (split_once [CHR 0x60] rest) (\<lambda>(name, tail).
             if starts_with tail '' is offered'' \<or> starts_with tail ('' '' @ isn't @ '' an offered tool'')
             then map_option Some (checked name) else None)))"

fun collect_options :: "'a option list \<Rightarrow> 'a list option" where
  "collect_options [] = Some []"
| "collect_options (None # xs) = None"
| "collect_options (Some x # xs) = map_option ((#) x) (collect_options xs)"

definition parse_text_call_notice :: "string \<Rightarrow> string option list option" where
  "parse_text_call_notice t =
     Option.bind (strip_prefix NOTICE_MARK t) (\<lambda>t.
     Option.bind (strip_prefix TEXT_CALL_NOTICE_START t) (\<lambda>t.
     Option.bind (strip_suffix TEXT_CALL_NOTICE_END t) (\<lambda>body.
     Option.bind (strip_prefix '' '' body) (\<lambda>body.
     Option.bind (strip_suffix ''.'' body) (\<lambda>body.
       collect_options (map read_sentence (pieces ''. '' body)))))))"

section \<open>What the edit distance is\<close>

text \<open>One edit inserts, deletes or changes one element.\<close>

inductive edit_step :: "'c list \<Rightarrow> 'c list \<Rightarrow> bool" where
  insert_one: "edit_step (p @ s) (p @ x # s)"
| delete_one: "edit_step (p @ x # s) (p @ s)"
| change_one: "edit_step (p @ x # s) (p @ y # s)"

text \<open>An alignment of two lists with a number of edits.\<close>

inductive aligned :: "nat \<Rightarrow> 'c list \<Rightarrow> 'c list \<Rightarrow> bool" where
  al_nil: "aligned 0 [] []"
| al_keep: "aligned n a b \<Longrightarrow> aligned n (c # a) (c # b)"
| al_change: "aligned n a b \<Longrightarrow> aligned (Suc n) (c # a) (d # b)"
| al_delete: "aligned n a b \<Longrightarrow> aligned (Suc n) (c # a) b"
| al_insert: "aligned n a b \<Longrightarrow> aligned (Suc n) a (d # b)"

inductive_cases aligned_Cons: "aligned n a (x # b)"

text \<open>Levenshtein's recursion, on the lists' fronts.\<close>

fun lev :: "'c list \<Rightarrow> 'c list \<Rightarrow> nat" where
  "lev [] b = length b"
| "lev a [] = length a"
| "lev (x # a) (y # b) =
     min (min (lev a b + (if x \<noteq> y then 1 else 0)) (lev (x # a) b + 1)) (lev a (y # b) + 1)"

lemma aligned_refl: "aligned 0 a a"
  by (induction a) (auto intro: aligned.intros)

lemma aligned_all_inserted: "aligned (length b) [] b"
  by (induction b) (auto intro: aligned.intros)

lemma aligned_all_deleted: "aligned (length a) a []"
  by (induction a) (auto intro: aligned.intros)

lemma lev_aligned: "aligned (lev a b) a b"
proof (induction a b rule: lev.induct)
  case (3 x a y b)
  have "x = y \<and> lev (x # a) (y # b) = lev a b \<or> lev (x # a) (y # b) = Suc (lev a b)
      \<or> lev (x # a) (y # b) = Suc (lev (x # a) b) \<or> lev (x # a) (y # b) = Suc (lev a (y # b))"
    by (auto simp: min_def)
  then consider "x = y" "lev (x # a) (y # b) = lev a b" | "lev (x # a) (y # b) = Suc (lev a b)"
    | "lev (x # a) (y # b) = Suc (lev (x # a) b)" | "lev (x # a) (y # b) = Suc (lev a (y # b))"
    by blast
  then show ?case
  proof cases
    case 1
    show ?thesis unfolding 1(2) using 3(1) 1(1) by (simp add: al_keep)
  next
    case 2
    show ?thesis unfolding 2 using 3(1) by (rule al_change)
  next
    case 3
    show ?thesis unfolding 3 using "3.IH"(2) by (rule al_insert)
  next
    case 4
    show ?thesis unfolding 4 using "3.IH"(3) by (rule al_delete)
  qed
next
  case (2 x a)
  show ?case using aligned_all_deleted [of "x # a"] by simp
qed (simp add: aligned_all_inserted)

lemma lev_nil [simp]: "lev a [] = length a"
  by (cases a) simp_all

lemma lev_step_bounds:
  "lev (x # a) b \<le> Suc (lev a b)" "lev a (y # b) \<le> Suc (lev a b)"
  "lev (x # a) (y # b) \<le> Suc (lev a b)" "lev (x # a) (x # b) \<le> lev a b"
proof -
  show "lev (x # a) b \<le> Suc (lev a b)" by (cases b) simp_all
  show "lev a (y # b) \<le> Suc (lev a b)" by (cases a) simp_all
qed (auto simp: min_def)

lemma lev_least: "aligned n a b \<Longrightarrow> lev a b \<le> n"
proof (induction rule: aligned.induct)
  case (al_keep n a b c)
  then show ?case using lev_step_bounds(4) [of c a b] by linarith
next
  case (al_change n a b c d)
  then show ?case using lev_step_bounds(3) [of c a d b] by linarith
next
  case (al_delete n a b c)
  then show ?case using lev_step_bounds(1) [of c a b] by linarith
next
  case (al_insert n a b d)
  then show ?case using lev_step_bounds(2) [of a d b] by linarith
qed simp

lemma edit_step_Cons: "edit_step s t \<Longrightarrow> edit_step (c # s) (c # t)"
  by (erule edit_step.cases; metis append_Cons edit_step.intros)

lemma edit_steps_Cons: "(edit_step ^^ n) s t \<Longrightarrow> (edit_step ^^ n) (c # s) (c # t)"
  by (induction n arbitrary: t) (auto intro: edit_step_Cons)

lemma aligned_steps: "aligned n a b \<Longrightarrow> (edit_step ^^ n) a b"
proof (induction rule: aligned.induct)
  case (al_keep n a b c)
  then show ?case by (simp add: edit_steps_Cons)
next
  case (al_change n a b c d)
  from edit_steps_Cons [OF al_change(2), of c] change_one [of "[]" c b d] show ?case by (auto intro: relpowp_Suc_I)
next
  case (al_delete n a b c)
  from edit_steps_Cons [OF al_delete(2), of c] delete_one [of "[]" c b] show ?case by (auto intro: relpowp_Suc_I)
next
  case (al_insert n a b d)
  then show ?case using insert_one [of "[]" b d] by (auto intro: relpowp_Suc_I)
qed simp

lemma edit_step_Cons_cases:
  assumes "edit_step (x # b) c"
  obtains y where "c = y # x # b" | "c = b" | y where "c = y # b" | c' where "c = x # c'" "edit_step b c'"
  using assms
proof cases
  case (insert_one p s y)
  then show ?thesis using that(1) that(4) [of "tl p @ y # s"] edit_step.insert_one [of "tl p" s y] by (cases p) auto
next
  case (delete_one p y s)
  then show ?thesis using that(2) that(4) [of "tl p @ s"] edit_step.delete_one [of "tl p" y s] by (cases p) auto
next
  case (change_one p y s z)
  then show ?thesis using that(3) that(4) [of "tl p @ z # s"] edit_step.change_one [of "tl p" y s z] by (cases p) auto
qed

lemma aligned_edit:
  "aligned n a b \<Longrightarrow> edit_step b c \<Longrightarrow> \<exists>m \<le> Suc n. aligned m a c"
proof (induction arbitrary: c rule: aligned.induct)
  case al_nil
  then show ?case using aligned.al_insert [OF aligned.al_nil] by (auto elim!: edit_step.cases intro!: exI [of _ "Suc 0"])
next
  case (al_keep n a b x)
  note al = al_keep
  from al(3) show ?case
  proof (cases rule: edit_step_Cons_cases)
    case (4 c')
    then show ?thesis using al(2) [of c'] by (auto intro: aligned.al_keep)
  qed (use al(1) in \<open>auto intro: aligned.intros\<close>)
next
  case (al_change n a b x y)
  note al = al_change
  from al(3) show ?case
  proof (cases rule: edit_step_Cons_cases)
    case 2
    then show ?thesis using al(1) by (auto intro!: exI [of _ "Suc n"] aligned.al_delete)
  next
    case (3 z)
    then show ?thesis using al(1) by (auto intro!: exI [of _ "Suc n"] aligned.al_change)
  next
    case (4 c')
    then obtain m where "m \<le> Suc n" "aligned m a c'" using al(2) by blast
    then show ?thesis using 4 by (auto intro!: exI [of _ "Suc m"] aligned.al_change)
  qed (use al(1) in \<open>auto intro!: exI [of _ "Suc (Suc n)"] aligned.al_insert aligned.al_change\<close>)
next
  case (al_delete n a b x)
  then obtain m where "m \<le> Suc n" "aligned m a c" by blast
  then show ?case by (intro exI [of _ "Suc m"]) (auto intro: aligned.al_delete)
next
  case (al_insert n a b y)
  note al = al_insert
  from al(3) show ?case
  proof (cases rule: edit_step_Cons_cases)
    case 2
    then show ?thesis using al(1) by (auto intro!: exI [of _ n])
  next
    case (3 z)
    then show ?thesis using al(1) by (auto intro!: exI [of _ "Suc n"] aligned.al_insert)
  next
    case (4 c')
    then obtain m where "m \<le> Suc n" "aligned m a c'" using al(2) by blast
    then show ?thesis using 4 by (auto intro!: exI [of _ "Suc m"] aligned.al_insert)
  qed (use al(1) in \<open>auto intro!: exI [of _ "Suc (Suc n)"] aligned.al_insert\<close>)
qed

lemma steps_aligned: "(edit_step ^^ n) a b \<Longrightarrow> \<exists>m \<le> n. aligned m a b"
proof (induction n arbitrary: b)
  case (Suc n)
  then obtain c where c: "(edit_step ^^ n) a c" "edit_step c b" by auto
  from Suc.IH [OF c(1)] obtain m where "m \<le> n" "aligned m a c" by blast
  with aligned_edit [OF this(2) c(2)] show ?case by (meson Suc_le_mono le_trans)
qed (auto intro: aligned_refl)

lemma lev_is_least: "lev a b = (LEAST n. (edit_step ^^ n) a b)"
proof (rule Least_equality [symmetric])
  show "(edit_step ^^ lev a b) a b" by (rule aligned_steps [OF lev_aligned])
  show "lev a b \<le> n" if "(edit_step ^^ n) a b" for n
    using steps_aligned [OF that] lev_least le_trans by blast
qed

lemma edit_step_rev: "edit_step (rev a) (rev b) \<longleftrightarrow> edit_step a b"
proof -
  have "edit_step a b \<Longrightarrow> edit_step (rev a) (rev b)" for a b :: "'a list"
  proof (induction rule: edit_step.induct)
    case (insert_one p s x)
    then show ?case using edit_step.insert_one [of "rev s" "rev p" x] by simp
  next
    case (delete_one p x s)
    then show ?case using edit_step.delete_one [of "rev s" x "rev p"] by simp
  next
    case (change_one p x s y)
    then show ?case using edit_step.change_one [of "rev s" x "rev p" y] by simp
  qed
  from this [of a b] this [of "rev a" "rev b"] show ?thesis by auto
qed

lemma edit_steps_rev: "(edit_step ^^ n) (rev a) (rev b) \<longleftrightarrow> (edit_step ^^ n) a b"
proof (induction n arbitrary: b)
  case (Suc n)
  then show ?case by (auto simp: OO_def edit_step_rev) (metis edit_step_rev rev_rev_ident)+
qed auto

lemma lev_rev: "lev (rev a) (rev b) = lev a b"
  by (simp add: lev_is_least edit_steps_rev)

text \<open>The row for a prefix of the first list: its distances from every prefix of the second.\<close>

definition dist :: "'c list \<Rightarrow> 'c list \<Rightarrow> nat \<Rightarrow> nat \<Rightarrow> nat" where
  "dist a b i j = lev (rev (take i a)) (rev (take j b))"

lemma dist_simps:
  "dist a b 0 j = min j (length b)" "dist a b i 0 = min i (length a)"
  "i < length a \<Longrightarrow> j < length b \<Longrightarrow>
   dist a b (Suc i) (Suc j) =
     min (min (dist a b i j + (if a ! i \<noteq> b ! j then 1 else 0)) (dist a b (Suc i) j + 1)) (dist a b i (Suc j) + 1)"
  by (simp_all add: dist_def take_Suc_conv_app_nth)

lemma edit_cells:
  assumes "i < length a" "k \<le> length b"
  shows "foldl (edit_cell (a ! i) b) (i, (map (dist a b i) [0..<length b + 1])[0 := i + 1]) [0..<k]
    = (dist a b i k, map (\<lambda>j. dist a b (if j \<le> k then Suc i else i) j) [0..<length b + 1])"
  using assms(2)
proof (induction k)
  case 0
  have "(map (dist a b i) [0..<length b + 1])[0 := i + 1] = map (\<lambda>j. dist a b (if j \<le> 0 then Suc i else i) j) [0..<length b + 1]"
    (is "?l = ?r")
  proof (rule nth_equalityI)
    show "?l ! j = ?r ! j" if "j < length ?l" for j
      using that assms(1) by (cases j) (simp_all add: dist_simps del: upt_Suc)
  qed simp
  then show ?case using assms(1) by (simp add: dist_simps del: upt_Suc)
next
  case (Suc k)
  let ?row = "\<lambda>k. map (\<lambda>j. dist a b (if j \<le> k then Suc i else i) j) [0..<length b + 1]"
  have cell: "dist a b (Suc i) (Suc k) = min (min (dist a b i k + (if a ! i \<noteq> b ! k then 1 else 0)) (?row k ! k + 1)) (?row k ! (k + 1) + 1)"
    using Suc.prems assms(1) by (simp add: dist_simps(3) del: upt_Suc)
  have "(?row k)[k + 1 := dist a b (Suc i) (Suc k)] = ?row (Suc k)" (is "?l = ?r")
  proof (rule nth_equalityI)
    show "?l ! j = ?r ! j" if "j < length ?l" for j
      using that by (cases "j = k + 1") (auto simp del: upt_Suc)
  qed simp
  moreover have "?row k ! (k + 1) = dist a b i (Suc k)" using Suc.prems by (simp del: upt_Suc)
  moreover have "foldl (edit_cell (a ! i) b) (i, (map (dist a b i) [0..<length b + 1])[0 := i + 1]) [0..<Suc k]
      = edit_cell (a ! i) b (dist a b i k, ?row k) k"
    using Suc.IH Suc.prems by simp
  ultimately show ?case unfolding edit_cell_def Let_def using cell by (simp del: upt_Suc)
qed

lemma edit_rows:
  "k \<le> length a \<Longrightarrow> foldl (edit_row b) [0..<length b + 1] (enumerate 0 (take k a)) = map (dist a b k) [0..<length b + 1]"
proof (induction k)
  case 0
  have "[0..<length b + 1] = map (dist a b 0) [0..<length b + 1]"
    by (rule nth_equalityI) (simp_all add: dist_simps del: upt_Suc)
  then show ?case by (simp del: upt_Suc)
next
  case (Suc k)
  have snoc: "enumerate 0 (take (Suc k) a) = enumerate 0 (take k a) @ [(k, a ! k)]"
    using Suc.prems by (simp add: take_Suc_conv_app_nth enumerate_append_eq)
  have "edit_row b (map (dist a b k) [0..<length b + 1]) (k, a ! k)
      = map (\<lambda>j. dist a b (if j \<le> length b then Suc k else k) j) [0..<length b + 1]"
    using edit_cells [of k a "length b" b] Suc.prems by (simp add: edit_row_def dist_simps del: upt_Suc)
  also have "\<dots> = map (dist a b (Suc k)) [0..<length b + 1]"
    by (intro map_cong) auto
  finally show ?case using Suc by (simp add: snoc del: upt_Suc)
qed

text \<open>
  (C27) The distance between two names, filled in one row at a time over the row before it, is the Levenshtein
  distance: the least number of single-character insertions, deletions and changes that turn one into the
  other.
\<close>

theorem edit_distance_is_least: "edit_distance a b = (LEAST n. (edit_step ^^ n) a b)"
  using edit_rows [of "length a" a b] lev_rev [of a b]
  by (simp add: edit_distance_def dist_def lev_is_least del: upt_Suc)

section \<open>Suggestions\<close>

abbreviation offer_of :: "bool \<times> nat \<times> nat \<times> string \<Rightarrow> string" where
  "offer_of r \<equiv> snd (snd (snd r))"

lemma score_candidate_SomeD:
  "score_candidate lower weight name server words cand = Some r \<Longrightarrow>
   offer_of r = fst cand \<and> fst r = same_server server (fst (snd cand))"
  by (cases cand) (auto simp: score_candidate_def Let_def split: if_splits)

lemma in_map_filter: "y \<in> set (List.map_filter f xs) \<longleftrightarrow> (\<exists>x \<in> set xs. f x = Some y)"
  by (force simp: map_filter_def)

lemma ranked_offers: "r \<in> set (ranked lower name offered) \<Longrightarrow> offer_of r \<in> set offered"
  by (auto simp: ranked_def Let_def in_map_filter dest!: score_candidate_SomeD)

lemma map_filter_key:
  assumes "\<And>x y. x \<in> set xs \<Longrightarrow> f x = Some y \<Longrightarrow> g y = h x"
  shows "map g (List.map_filter f xs) = map h (filter (\<lambda>x. f x \<noteq> None) xs)"
  using assms by (induction xs) (auto simp: map_filter_simps split: option.splits)

text \<open>
  The tools suggested for a name that isn't offered are at most five, all offered, none of them the name
  itself, none twice when none is offered twice, and the ones on the name's own MCP server come first.
\<close>

theorem similar_tools_are_offered:
  assumes "distinct offered"
  shows "length (similar lower name offered) \<le> 5 \<and> set (similar lower name offered) \<subseteq> set offered - {name}
    \<and> distinct (similar lower name offered)
    \<and> sorted_wrt (\<lambda>a b. same_server (fst (server_and_words (safe_tool_name name))) (fst (server_and_words b))
         \<longrightarrow> same_server (fst (server_and_words (safe_tool_name name))) (fst (server_and_words a)))
        (similar lower name offered)"
proof -
  let ?server = "fst (server_and_words (safe_tool_name name))"
  let ?ranked = "ranked lower name offered"
  let ?candidates = "map (\<lambda>offer. (offer, server_and_words offer)) (filter (\<lambda>offer. offer \<noteq> name) offered)"
  define score where "score = score_candidate lower (word_weight ?candidates (length offered)) name ?server (snd (server_and_words name))"
  have ranked: "?ranked = sort_key rank (List.map_filter score ?candidates)"
    by (simp add: ranked_def score_def Let_def)
  have scored: "offer_of r = fst cand \<and> fst r = same_server ?server (fst (snd cand))" if "score cand = Some r" for cand r
    using that unfolding score_def by (rule score_candidate_SomeD)
  have of_candidate: "\<exists>cand \<in> set ?candidates. score cand = Some r" if "r \<in> set ?ranked" for r
    using that by (auto simp: ranked map_filter_def)
  have sim: "similar lower name offered = map offer_of (take 5 ?ranked)"
    by (simp add: similar_def case_prod_beta)
  have offers: "offer_of r \<in> set offered - {name} \<and> fst r = same_server ?server (fst (server_and_words (offer_of r)))"
    if "r \<in> set ?ranked" for r
    using of_candidate [OF that] scored by fastforce
  have "distinct (map offer_of (List.map_filter score ?candidates))"
    using map_filter_key [of ?candidates score offer_of fst] scored assms
    by (simp add: filter_map distinct_map inj_on_def)
  then have "distinct (map offer_of ?ranked)"
    by (simp add: ranked distinct_map)
  then have distinct: "distinct (similar lower name offered)"
    by (simp add: sim flip: take_map)
  have "sorted_wrt (\<lambda>a b. rank a \<le> rank b) ?ranked"
    using sorted_sort_key [of rank] unfolding ranked sorted_map by blast
  then have "sorted_wrt (\<lambda>a b. rank a \<le> rank b) (take 5 ?ranked)" by (rule sorted_wrt_take)
  then have "sorted_wrt (\<lambda>a b. fst b \<longrightarrow> fst a) (take 5 ?ranked)"
    by (rule sorted_wrt_mono_rel [rotated]) (auto simp: rank_def less_eq_prod_def split: prod.splits)
  then have "sorted_wrt (\<lambda>a b. same_server ?server (fst (server_and_words b)) \<longrightarrow> same_server ?server (fst (server_and_words a)))
      (similar lower name offered)"
    unfolding sim sorted_wrt_map
    by (rule sorted_wrt_mono_rel [rotated]) (metis in_set_takeD offers)
  moreover have "set (similar lower name offered) \<subseteq> set offered - {name}"
    using offers by (auto simp: sim dest!: in_set_takeD)
  ultimately show ?thesis using distinct by (simp add: sim)
qed

theorem similar_tools_are_offered_witness:
  "similar id ''rm_doc'' [''get_doc'', ''ls''] = [''get_doc'']
   \<and> length (similar id ''rm_doc'' [''get_doc'', ''ls'']) \<le> 5
   \<and> set (similar id ''rm_doc'' [''get_doc'', ''ls'']) \<subseteq> set [''get_doc'', ''ls''] - {''rm_doc''}"
proof -
  have "similar id ''rm_doc'' [''get_doc'', ''ls''] = [''get_doc'']" by code_simp
  moreover have "distinct [''get_doc'', ''ls'']" by simp
  ultimately show ?thesis using similar_tools_are_offered [of "[''get_doc'', ''ls'']" id "''rm_doc''"] by blast
qed

section \<open>Reading a notice back\<close>

fun calm :: "string \<Rightarrow> bool" where
  "calm (c # d # cs) = (\<not> (c = CHR ''.'' \<and> d = CHR '' '') \<and> calm (d # cs))"
| "calm _ = True"

lemma calm_Cons: "calm (c # s) \<longleftrightarrow> calm s \<and> \<not> (c = CHR ''.'' \<and> s \<noteq> [] \<and> hd s = CHR '' '')"
  by (cases s) auto

lemma calm_append: "calm (a @ b) \<longleftrightarrow> calm a \<and> calm b \<and> (a = [] \<or> b = [] \<or> \<not> (last a = CHR ''.'' \<and> hd b = CHR '' ''))"
  by (induction a) (auto simp: calm_Cons hd_append simp del: calm.simps(1))

lemma calm_no_space: "CHR '' '' \<notin> set s \<Longrightarrow> calm s"
  by (induction s rule: calm.induct) auto

lemma split_once_calm: "calm s \<Longrightarrow> split_once ''. '' (s @ ''. '' @ r) = Some (s, r)" "calm s \<Longrightarrow> split_once ''. '' s = None"
  by (induction s rule: calm.induct) auto

lemma pieces_calm:
  "list_all calm ts \<Longrightarrow> ts \<noteq> [] \<Longrightarrow> pieces ''. '' (join_with ''. '' ts) = ts"
  by (induction "''. ''" ts rule: join_with.induct) (simp_all add: pieces.simps split_once_calm split_once_calm [simplified])

lemma concat_sentences: "ts \<noteq> [] \<Longrightarrow> concat (map (\<lambda>t. '' '' @ t @ ''.'') ts) = '' '' @ join_with ''. '' ts @ ''.''"
  by (induction "''. ''" ts rule: join_with.induct) auto

lemma calm_join: "list_all calm ts \<Longrightarrow> calm (join_with '', '' (map in_backticks ts))"
  by (induction "'', ''" ts rule: join_with.induct) (auto simp: in_backticks_def calm_append calm_Cons simp del: calm.simps(1))

lemma checked_name: "checked n = Some m \<Longrightarrow> m = n \<and> n \<noteq> [] \<and> list_all is_name_char n"
  by (simp add: checked_def split: if_splits)

lemma name_chars_calm:
  assumes "list_all is_name_char s"
  shows "calm s" "CHR 0x60 \<notin> set s"
proof -
  have "is_name_char c \<Longrightarrow> c \<noteq> CHR '' '' \<and> c \<noteq> CHR 0x60" for c
    by (auto simp: is_name_char_def is_ascii_alphanumeric_def is_ascii_digit_def is_ascii_upper_def is_ascii_lower_def)
  with assms show "calm s" "CHR 0x60 \<notin> set s"
    by (auto intro!: calm_no_space simp: list_all_iff)
qed

lemma parse_tool_name_server_chars:
  "parse_tool_name name = Some (server, tool) \<Longrightarrow> set server \<subseteq> set name"
  by (auto simp: parse_tool_name_def strip_prefix_iff split: option.splits dest!: split_once_parts)

text \<open>A call's sentence in a notice, without the space before it and the full stop after it.\<close>

definition sentence_text :: "(string \<Rightarrow> string) \<Rightarrow> string list \<Rightarrow> text_call \<Rightarrow> string" where
  "sentence_text lower offered call = butlast (tl (call_sentence lower offered call))"

lemma missing_server_chars: "missing_server name offered = Some server \<Longrightarrow> set server \<subseteq> set name"
  by (auto simp: missing_server_def Let_def split: option.splits if_splits dest!: parse_tool_name_server_chars)

lemma unoffered_sentence_text:
  assumes "list_all is_name_char name" "\<forall>n \<in> set offered. list_all is_name_char n"
  shows "\<exists>rest. unoffered_sentence lower name offered = in_backticks name @ '' '' @ isn't @ '' an offered tool'' @ rest @ ''.''
    \<and> calm rest \<and> (rest = [] \<or> hd rest \<noteq> CHR '' '')"
proof -
  have server: "calm server" if "missing_server name offered = Some server" for server
    using missing_server_chars [OF that] assms(1) by (intro name_chars_calm(1)) (auto simp: list_all_iff)
  have "set (similar lower name offered) \<subseteq> set offered"
    using ranked_offers by (fastforce simp: similar_def dest!: in_set_takeD)
  then have "list_all calm (similar lower name offered)"
    using assms(2) name_chars_calm by (auto simp: list_all_iff)
  then have similar: "calm (join_with '', '' (map in_backticks (similar lower name offered)))" by (rule calm_join)
  show ?thesis
    using server similar
    by (auto simp: unoffered_sentence_def Let_def in_backticks_def calm_append calm_Cons split: option.split simp del: calm.simps(1))
qed

lemma call_sentence_reads_back:
  assumes "\<forall>n. tc_name call = Some n \<longrightarrow> checked n = Some n" "\<forall>n \<in> set offered. list_all is_name_char n"
  shows "\<exists>t. call_sentence lower offered call = '' '' @ t @ ''.'' \<and> calm t \<and> read_sentence t = Some (tc_name call)"
proof (cases "tc_name call")
  case None
  have "calm UNREADABLE" by code_simp
  then show ?thesis using None by (intro exI [of _ UNREADABLE]) (simp add: call_sentence_def read_sentence_def)
next
  case (Some n)
  then have n: "checked n = Some n" using assms(1) by simp
  then have chars: "calm n" "CHR 0x60 \<notin> set n" "list_all is_name_char n" using checked_name [OF n] name_chars_calm by auto
  have read: "read_sentence (in_backticks n @ tail) = Some (Some n)"
    if "starts_with tail '' is offered'' \<or> starts_with tail ('' '' @ isn't @ '' an offered tool'')" for tail
    using that split_once_char [OF chars(2), of tail] n
    by (simp add: read_sentence_def in_backticks_def UNREADABLE_def)
  show ?thesis
  proof (cases "n \<in> set offered")
    case True
    let ?tail = "'' is offered, but a call written in a reply'' @ [CHR 0x27] @ ''s text '' @ isn't @ '' made''"
    have "calm (in_backticks n @ ?tail)" using chars(1) by (simp add: in_backticks_def calm_append calm_Cons del: calm.simps(1))
    moreover have "starts_with ?tail '' is offered''" by (simp add: starts_with_def)
    ultimately show ?thesis using Some True read [of ?tail]
      by (intro exI [of _ "in_backticks n @ ?tail"]) (simp add: call_sentence_def)
  next
    case False
    from unoffered_sentence_text [OF chars(3) assms(2), of lower] obtain rest where
      rest: "unoffered_sentence lower n offered = in_backticks n @ '' '' @ isn't @ '' an offered tool'' @ rest @ ''.''" "calm rest" by blast
    let ?tail = "'' '' @ isn't @ '' an offered tool'' @ rest"
    have "calm (in_backticks n @ ?tail)" using chars(1) rest(2) by (simp add: in_backticks_def calm_append calm_Cons del: calm.simps(1))
    moreover have "starts_with ?tail ('' '' @ isn't @ '' an offered tool'')" by (simp add: starts_with_def)
    ultimately show ?thesis using Some False read [of ?tail] rest(1)
      by (intro exI [of _ "in_backticks n @ ?tail"]) (simp add: call_sentence_def)
  qed
qed

lemma collect_options_Some: "collect_options (map Some xs) = Some xs"
  by (induction xs) auto

lemma notice_reads_back:
  assumes "calls \<noteq> []" "\<forall>call \<in> set calls. \<forall>n. tc_name call = Some n \<longrightarrow> checked n = Some n"
    "\<forall>n \<in> set offered. list_all is_name_char n"
  shows "parse_text_call_notice (text_call_notice lower calls offered) = Some (map tc_name calls)"
proof -
  have "\<forall>call \<in> set calls. \<exists>t. call_sentence lower offered call = '' '' @ t @ ''.'' \<and> calm t \<and> read_sentence t = Some (tc_name call)"
    using call_sentence_reads_back assms(2,3) by blast
  then obtain t where t: "\<forall>call \<in> set calls. call_sentence lower offered call = '' '' @ t call @ ''.'' \<and> calm (t call) \<and> read_sentence (t call) = Some (tc_name call)"
    by metis
  let ?ts = "map t calls"
  have "concat (map (call_sentence lower offered) calls) = concat (map (\<lambda>t. '' '' @ t @ ''.'') ?ts)"
    using t by (auto intro!: arg_cong [where f = concat])
  then have notice: "text_call_notice lower calls offered = NOTICE_MARK @ TEXT_CALL_NOTICE_START @ ('' '' @ join_with ''. '' ?ts @ ''.'') @ TEXT_CALL_NOTICE_END"
    using concat_sentences [of ?ts] assms(1) by (simp add: text_call_notice_def mark_notice_def)
  have "pieces ''. '' (join_with ''. '' ?ts) = ?ts"
    using t assms(1) by (intro pieces_calm) (auto simp: list_all_iff)
  moreover have "collect_options (map read_sentence ?ts) = Some (map tc_name calls)"
    using t collect_options_Some [of "map tc_name calls"] by (simp add: comp_def cong: map_cong)
  ultimately show ?thesis
    unfolding notice parse_text_call_notice_def
    by (simp only: strip_prefix_append strip_suffix_append Option.bind.simps)
qed

abbreviation checked_call :: "text_call \<Rightarrow> bool" where
  "checked_call call \<equiv> \<forall>n. tc_name call = Some n \<longrightarrow> checked n = Some n"

lemma checked_checked: "checked n = Some m \<Longrightarrow> checked m = Some m"
  using checked_name by (metis)

lemma special_reads_checked: "(marker, read) \<in> set SPECIAL_MARKERS \<Longrightarrow> read s = Some call \<Longrightarrow> checked_call call"
  by (auto simp: SPECIAL_MARKERS_def read_mistral_def read_kimi_def read_deepseek_def read_gemma_def read_lfm2_def
      read_gpt_oss_def named_def Let_def checked_checked split: if_splits option.splits)

lemma invoke_checked: "invoke s l = Some (call, used) \<Longrightarrow> checked_call call"
  by (auto simp: invoke_def checked_checked split: option.splits)

lemma json_name_checked: "json_name p s = Some (Some n) \<Longrightarrow> checked n = Some n"
  by (auto simp: json_name_def Let_def bind_eq_Some_conv checked_checked split: option.splits)

lemma tag_call_checked: "tag_call p s = Some (call, used) \<Longrightarrow> checked_call call"
  by (auto simp: tag_call_def named_def Let_def bind_eq_Some_conv checked_checked invoke_checked json_name_checked
      split: option.splits if_splits)

lemma scan_line_checked:
  "list_all (checked_call \<circ> snd) (sc_found sc) \<Longrightarrow> list_all (checked_call \<circ> snd) (sc_found (scan_line p text sc line))"
  by (auto simp: scan_line_def Let_def special_calls_def list_all_iff in_map_filter tag_call_checked
      split: option.splits prod.splits dest: special_reads_checked)

lemma find_calls_checked:
  assumes "find_calls p text = Some calls"
  shows "\<forall>call \<in> set calls. checked_call call"
proof -
  have scanned: "list_all (checked_call \<circ> snd) (sc_found sc) \<Longrightarrow> list_all (checked_call \<circ> snd) (sc_found (foldl (scan_line p text) sc lines))"
    for sc lines
    by (induction lines arbitrary: sc) (simp_all add: scan_line_checked)
  show ?thesis
    using assms scanned [of "\<lparr>sc_found = [], sc_consumed = 0, sc_start = 0\<rparr>"]
    by (auto simp: find_calls_def found_calls_def list_all_iff)
qed

text \<open>
  The notice saved for the calls found in a reply's text names every one of them: the transcript reads back
  from it the calls' names in order, a call whose name couldn't be read included, whatever tools are
  suggested for them.
\<close>

theorem correction_reads_back:
  assumes "find_calls parse_first text = Some calls" "calls \<noteq> []" "\<forall>n \<in> set offered. list_all is_name_char n"
  shows "parse_text_call_notice (text_call_notice lower calls offered) = Some (map tc_name calls)"
  using notice_reads_back [OF assms(2) find_calls_checked [OF assms(1)] assms(3)] .

theorem correction_reads_back_witness:
  "find_calls (\<lambda>_. None) ''<function=rm_doc>{'' = Some [\<lparr>tc_name = Some ''rm_doc''\<rparr>]
   \<and> parse_text_call_notice (text_call_notice id [\<lparr>tc_name = Some ''rm_doc''\<rparr>] [''get_doc'', ''ls'']) = Some [Some ''rm_doc'']"
proof -
  have found: "find_calls (\<lambda>_. None) ''<function=rm_doc>{'' = Some [\<lparr>tc_name = Some ''rm_doc''\<rparr>]" by code_simp
  have "\<forall>n \<in> set [''get_doc'', ''ls'']. list_all is_name_char n" by code_simp
  from correction_reads_back [OF found _ this, of id] found show ?thesis by simp
qed


end
