(* ===== verification/Request_History.thy ===== *)
theory Request_History
  imports Stream_Blocks "HOL-Library.Multiset"
begin

text \<open>
  \<open>src/turn/history.rs\<close>: the messages a request sends, rebuilt from the saved ones. Everything up to the
  newest compaction's boundary is left out, foreign thinking is stripped, compaction blocks become text,
  past calls go out under safe names, blank replies are dropped, and every tool call gets its result in
  the very next message, as the API demands.

  A saved message's content is JSON text; serde_json's reading of it is a parameter (\<open>read_blocks\<close>: the
  blocks, or the error). The tool calls' answering is the source's loop over indices, as a recursion on the
  messages from index \<open>i\<close> on.
\<close>

section \<open>Messages\<close>

record saved_message =
  sm_id :: i64
  sm_role :: string
  sm_content :: string

record anthropic_message =
  am_role :: string
  am_content :: "content_block list"

definition THINKING_NOT_SHOWN :: string where
  "THINKING_NOT_SHOWN = ''(reasoning not shown)''"

definition UNFINISHED_TOOL_CALL :: string where
  "UNFINISHED_TOOL_CALL = ''This tool call didn't finish: the turn was stopped (by the user, or by a server restart) before it returned. Its effects, if any, are unknown.''"

fun is_thinking :: "content_block \<Rightarrow> bool" where
  "is_thinking (Thinking _ _) = True"
| "is_thinking _ = False"

definition strip_thinking :: "content_block list \<Rightarrow> content_block list" where
  "strip_thinking blocks =
     (let only_thinking = list_all is_thinking blocks;
          stripped = List.map_filter
            (\<lambda>block. case block of
                Thinking thinking _ \<Rightarrow>
                  if only_thinking \<and> str_trim thinking \<noteq> [] then Some (Text thinking) else None
              | other \<Rightarrow> Some other) blocks
      in if stripped = [] then [Text THINKING_NOT_SHOWN] else stripped)"

definition strip_foreign_thinking :: "content_block list \<Rightarrow> bool \<Rightarrow> content_block list" where
  "strip_foreign_thinking blocks strip = (if strip then strip_thinking blocks else blocks)"

fun is_blank_text :: "content_block \<Rightarrow> bool" where
  "is_blank_text (Text text) = (str_trim text = [])"
| "is_blank_text _ = False"

definition without_blank_text :: "content_block list \<Rightarrow> content_block list" where
  "without_blank_text blocks = filter (\<lambda>block. \<not> is_blank_text block) blocks"

section \<open>Answering tool calls\<close>

fun call_id :: "content_block \<Rightarrow> string option" where
  "call_id (ToolUse i _ _) = Some i"
| "call_id _ = None"

fun result_id :: "content_block \<Rightarrow> string option" where
  "result_id (ToolResult i _ _) = Some i"
| "result_id _ = None"

definition call_ids :: "content_block list \<Rightarrow> string list" where
  "call_ids blocks = List.map_filter call_id blocks"

definition result_ids :: "content_block list \<Rightarrow> string list" where
  "result_ids blocks = List.map_filter result_id blocks"

text \<open>
  \<open>move_late_results\<close>: from the user messages after \<open>history[i + 1]\<close> (whose content is \<open>next\<close>) and before
  the next assistant's, the late results, and the messages without them.
\<close>

definition is_late :: "string list \<Rightarrow> content_block list \<Rightarrow> content_block \<Rightarrow> bool" where
  "is_late calls next block =
     (case result_id block of
        None \<Rightarrow> False
      | Some i \<Rightarrow> i \<in> set calls \<and> i \<notin> set (result_ids next))"

fun late_results ::
  "string list \<Rightarrow> content_block list \<Rightarrow> anthropic_message list \<Rightarrow> content_block list \<times> anthropic_message list" where
  "late_results calls next [] = ([], [])"
| "late_results calls next (m # ms) =
     (if am_role m = ''user'' then
        (let late = filter (is_late calls next) (am_content m);
             kept = filter (\<lambda>block. \<not> is_late calls next block) (am_content m);
             (moved, rest) = late_results calls next ms
         in (late @ moved, if kept = [] then rest else m\<lparr>am_content := kept\<rparr> # rest))
      else ([], m # ms))"

lemma late_results_user:
  assumes "am_role m = ''user''"
  shows "fst (late_results calls next (m # ms)) = filter (is_late calls next) (am_content m) @ fst (late_results calls next ms)"
    and "snd (late_results calls next (m # ms)) =
      (if filter (\<lambda>block. \<not> is_late calls next block) (am_content m) = [] then snd (late_results calls next ms)
       else m\<lparr>am_content := filter (\<lambda>block. \<not> is_late calls next block) (am_content m)\<rparr> # snd (late_results calls next ms))"
  using assms by (simp_all add: Let_def case_prod_beta)

lemma late_results_other: "am_role m \<noteq> ''user'' \<Longrightarrow> late_results calls next (m # ms) = ([], m # ms)"
  by simp

declare late_results.simps(2) [simp del]

lemmas late_results_cons = late_results_user late_results_other

definition move_late_results ::
  "string list \<Rightarrow> anthropic_message \<Rightarrow> anthropic_message list \<Rightarrow> anthropic_message \<times> anthropic_message list" where
  "move_late_results calls n rest =
     (let (moved, rest') = late_results calls (am_content n) rest
      in (n\<lparr>am_content := moved @ am_content n\<rparr>, rest'))"

definition unfinished :: "string \<Rightarrow> content_block" where
  "unfinished i = ToolResult i UNFINISHED_TOOL_CALL (Some True)"

definition missing_results :: "string list \<Rightarrow> content_block list \<Rightarrow> content_block list" where
  "missing_results calls next = map unfinished (filter (\<lambda>i. i \<notin> set (result_ids next)) calls)"

text \<open>Each assistant message weighs more than the user message the loop may put after it.\<close>

definition weight :: "anthropic_message list \<Rightarrow> nat" where
  "weight ms = sum_list (map (\<lambda>m. if am_role m = ''assistant'' then 2 else 1) ms)"

lemma weight_simps [simp]:
  "weight [] = 0"
  "weight (m # ms) = (if am_role m = ''assistant'' then 2 else 1) + weight ms"
  "weight (xs @ ys) = weight xs + weight ys"
  by (simp_all add: weight_def)

lemma weight_late_results: "weight (snd (late_results calls next ms)) \<le> weight ms"
proof (induction ms)
  case (Cons m ms)
  then show ?case by (cases "am_role m = ''user''") (simp_all add: late_results_cons)
qed simp

lemma move_late_results_weight:
  assumes "(n', rest') = move_late_results calls n rest"
  shows "weight rest' \<le> weight rest" "am_role n' = am_role n"
  using assms weight_late_results [of calls "am_content n" rest]
  by (simp_all add: move_late_results_def split: prod.splits)

function answer_unfinished_tool_calls :: "anthropic_message list \<Rightarrow> anthropic_message list" where
  "answer_unfinished_tool_calls [] = []"
| "answer_unfinished_tool_calls (m # ms) =
     (if am_role m \<noteq> ''assistant'' then m # answer_unfinished_tool_calls ms
      else
        (let calls = call_ids (am_content m) in
         case ms of
           n # rest \<Rightarrow>
             (if am_role n = ''user'' then
                (let (n', rest') = move_late_results calls n rest
                 in m # answer_unfinished_tool_calls
                      (n'\<lparr>am_content := missing_results calls (am_content n') @ am_content n'\<rparr> # rest'))
              else if calls = [] then m # answer_unfinished_tool_calls ms
              else m # answer_unfinished_tool_calls (\<lparr>am_role = ''user'', am_content = map unfinished calls\<rparr> # ms))
         | [] \<Rightarrow>
             (if calls = [] then m # answer_unfinished_tool_calls ms
              else m # answer_unfinished_tool_calls [\<lparr>am_role = ''user'', am_content = map unfinished calls\<rparr>])))"
  by pat_completeness auto
termination
  by (relation "measure weight") (auto dest: move_late_results_weight)

declare answer_unfinished_tool_calls.simps [simp del]

section \<open>The history of a request\<close>

fun boundary_of :: "content_block \<Rightarrow> i64 option" where
  "boundary_of (CompactionSummary _ through _) = Some through"
| "boundary_of _ = None"

fun replayed_block :: "content_block \<Rightarrow> content_block" where
  "replayed_block (CompactionSummary summary _ _) = Text summary"
| "replayed_block (CompactionPlaceholder text) = Text text"
| "replayed_block (ToolUse i name input) = ToolUse i (safe_tool_name name) input"
| "replayed_block other = other"

fun parse_messages ::
  "(string \<Rightarrow> string + content_block list) \<Rightarrow> saved_message list \<Rightarrow> string + (i64 \<times> string \<times> content_block list) list" where
  "parse_messages read_blocks [] = Inr []"
| "parse_messages read_blocks (m # ms) =
     (case read_blocks (sm_content m) of
        Inl e \<Rightarrow> Inl e
      | Inr blocks \<Rightarrow>
          (case parse_messages read_blocks ms of
             Inl e \<Rightarrow> Inl e
           | Inr parsed \<Rightarrow> Inr ((sm_id m, sm_role m, blocks) # parsed)))"

definition latest_boundary :: "(i64 \<times> string \<times> content_block list) list \<Rightarrow> i64 option" where
  "latest_boundary parsed =
     (case concat (map (\<lambda>(_, _, blocks). List.map_filter boundary_of blocks) parsed) of
        [] \<Rightarrow> None | b # bs \<Rightarrow> Some (fold max bs b))"

definition replayed ::
  "i64 option \<Rightarrow> i64 \<times> string \<times> content_block list \<Rightarrow> anthropic_message" where
  "replayed thinking_stripped_through = (\<lambda>(i, role, blocks).
     \<lparr>am_role = role,
      am_content = map replayed_block
        (strip_foreign_thinking blocks
          (case thinking_stripped_through of None \<Rightarrow> False | Some through \<Rightarrow> i \<le> through))\<rparr>)"

definition without_blank_reply :: "anthropic_message \<Rightarrow> anthropic_message option" where
  "without_blank_reply m =
     (if am_role m = ''assistant'' then
        (let content = without_blank_text (am_content m)
         in if content = [] then None else Some (m\<lparr>am_content := content\<rparr>))
      else Some m)"

definition replayed_history ::
  "i64 option \<Rightarrow> (i64 \<times> string \<times> content_block list) list \<Rightarrow> anthropic_message list" where
  "replayed_history thinking_stripped_through parsed =
     List.map_filter without_blank_reply
       (map (replayed thinking_stripped_through)
         (filter (\<lambda>(i, _, _). case latest_boundary parsed of None \<Rightarrow> True | Some boundary \<Rightarrow> boundary < i) parsed))"

definition history_for_request ::
  "(string \<Rightarrow> string + content_block list) \<Rightarrow> saved_message list \<Rightarrow> i64 option \<Rightarrow> string + anthropic_message list" where
  "history_for_request read_blocks messages thinking_stripped_through =
     (case parse_messages read_blocks messages of
        Inl e \<Rightarrow> Inl e
      | Inr parsed \<Rightarrow> Inr (answer_unfinished_tool_calls (replayed_history thinking_stripped_through parsed)))"

section \<open>Every call is answered, and nothing is lost\<close>

text \<open>The blocks of some messages, in order.\<close>

definition all_blocks :: "anthropic_message list \<Rightarrow> content_block list" where
  "all_blocks ms = concat (map am_content ms)"

lemma all_blocks_simps [simp]:
  "all_blocks [] = []"
  "all_blocks (m # ms) = am_content m @ all_blocks ms"
  by (simp_all add: all_blocks_def)

lemma ids_append [simp]:
  "result_ids (xs @ ys) = result_ids xs @ result_ids ys"
  "call_ids (xs @ ys) = call_ids xs @ call_ids ys"
  by (simp_all add: result_ids_def call_ids_def map_filter_def)

lemma result_ids_unfinished [simp]: "result_ids (map unfinished is) = is"
  by (induction "is") (simp_all add: result_ids_def map_filter_def unfinished_def)

lemma result_ids_simps [simp]:
  "result_ids [] = []"
  "result_ids (b # bs) = (case result_id b of None \<Rightarrow> result_ids bs | Some i \<Rightarrow> i # result_ids bs)"
  by (simp_all add: result_ids_def map_filter_def split: option.split)

lemma answer_user [simp]:
  "am_role m \<noteq> ''assistant'' \<Longrightarrow> answer_unfinished_tool_calls (m # ms) = m # answer_unfinished_tool_calls ms"
  "answer_unfinished_tool_calls [] = []"
  by (simp_all add: answer_unfinished_tool_calls.simps)

text \<open>The calls of each assistant message with no result in the run of user messages after it.\<close>

definition run_results :: "anthropic_message list \<Rightarrow> string set" where
  "run_results ms = set (result_ids (all_blocks (takeWhile (\<lambda>m. am_role m = ''user'') ms)))"

fun unanswered :: "anthropic_message list \<Rightarrow> string list" where
  "unanswered [] = []"
| "unanswered (m # ms) =
     (if am_role m = ''assistant'' then filter (\<lambda>i. i \<notin> run_results ms) (call_ids (am_content m)) else [])
     @ unanswered ms"

lemma run_results_simps [simp]:
  "run_results [] = {}"
  "am_role m = ''user'' \<Longrightarrow> run_results (m # ms) = set (result_ids (am_content m)) \<union> run_results ms"
  "am_role m \<noteq> ''user'' \<Longrightarrow> run_results (m # ms) = {}"
  by (simp_all add: run_results_def)

lemma late_results_unanswered: "unanswered (snd (late_results calls next ms)) = unanswered ms"
proof (induction ms)
  case (Cons m ms)
  then show ?case by (cases "am_role m = ''user''") (simp_all add: late_results_cons)
qed simp

lemma late_results_rest:
  assumes "am_role m = ''user''"
  shows "all_blocks (snd (late_results calls next (m # ms)))
    = filter (\<lambda>b. \<not> is_late calls next b) (am_content m) @ all_blocks (snd (late_results calls next ms))"
proof -
  have "(if k = [] then r else m\<lparr>am_content := k\<rparr> # r) = rr \<Longrightarrow> all_blocks rr = k @ all_blocks r" for k r rr
    by auto
  from this [OF late_results_user(2) [OF assms, symmetric]] show ?thesis .
qed

lemma late_results_blocks:
  "mset (fst (late_results calls next ms)) + mset (all_blocks (snd (late_results calls next ms))) = mset (all_blocks ms)"
proof (induction ms)
  case (Cons m ms)
  have parts: "mset (filter (is_late calls next) (am_content m))
      + mset (filter (\<lambda>b. \<not> is_late calls next b) (am_content m)) = mset (am_content m)"
    by (metis mset_filter multiset_partition)
  show ?case
  proof (cases "am_role m = ''user''")
    case True
    have "mset (fst (late_results calls next (m # ms))) + mset (all_blocks (snd (late_results calls next (m # ms))))
      = (mset (filter (is_late calls next) (am_content m)) + mset (filter (\<lambda>b. \<not> is_late calls next b) (am_content m)))
        + (mset (fst (late_results calls next ms)) + mset (all_blocks (snd (late_results calls next ms))))"
      by (simp only: late_results_user(1) [OF True] late_results_rest [OF True] mset_append ac_simps)
    then show ?thesis unfolding parts Cons by simp
  qed (simp add: late_results_cons)
qed simp

abbreviation no_result :: "content_block \<Rightarrow> bool" where
  "no_result b \<equiv> result_id b = None"

lemma late_is_result: "is_late calls next b \<Longrightarrow> \<not> no_result b"
  by (simp add: is_late_def split: option.splits)

lemma late_results_order:
  "filter no_result (all_blocks (snd (late_results calls next ms))) = filter no_result (all_blocks ms)"
proof (induction ms)
  case (Cons m ms)
  have kept: "filter no_result (filter (\<lambda>b. \<not> is_late calls next b) (am_content m)) = filter no_result (am_content m)"
    by (auto dest: late_is_result intro: filter_cong)
  show ?case
  proof (cases "am_role m = ''user''")
    case True
    show ?thesis by (simp only: late_results_rest [OF True] filter_append kept Cons all_blocks_simps)
  qed (simp add: late_results_cons)
qed simp

lemma late_results_moved: "filter no_result (fst (late_results calls next ms)) = []"
proof (induction ms)
  case (Cons m ms)
  then show ?case
    by (cases "am_role m = ''user''") (auto simp: late_results_cons filter_empty_conv dest: late_is_result)
qed simp

lemma result_ids_late:
  "set (result_ids (filter (is_late calls next) bs)) = {i \<in> set (result_ids bs). i \<in> set calls \<and> i \<notin> set (result_ids next)}"
proof (induction bs)
  case (Cons b bs)
  then show ?case
    by (cases "result_id b") (auto simp: is_late_def)
qed simp

lemma late_results_ids:
  "set (result_ids (fst (late_results calls next ms))) = {i \<in> run_results ms. i \<in> set calls \<and> i \<notin> set (result_ids next)}"
proof (induction ms)
  case (Cons m ms)
  then show ?case
    by (cases "am_role m = ''user''") (auto simp: late_results_cons result_ids_late)
qed simp

text \<open>What the loop makes of the messages after an assistant's, before it goes on with them.\<close>

definition answered_rest :: "string list \<Rightarrow> anthropic_message list \<Rightarrow> anthropic_message list" where
  "answered_rest calls ms =
     (if ms \<noteq> [] \<and> am_role (hd ms) = ''user'' then
        (let n = hd ms; (moved, rest) = late_results calls (am_content n) (tl ms); content = moved @ am_content n
         in n\<lparr>am_content := missing_results calls content @ content\<rparr> # rest)
      else if calls = [] then ms
      else \<lparr>am_role = ''user'', am_content = map unfinished calls\<rparr> # ms)"

lemma answer_assistant:
  "am_role m = ''assistant'' \<Longrightarrow>
    answer_unfinished_tool_calls (m # ms)
      = m # answer_unfinished_tool_calls (answered_rest (call_ids (am_content m)) ms)"
  by (subst answer_unfinished_tool_calls.simps(2), cases ms)
    (simp_all add: answered_rest_def move_late_results_def Let_def case_prod_beta del: answer_user)

lemma answered_rest_user:
  assumes "am_role n = ''user''"
  shows "answered_rest calls (n # rest) =
    n\<lparr>am_content := missing_results calls (fst (late_results calls (am_content n) rest) @ am_content n)
        @ fst (late_results calls (am_content n) rest) @ am_content n\<rparr>
    # snd (late_results calls (am_content n) rest)"
  using assms by (simp add: answered_rest_def Let_def case_prod_beta)

lemma answered_rest_other:
  "ms = [] \<or> am_role (hd ms) \<noteq> ''user'' \<Longrightarrow> answered_rest calls ms =
    (if calls = [] then ms else \<lparr>am_role = ''user'', am_content = map unfinished calls\<rparr> # ms)"
  by (auto simp: answered_rest_def)

lemma run_results_other: "ms = [] \<or> am_role (hd ms) \<noteq> ''user'' \<Longrightarrow> run_results ms = {}"
  by (cases ms) auto

lemma weight_answered_rest: "weight (answered_rest calls ms) \<le> Suc (weight ms)"
proof (cases "ms = [] \<or> am_role (hd ms) \<noteq> ''user''")
  case False
  then obtain n rest where "ms = n # rest" "am_role n = ''user''" by (cases ms) auto
  then show ?thesis
    using weight_late_results [of calls "am_content n" rest] by (simp add: answered_rest_user)
qed (simp add: answered_rest_other)

lemma missing_results_after_move:
  "missing_results calls (fst (late_results calls (am_content n) rest) @ am_content n)
    = map unfinished (filter (\<lambda>i. i \<notin> set (result_ids (am_content n)) \<union> run_results rest) calls)"
  by (auto simp: missing_results_def late_results_ids intro!: arg_cong [where f = "map unfinished"] filter_cong)

lemma answered_rest_answers:
  assumes "calls \<noteq> []"
  obtains n rest where "answered_rest calls ms = n # rest" "am_role n = ''user''"
    "set calls \<subseteq> set (result_ids (am_content n))"
proof (cases "ms = [] \<or> am_role (hd ms) \<noteq> ''user''")
  case True
  with assms have "answered_rest calls ms = \<lparr>am_role = ''user'', am_content = map unfinished calls\<rparr> # ms"
    by (simp add: answered_rest_other)
  then show ?thesis by (rule that) simp_all
next
  case False
  then obtain n rest where ms: "ms = n # rest" "am_role n = ''user''" by (cases ms) auto
  show ?thesis
    unfolding ms(1)
    by (rule that [OF answered_rest_user [OF ms(2), of calls rest, folded ms(1)]])
      (auto simp: ms missing_results_after_move late_results_ids)
qed

lemma answered_rest_blocks:
  "mset (all_blocks (answered_rest calls ms))
    = mset (all_blocks ms) + mset (map unfinished (filter (\<lambda>i. i \<notin> run_results ms) calls))"
proof (cases "ms = [] \<or> am_role (hd ms) \<noteq> ''user''")
  case True
  then show ?thesis by (simp add: answered_rest_other run_results_other)
next
  case False
  then obtain n rest where ms: "ms = n # rest" "am_role n = ''user''" by (cases ms) auto
  have "mset (all_blocks (answered_rest calls ms))
      = mset (map unfinished (filter (\<lambda>i. i \<notin> run_results ms) calls)) + mset (am_content n)
        + (mset (fst (late_results calls (am_content n) rest)) + mset (all_blocks (snd (late_results calls (am_content n) rest))))"
    using ms by (simp add: answered_rest_user missing_results_after_move)
  then show ?thesis unfolding late_results_blocks by (simp add: ms)
qed

lemma no_result_unfinished [simp]: "filter no_result (map unfinished is) = []"
  by (induction "is") (simp_all add: unfinished_def)

lemma answered_rest_order: "filter no_result (all_blocks (answered_rest calls ms)) = filter no_result (all_blocks ms)"
proof (cases "ms = [] \<or> am_role (hd ms) \<noteq> ''user''")
  case False
  then obtain n rest where "ms = n # rest" "am_role n = ''user''" by (cases ms) auto
  then show ?thesis
    by (simp add: answered_rest_user missing_results_after_move late_results_order late_results_moved)
qed (simp add: answered_rest_other)

lemma answered_rest_unanswered: "unanswered (answered_rest calls ms) = unanswered ms"
proof (cases "ms = [] \<or> am_role (hd ms) \<noteq> ''user''")
  case False
  then obtain n rest where "ms = n # rest" "am_role n = ''user''" by (cases ms) auto
  then show ?thesis by (simp add: answered_rest_user late_results_unanswered)
qed (simp add: answered_rest_other)

text \<open>The loop as an induction: what holds of the rest it goes on with holds of the whole.\<close>

lemma answer_induct [case_names Nil other assistant]:
  assumes "P []"
    and "\<And>m ms. am_role m \<noteq> ''assistant'' \<Longrightarrow> P ms \<Longrightarrow> P (m # ms)"
    and "\<And>m ms. am_role m = ''assistant'' \<Longrightarrow> P (answered_rest (call_ids (am_content m)) ms) \<Longrightarrow> P (m # ms)"
  shows "P ms"
proof (induction ms rule: measure_induct_rule [where f = weight])
  case (less ms)
  show ?case
  proof (cases ms)
    case (Cons m rest)
    show ?thesis
    proof (cases "am_role m = ''assistant''")
      case True
      then have "weight (answered_rest (call_ids (am_content m)) rest) < weight ms"
        using Cons weight_answered_rest [of "call_ids (am_content m)" rest] by simp
      with True less Cons assms(3) show ?thesis by simp
    next
      case False
      with less Cons assms(2) show ?thesis by simp
    qed
  qed (simp add: assms(1))
qed

lemma answer_answers:
  assumes "i < length (answer_unfinished_tool_calls ms)"
    and "am_role (answer_unfinished_tool_calls ms ! i) = ''assistant''"
    and "c \<in> set (call_ids (am_content (answer_unfinished_tool_calls ms ! i)))"
  shows "Suc i < length (answer_unfinished_tool_calls ms)
    \<and> am_role (answer_unfinished_tool_calls ms ! Suc i) = ''user''
    \<and> c \<in> set (result_ids (am_content (answer_unfinished_tool_calls ms ! Suc i)))"
  using assms
proof (induction ms arbitrary: i rule: answer_induct)
  case (other m ms)
  then show ?case by (cases i) auto
next
  case (assistant m ms)
  show ?case
  proof (cases i)
    case 0
    with assistant have "c \<in> set (call_ids (am_content m))" by (simp add: answer_assistant)
    moreover from this obtain n rest where "answered_rest (call_ids (am_content m)) ms = n # rest" "am_role n = ''user''"
      "set (call_ids (am_content m)) \<subseteq> set (result_ids (am_content n))"
      by (metis answered_rest_answers empty_iff list.set(1))
    ultimately show ?thesis using 0 assistant(1) by (auto simp: answer_assistant)
  next
    case (Suc j)
    with assistant show ?thesis by (simp add: answer_assistant)
  qed
qed simp

lemma answer_blocks:
  "mset (all_blocks (answer_unfinished_tool_calls ms)) = mset (all_blocks ms) + mset (map unfinished (unanswered ms))"
proof (induction ms rule: answer_induct)
  case (assistant m ms)
  then show ?case
    by (simp add: answer_assistant answered_rest_blocks answered_rest_unanswered)
qed simp_all

lemma answer_order:
  "filter no_result (all_blocks (answer_unfinished_tool_calls ms)) = filter no_result (all_blocks ms)"
proof (induction ms rule: answer_induct)
  case (assistant m ms)
  then show ?case by (simp add: answer_assistant answered_rest_order)
qed simp_all

abbreviation assistants :: "anthropic_message list \<Rightarrow> anthropic_message list" where
  "assistants ms \<equiv> filter (\<lambda>m. am_role m = ''assistant'') ms"

lemma late_results_assistants: "assistants (snd (late_results calls next ms)) = assistants ms"
proof (induction ms)
  case (Cons m ms)
  then show ?case by (cases "am_role m = ''user''") (simp_all add: late_results_cons)
qed simp

lemma answered_rest_assistants: "assistants (answered_rest calls ms) = assistants ms"
proof (cases "ms = [] \<or> am_role (hd ms) \<noteq> ''user''")
  case False
  then obtain n rest where "ms = n # rest" "am_role n = ''user''" by (cases ms) auto
  then show ?thesis by (simp add: answered_rest_user late_results_assistants)
qed (simp add: answered_rest_other)

lemma answer_assistants: "assistants (answer_unfinished_tool_calls ms) = assistants ms"
proof (induction ms rule: answer_induct)
  case (assistant m ms)
  then show ?case by (simp add: answer_assistant answered_rest_assistants)
qed simp_all

section \<open>What a request sends\<close>

lemma replayed_assistant:
  assumes "m \<in> set (replayed_history stripped parsed)" "am_role m = ''assistant''"
  shows "am_content m \<noteq> []" "b \<in> set (am_content m) \<Longrightarrow> \<not> is_blank_text b"
  using assms
  by (auto simp: replayed_history_def map_filter_def without_blank_reply_def without_blank_text_def Let_def
    split: if_splits)

definition compaction_block :: "content_block \<Rightarrow> bool" where
  "compaction_block b \<longleftrightarrow> (\<exists>t. b = CompactionPlaceholder t) \<or> (\<exists>s i r. b = CompactionSummary s i r)"

lemma unfinished_plain: "\<not> compaction_block (unfinished i)"
  by (simp add: compaction_block_def unfinished_def)

lemma replayed_block_plain: "\<not> compaction_block (replayed_block b)"
  by (cases b) (simp_all add: compaction_block_def)

lemma replayed_history_plain: "b \<in> set (all_blocks (replayed_history stripped parsed)) \<Longrightarrow> \<not> compaction_block b"
proof -
  assume "b \<in> set (all_blocks (replayed_history stripped parsed))"
  then obtain m m' where m: "m = replayed stripped m'" and b: "b \<in> set (am_content (the (without_blank_reply m)))"
      "without_blank_reply m \<noteq> None"
    by (fastforce simp: all_blocks_def replayed_history_def map_filter_def)
  have "b \<in> set (am_content m)"
    using b by (auto simp: without_blank_reply_def without_blank_text_def Let_def split: if_splits)
  then show ?thesis
    using replayed_block_plain unfolding m by (cases m') (auto simp: replayed_def)
qed

text \<open>
  (C20) Every tool call a request replays is answered in the very next message, a user's, as the API
  demands: whatever was saved, in whatever order, and wherever a Stop or a restart cut a turn.
\<close>

theorem every_call_is_answered:
  assumes "history_for_request read_blocks messages stripped = Inr history"
    and "i < length history" and "am_role (history ! i) = ''assistant''"
    and "c \<in> set (call_ids (am_content (history ! i)))"
  shows "Suc i < length history \<and> am_role (history ! Suc i) = ''user''
    \<and> c \<in> set (result_ids (am_content (history ! Suc i)))"
  using assms answer_answers [of i _ c] by (auto simp: history_for_request_def split: sum.splits)

text \<open>A call cut off by a Stop, then the user's next message.\<close>

definition stopped_call :: "saved_message list" where
  "stopped_call = [\<lparr>sm_id = 1, sm_role = ''assistant'', sm_content = ''call''\<rparr>,
                   \<lparr>sm_id = 2, sm_role = ''user'', sm_content = ''carry on''\<rparr>]"

definition read_stopped :: "string \<Rightarrow> string + content_block list" where
  "read_stopped s = Inr [if s = ''call'' then ToolUse ''t1'' ''ls'' (JObject []) else Text s]"

definition sent_stopped :: "anthropic_message list" where
  "sent_stopped = [\<lparr>am_role = ''assistant'', am_content = [ToolUse ''t1'' ''ls'' (JObject [])]\<rparr>,
                   \<lparr>am_role = ''user'', am_content = [unfinished ''t1'', Text ''carry on'']\<rparr>]"

lemma stopped_call_sent: "history_for_request read_stopped stopped_call None = Inr sent_stopped"
proof -
  have name: "safe_tool_name ''ls'' = ''ls''" by code_simp
  have "answer_unfinished_tool_calls
      [\<lparr>am_role = ''assistant'', am_content = [ToolUse ''t1'' ''ls'' (JObject [])]\<rparr>,
       \<lparr>am_role = ''user'', am_content = [Text ''carry on'']\<rparr>] = sent_stopped"
    by (simp add: answer_assistant answered_rest_user call_ids_def map_filter_def missing_results_def sent_stopped_def)
  then show ?thesis
    by (simp add: history_for_request_def stopped_call_def read_stopped_def replayed_history_def latest_boundary_def
      map_filter_def replayed_def strip_foreign_thinking_def without_blank_reply_def without_blank_text_def name)
qed

theorem every_call_is_answered_witness:
  "history_for_request read_stopped stopped_call None = Inr sent_stopped
    \<and> ''t1'' \<in> set (result_ids (am_content (sent_stopped ! 1)))"
  using every_call_is_answered [OF stopped_call_sent, of 0 "''t1''"] stopped_call_sent
  by (simp add: sent_stopped_def call_ids_def map_filter_def)

text \<open>
  (C21) What a request sends has no block Anthropic doesn't know, and no empty reply: every reply in it has
  content, and none of its text is blank.
\<close>

theorem history_is_sendable:
  assumes "history_for_request read_blocks messages stripped = Inr history" and "m \<in> set history"
  shows "(\<forall>b \<in> set (am_content m). \<not> compaction_block b)
    \<and> (am_role m = ''assistant'' \<longrightarrow> am_content m \<noteq> [] \<and> (\<forall>b \<in> set (am_content m). \<not> is_blank_text b))"
proof -
  obtain parsed where history: "history = answer_unfinished_tool_calls (replayed_history stripped parsed)"
    using assms(1) by (auto simp: history_for_request_def split: sum.splits)
  have "b \<in> set (all_blocks (replayed_history stripped parsed)) \<union> unfinished ` UNIV" if "b \<in> set (am_content m)" for b
  proof -
    have "b \<in># mset (all_blocks history)"
      using that assms(2) by (auto simp: all_blocks_def)
    then show ?thesis unfolding history answer_blocks by auto
  qed
  then have "\<not> compaction_block b" if "b \<in> set (am_content m)" for b
    using that replayed_history_plain unfinished_plain by blast
  moreover have "m \<in> set (replayed_history stripped parsed)" if "am_role m = ''assistant''"
    using arg_cong [OF answer_assistants [of "replayed_history stripped parsed"], of set] assms(2) that
    unfolding history by auto
  ultimately show ?thesis using replayed_assistant by blast
qed

theorem history_is_sendable_witness:
  "history_for_request read_stopped stopped_call None = Inr sent_stopped \<and> am_content (hd sent_stopped) \<noteq> []"
  using history_is_sendable [OF stopped_call_sent, of "hd sent_stopped"] stopped_call_sent
  by (simp add: sent_stopped_def)

text \<open>
  Answering the calls loses nothing: the blocks sent are the replayed ones, and one error result for
  each call that has no result before the next assistant message, no other; and the blocks that are no
  results keep their order.
\<close>

theorem answering_loses_nothing:
  "mset (all_blocks (answer_unfinished_tool_calls ms))
     = mset (all_blocks ms) + mset (map unfinished (unanswered ms))
   \<and> filter (\<lambda>b. result_id b = None) (all_blocks (answer_unfinished_tool_calls ms))
     = filter (\<lambda>b. result_id b = None) (all_blocks ms)"
  by (simp add: answer_blocks answer_order)

lemma map_filter_append [simp]: "List.map_filter f (xs @ ys) = List.map_filter f xs @ List.map_filter f ys"
  by (simp add: map_filter_def)

definition boundaries :: "(i64 \<times> string \<times> content_block list) list \<Rightarrow> i64 set" where
  "boundaries parsed = set (concat (map (\<lambda>(_, _, blocks). List.map_filter boundary_of blocks) parsed))"

lemma boundaries_append [simp]: "boundaries (xs @ ys) = boundaries xs \<union> boundaries ys"
  by (simp add: boundaries_def)

lemma in_boundaries:
  "b \<in> boundaries parsed \<longleftrightarrow> (\<exists>i role blocks. (i, role, blocks) \<in> set parsed \<and> (\<exists>block \<in> set blocks. boundary_of block = Some b))"
  by (force simp: boundaries_def map_filter_def)

lemma latest_boundary_Max:
  "latest_boundary parsed = (if boundaries parsed = {} then None else Some (Max (boundaries parsed)))"
proof -
  have "(case l of [] \<Rightarrow> None | b # bs \<Rightarrow> Some (fold max bs b)) = (if set l = {} then None else Some (Max (set l)))"
    for l :: "i64 list"
  proof (cases l)
    case (Cons a as)
    then show ?thesis using Max.set_eq_fold [of a as] by simp
  qed simp
  then show ?thesis unfolding boundaries_def latest_boundary_def by (simp only:)
qed

text \<open>
  A compaction hides what it covers: messages saved at or before its boundary, earlier compactions
  included, change nothing of what is replayed after it.
\<close>

theorem compaction_hides_what_it_covers:
  assumes "(j, role, blocks) \<in> set new" and "CompactionSummary summary b refused \<in> set blocks"
    and "\<And>i r bs. (i, r, bs) \<in> set old \<Longrightarrow> i \<le> b \<and> (\<forall>block \<in> set bs. \<forall>b'. boundary_of block = Some b' \<longrightarrow> b' \<le> b)"
  shows "replayed_history stripped (old @ new) = replayed_history stripped new"
proof -
  have fin: "finite (boundaries ms)" for ms unfolding boundaries_def by (rule finite_set)
  have b: "b \<in> boundaries new" using assms(1,2) by (force simp: in_boundaries)
  have old: "b' \<le> b" if "b' \<in> boundaries old" for b' using that assms(3) by (fastforce simp: in_boundaries)
  have "Max (boundaries (old @ new)) = Max (boundaries new)"
  proof (rule Max_eqI)
    show "Max (boundaries new) \<in> boundaries (old @ new)" using Max_in [OF fin] b by auto
    show "b' \<le> Max (boundaries new)" if "b' \<in> boundaries (old @ new)" for b'
      using that old Max_ge [OF fin b] Max_ge [OF fin, of b' new] by fastforce
  qed (rule fin)
  then have same: "latest_boundary (old @ new) = latest_boundary new"
    and latest: "latest_boundary new = Some (Max (boundaries new))"
    using b by (auto simp: latest_boundary_Max)
  have "filter (\<lambda>(i, _, _). Max (boundaries new) < i) old = []"
    using assms(3) Max_ge [OF fin b] by (fastforce simp: filter_empty_conv)
  then show ?thesis by (simp add: replayed_history_def same latest)
qed

theorem compaction_hides_what_it_covers_witness:
  "replayed_history None ([(1, ''user'', [Text ''old''])] @ [(2, ''user'', [CompactionSummary ''sum'' 1 None])])
    = replayed_history None [(2, ''user'', [CompactionSummary ''sum'' 1 None])]"
  by (rule compaction_hides_what_it_covers [where j = 2 and b = 1]) auto

end
