(* ===== verification/Reply_Calls.thy ===== *)
theory Reply_Calls
  imports Text_Call_Notice Request_History
begin

text \<open>
  \<open>src/turn/reply.rs\<close>, what a turn does after a saved reply: it runs the reply's calls (\<open>run_tools\<close>), corrects
  the calls a reply wrote as text and nudges an empty one (\<open>after_reply\<close>), and counts both toward a bound
  (\<open>TextCallStreak\<close>).

  What a call's tool answers, whether a question is allowed and asked, and what the questions asked parse to
  are \<open>answers\<close>, the parameters of a reply: the database and the tools are behind them. A failed database
  call ends the turn with an error (\<open>None\<close> of \<open>run_tools\<close>).
\<close>

section \<open>Running a reply's calls\<close>

definition ASK_USER :: string where "ASK_USER = ''ask_user''"
definition ASK_PARENT :: string where "ASK_PARENT = ''ask_parent''"
definition FINISH :: string where "FINISH = ''finish''"
definition NOTIFY_USER :: string where "NOTIFY_USER = ''notify_user''"

definition is_question :: "string \<Rightarrow> bool" where
  "is_question name \<longleftrightarrow> name = ASK_USER \<or> name = ASK_PARENT"

record 'q answers =
  an_denied :: "string \<Rightarrow> json \<Rightarrow> string option"
  an_parse_questions :: "json \<Rightarrow> string + 'q"
  an_ask :: "string \<Rightarrow> 'q \<Rightarrow> bool"
  an_ask_parent :: "string \<Rightarrow> json \<Rightarrow> string + unit"
  an_execute :: "string \<Rightarrow> string \<Rightarrow> json \<Rightarrow> string + string"

record ran_tools =
  rt_results :: "content_block list"
  rt_ends :: bool
  rt_asked :: "string option"
  rt_unknown :: "string option"

definition refusal :: "string \<Rightarrow> string \<Rightarrow> content_block" where
  "refusal call why = ToolResult call why (Some True)"

record asking =
  as_results :: "content_block list"
  as_asked :: "string option"
  as_asked_id :: "string option"

definition ONE_SET :: string where
  "ONE_SET = ''ask one set of questions at a time: put them all in one ask_user call''"

definition ONE_QUESTION :: string where
  "ONE_QUESTION =
     ''ask one question at a time: ask_user and ask_parent each end your turn, so call only one of them, once''"

definition ask_one :: "'q answers \<Rightarrow> string \<Rightarrow> string \<Rightarrow> json \<Rightarrow> asking \<Rightarrow> asking option" where
  "ask_one env call name input st =
     (let refused = (\<lambda>why. Some (st\<lparr>as_results := as_results st @ [refusal call why]\<rparr>));
          asked = Some (st\<lparr>as_asked := Some name, as_asked_id := Some call\<rparr>)
      in case an_denied env name input of
           Some denied \<Rightarrow> refused denied
         | None \<Rightarrow>
             (case as_asked st of
                Some first \<Rightarrow> refused (if first = name \<and> name = ASK_USER then ONE_SET else ONE_QUESTION)
              | None \<Rightarrow>
                  (if name = ASK_USER then
                     (case an_parse_questions env input of
                        Inr questions \<Rightarrow> (if an_ask env call questions then asked else None)
                      | Inl e \<Rightarrow> refused e)
                   else
                     (case an_ask_parent env call input of Inr _ \<Rightarrow> asked | Inl e \<Rightarrow> refused e))))"

fun ask_all :: "'q answers \<Rightarrow> content_block list \<Rightarrow> asking \<Rightarrow> asking option" where
  "ask_all env [] st = Some st"
| "ask_all env (ToolUse call name input # blocks) st =
     (if is_question name then
        (case ask_one env call name input st of None \<Rightarrow> None | Some st \<Rightarrow> ask_all env blocks st)
      else ask_all env blocks st)"
| "ask_all env (_ # blocks) st = ask_all env blocks st"

record running =
  ru_results :: "content_block list"
  ru_unknown :: "string option"
  ru_every_unknown :: bool
  ru_finished :: bool

definition run_one :: "'q answers \<Rightarrow> (string \<Rightarrow> string) \<Rightarrow> string list \<Rightarrow> string \<Rightarrow> string \<Rightarrow> json \<Rightarrow> running \<Rightarrow> running" where
  "run_one env lower offered call name input st =
     (let result = an_execute env call name input;
          finished = (ru_finished st \<or> ((name = FINISH \<or> name = NOTIFY_USER) \<and> \<not> isl result));
          resolved = (case result of
              Inl message \<Rightarrow> \<not> (is_unknown_name_error message \<or> is_unoffered_tool_of_an_offered_server name offered)
            | Inr _ \<Rightarrow> True);
          unknown = (if resolved then ru_unknown st
                     else case ru_unknown st of Some n \<Rightarrow> Some n | None \<Rightarrow> Some name);
          block = (case result of
              Inr output \<Rightarrow> ToolResult call output None
            | Inl message \<Rightarrow>
                ToolResult call (if resolved then message else unoffered_call_result lower message name offered) (Some True))
      in \<lparr>ru_results = ru_results st @ [block], ru_unknown = unknown,
          ru_every_unknown = (ru_every_unknown st \<and> \<not> resolved), ru_finished = finished\<rparr>)"

fun run_all :: "'q answers \<Rightarrow> (string \<Rightarrow> string) \<Rightarrow> string list \<Rightarrow> content_block list \<Rightarrow> running \<Rightarrow> running" where
  "run_all env lower offered [] st = st"
| "run_all env lower offered (ToolUse call name input # blocks) st =
     run_all env lower offered blocks (if is_question name then st else run_one env lower offered call name input st)"
| "run_all env lower offered (_ # blocks) st = run_all env lower offered blocks st"

fun tool_uses :: "content_block list \<Rightarrow> (string \<times> string \<times> json) list" where
  "tool_uses [] = []"
| "tool_uses (ToolUse call name input # blocks) = (call, name, input) # tool_uses blocks"
| "tool_uses (_ # blocks) = tool_uses blocks"

definition run_tools :: "'q answers \<Rightarrow> (string \<Rightarrow> string) \<Rightarrow> string list \<Rightarrow> content_block list \<Rightarrow> ran_tools option" where
  "run_tools env lower offered content =
     map_option
       (\<lambda>asked.
          let every_unknown = (\<not> list_ex (\<lambda>(_, name, _). is_question name) (tool_uses content));
              tools = run_all env lower offered content
                \<lparr>ru_results = as_results asked, ru_unknown = None, ru_every_unknown = every_unknown, ru_finished = False\<rparr>
          in \<lparr>rt_results = ru_results tools, rt_ends = (as_asked asked \<noteq> None \<or> ru_finished tools),
              rt_asked = as_asked_id asked,
              rt_unknown = (if ru_every_unknown tools then ru_unknown tools else None)\<rparr>)
       (ask_all env content \<lparr>as_results = [], as_asked = None, as_asked_id = None\<rparr>)"

section \<open>What follows a reply\<close>

record streak =
  st_corrections :: nat
  st_nudged :: bool

definition no_streak :: streak where
  "no_streak = \<lparr>st_corrections = 0, st_nudged = False\<rparr>"

definition after_calls :: "string option \<Rightarrow> streak \<Rightarrow> string + streak" where
  "after_calls unknown st =
     (case unknown of
        Some name \<Rightarrow>
          (if st_corrections st = MAX_TEXT_CALL_CORRECTIONS then Inl (unoffered_bound_error name)
           else Inr (st\<lparr>st_corrections := st_corrections st + 1\<rparr>))
      | None \<Rightarrow> Inr (st\<lparr>st_corrections := 0, st_nudged := False\<rparr>))"

datatype next_step = RunTools "string option" | CallAgain | EndTurn

text \<open>The calls in a reply's text blocks; \<open>None\<close> is a panic.\<close>

fun text_calls :: "(string \<Rightarrow> json option) \<Rightarrow> content_block list \<Rightarrow> text_call list option" where
  "text_calls parse_first [] = Some []"
| "text_calls parse_first (Text t # blocks) =
     (case find_calls parse_first t of
        None \<Rightarrow> None | Some calls \<Rightarrow> map_option ((@) calls) (text_calls parse_first blocks))"
| "text_calls parse_first (_ # blocks) = text_calls parse_first blocks"

fun has_text :: "content_block list \<Rightarrow> bool option" where
  "has_text [] = Some False"
| "has_text (Text t # blocks) =
     (case mask_think t of
        None \<Rightarrow> None | Some masked \<Rightarrow> (if str_trim masked \<noteq> [] then Some True else has_text blocks))"
| "has_text (_ # blocks) = has_text blocks"

text \<open>The step, or the turn's error; the streak after it; the notices it saved. \<open>None\<close> is a panic.\<close>

definition after_reply ::
  "(string \<Rightarrow> json option) \<Rightarrow> (string \<Rightarrow> string) \<Rightarrow> string \<Rightarrow> content_block list \<Rightarrow> string list \<Rightarrow> streak
   \<Rightarrow> ((string + next_step) \<times> streak \<times> string list) option" where
  "after_reply parse_first lower stop_reason content offered st =
     (if is_cut_off stop_reason \<or> stop_reason = ''refusal'' then Some (Inr EndTurn, st, [])
      else if tool_uses content \<noteq> [] then
        (if stop_reason \<noteq> ''tool_use'' then Some (Inr EndTurn, st, [])
         else
           map_option
             (\<lambda>found.
                let made = map (\<lambda>(_, name, _). name) (tool_uses content);
                    calls = filter (\<lambda>c. case tc_name c of None \<Rightarrow> False | Some n \<Rightarrow> n \<notin> set made) found
                in (Inr (RunTools (if calls = [] then None else Some (text_call_notice lower calls offered))), st, []))
             (text_calls parse_first content))
      else
        (case text_calls parse_first content of
           None \<Rightarrow> None
         | Some [] \<Rightarrow>
             map_option
               (\<lambda>answered.
                  if answered \<or> st_nudged st then (Inr EndTurn, st, [])
                  else (Inr CallAgain, st\<lparr>st_corrections := 0, st_nudged := True\<rparr>, [empty_reply_notice]))
               (has_text content)
         | Some calls \<Rightarrow>
             (let notice = text_call_notice lower calls offered
              in if st_corrections st = MAX_TEXT_CALL_CORRECTIONS then Some (Inl (bound_error calls), st, [notice])
                 else Some (Inr CallAgain, st\<lparr>st_corrections := st_corrections st + 1\<rparr>, [notice]))))"

section \<open>The turn's replies\<close>

text \<open>A reply as the turn loop takes it, and where it leaves the turn.\<close>

record 'q turn_reply =
  rp_stop :: string
  rp_content :: "content_block list"
  rp_offered :: "string list"
  rp_answers :: "'q answers"

datatype outcome = Goes_on streak | Ends | Fails "string option"

definition follow_reply ::
  "(string \<Rightarrow> json option) \<Rightarrow> (string \<Rightarrow> string) \<Rightarrow> streak \<Rightarrow> 'q turn_reply \<Rightarrow> outcome option" where
  "follow_reply parse_first lower st r =
     map_option
       (\<lambda>(step, st, _).
          case step of
            Inl e \<Rightarrow> Fails (Some e)
          | Inr EndTurn \<Rightarrow> Ends
          | Inr CallAgain \<Rightarrow> Goes_on st
          | Inr (RunTools _) \<Rightarrow>
              (case run_tools (rp_answers r) lower (rp_offered r) (rp_content r) of
                 None \<Rightarrow> Fails None
               | Some tools \<Rightarrow>
                   (case after_calls (rt_unknown tools) st of
                      Inl e \<Rightarrow> Fails (Some e)
                    | Inr st \<Rightarrow> if rt_ends tools then Ends else Goes_on st)))
       (after_reply parse_first lower (rp_stop r) (rp_content r) (rp_offered r) st)"

fun follow_replies ::
  "(string \<Rightarrow> json option) \<Rightarrow> (string \<Rightarrow> string) \<Rightarrow> streak \<Rightarrow> 'q turn_reply list \<Rightarrow> outcome option" where
  "follow_replies parse_first lower st [] = Some (Goes_on st)"
| "follow_replies parse_first lower st (r # rs) =
     (case follow_reply parse_first lower st r of
        Some (Goes_on st) \<Rightarrow> follow_replies parse_first lower st rs
      | stopped \<Rightarrow> stopped)"

section \<open>What running the calls gives\<close>

abbreviation question_ids :: "content_block list \<Rightarrow> string list" where
  "question_ids content \<equiv> map fst (filter (\<lambda>(_, name, _). is_question name) (tool_uses content))"

abbreviation other_ids :: "content_block list \<Rightarrow> string list" where
  "other_ids content \<equiv> map fst (filter (\<lambda>(_, name, _). \<not> is_question name) (tool_uses content))"

abbreviation the_asked :: "string option \<Rightarrow> string option multiset" where
  "the_asked asked \<equiv> (case asked of None \<Rightarrow> {#} | Some call \<Rightarrow> {#Some call#})"

lemma ask_one_answers:
  assumes "ask_one env call name input st = Some st'" "as_asked st = None \<longleftrightarrow> as_asked_id st = None"
  shows "(as_asked st' = None \<longleftrightarrow> as_asked_id st' = None)
    \<and> mset (map result_id (as_results st')) + the_asked (as_asked_id st')
      = add_mset (Some call) (mset (map result_id (as_results st)) + the_asked (as_asked_id st))"
  using assms by (auto simp: ask_one_def Let_def refusal_def split: option.splits sum.splits if_splits)

lemma ask_all_answers:
  "ask_all env content st = Some st' \<Longrightarrow> as_asked st = None \<longleftrightarrow> as_asked_id st = None \<Longrightarrow>
   (as_asked st' = None \<longleftrightarrow> as_asked_id st' = None)
   \<and> mset (map result_id (as_results st')) + the_asked (as_asked_id st')
     = mset (map result_id (as_results st)) + the_asked (as_asked_id st) + mset (map Some (question_ids content))"
proof (induction env content st rule: ask_all.induct)
  case (2 env call name input blocks st)
  show ?case
  proof (cases "is_question name")
    case True
    obtain st1 where st1: "ask_one env call name input st = Some st1" "ask_all env blocks st1 = Some st'"
      using 2(3) True by (auto split: option.splits)
    from ask_one_answers [OF st1(1) 2(4)] 2(1) [OF True st1] True show ?thesis by simp
  next
    case False
    with 2 show ?thesis by simp
  qed
qed simp_all

lemma run_all_answers:
  "map result_id (ru_results (run_all env lower offered content st))
   = map result_id (ru_results st) @ map Some (other_ids content)"
  by (induction env lower offered content st rule: run_all.induct)
     (auto simp: run_one_def Let_def split: sum.splits)

text \<open>
  (C22) Running a reply's calls answers every one of them exactly once, under its own id: refused questions, failed
  calls and calls of tools nobody offers included. The one call without a result is the question that was
  asked, of which there is at most one, and asking it ends the turn.
\<close>

theorem running_answers_every_call:
  assumes "run_tools env lower offered content = Some tools"
  shows "mset (map result_id (rt_results tools)) + the_asked (rt_asked tools)
      = mset (map (\<lambda>(call, _). Some call) (tool_uses content))
    \<and> (rt_asked tools \<noteq> None \<longrightarrow> rt_ends tools)"
proof -
  obtain asked where asked: "ask_all env content \<lparr>as_results = [], as_asked = None, as_asked_id = None\<rparr> = Some asked"
    using assms by (auto simp: run_tools_def)
  from ask_all_answers [OF this] have questions:
    "as_asked asked = None \<longleftrightarrow> as_asked_id asked = None"
    "mset (map result_id (as_results asked)) + the_asked (as_asked_id asked) = mset (map Some (question_ids content))"
    by simp_all
  have calls: "mset (map Some (question_ids content)) + mset (map Some (other_ids content))
      = mset (map (\<lambda>(call, _). Some call) (tool_uses content))"
    by (induction content rule: tool_uses.induct) auto
  have results: "mset (map result_id (rt_results tools)) = mset (map result_id (as_results asked)) + mset (map Some (other_ids content))"
    using assms asked by (auto simp: run_tools_def Let_def run_all_answers simp del: mset_map map_map)
  have ends: "rt_asked tools = as_asked_id asked" "as_asked asked \<noteq> None \<Longrightarrow> rt_ends tools"
    using assms asked by (auto simp: run_tools_def Let_def)
  have "mset (map result_id (rt_results tools)) + the_asked (rt_asked tools)
      = (mset (map result_id (as_results asked)) + the_asked (as_asked_id asked)) + mset (map Some (other_ids content))"
    unfolding results ends(1) by (simp only: ac_simps)
  then show ?thesis
    using questions(1) ends unfolding questions(2) calls by simp
qed

definition sample_answers :: "unit answers" where
  "sample_answers =
     \<lparr>an_denied = \<lambda>_ _. None, an_parse_questions = \<lambda>_. Inr (), an_ask = \<lambda>_ _. True, an_ask_parent = \<lambda>_ _. Inl ''no parent'',
      an_execute = \<lambda>_ name _. Inl (''unknown tool: '' @ name)\<rparr>"

definition sample_calls :: "content_block list" where
  "sample_calls =
     [ToolUse ''1'' ''ask_user'' (JObject []), ToolUse ''2'' ''bsh'' (JObject []), ToolUse ''3'' ''ask_parent'' (JObject [])]"

lemma sample_run:
  "run_tools sample_answers id [''ls''] sample_calls
   = Some \<lparr>rt_results = [ToolResult ''3'' ONE_QUESTION (Some True),
       ToolResult ''2'' (unoffered_call_result id ''unknown tool: bsh'' ''bsh'' [''ls'']) (Some True)],
      rt_ends = True, rt_asked = Some ''1'', rt_unknown = None\<rparr>"
  by (simp add: sample_answers_def sample_calls_def run_tools_def ask_one_def run_one_def is_question_def ASK_USER_def
      ASK_PARENT_def refusal_def is_unknown_name_error_def starts_with_def FINISH_def NOTIFY_USER_def Let_def)

theorem running_answers_every_call_witness:
  "\<exists>tools. run_tools sample_answers id [''ls''] sample_calls = Some tools \<and> rt_asked tools = Some ''1''
    \<and> mset (map result_id (rt_results tools)) + the_asked (rt_asked tools)
      = mset (map (\<lambda>(call, _). Some call) (tool_uses sample_calls))"
  using running_answers_every_call [OF sample_run] sample_run by auto

lemma run_all_unknown:
  assumes "ru_every_unknown (run_all env lower offered content st)"
  shows "ru_every_unknown st \<and> (\<forall>(call, name, input) \<in> set (tool_uses content). is_question name
      \<or> (\<exists>e. an_execute env call name input = Inl e
          \<and> (is_unknown_name_error e \<or> is_unoffered_tool_of_an_offered_server name offered)))
    \<and> ru_unknown (run_all env lower offered content st)
      = (case ru_unknown st of Some n \<Rightarrow> Some n
         | None \<Rightarrow> map_option (\<lambda>(_, name, _). name) (find (\<lambda>(_, name, _). \<not> is_question name) (tool_uses content)))"
  using assms
proof (induction env lower offered content st rule: run_all.induct)
  case (2 env lower offered call name input blocks st)
  then show ?case
    by (cases "is_question name") (auto simp: run_one_def Let_def split: sum.splits option.splits if_splits)
qed (auto split: option.split)

text \<open>
  A reply counts as made of slips only when it is: the run names an unknown call only if the reply asked no
  question and every one of its calls failed on a name no tool has, or an unoffered tool of an offered
  server; the call named is the reply's first.
\<close>

theorem slips_are_all_of_a_reply:
  assumes "run_tools env lower offered content = Some tools" "rt_unknown tools = Some n"
  shows "(\<forall>(call, name, input) \<in> set (tool_uses content). \<not> is_question name
      \<and> (\<exists>e. an_execute env call name input = Inl e
          \<and> (is_unknown_name_error e \<or> is_unoffered_tool_of_an_offered_server name offered)))
    \<and> tool_uses content \<noteq> [] \<and> n = fst (snd (hd (tool_uses content)))"
proof -
  obtain st where st: "ru_every_unknown (run_all env lower offered content st)"
      "ru_unknown (run_all env lower offered content st) = Some n" "ru_unknown st = None"
      "ru_every_unknown st = (\<not> list_ex (\<lambda>(_, name, _). is_question name) (tool_uses content))"
    using assms by (auto simp: run_tools_def Let_def split: if_splits)
  from run_all_unknown [OF st(1)] have all: "\<forall>(call, name, input) \<in> set (tool_uses content). \<not> is_question name
      \<and> (\<exists>e. an_execute env call name input = Inl e
          \<and> (is_unknown_name_error e \<or> is_unoffered_tool_of_an_offered_server name offered))"
    using st(4) by (auto simp: list_ex_iff)
  have found: "map_option (\<lambda>(_, name, _). name) (find (\<lambda>(_, name, _). \<not> is_question name) (tool_uses content)) = Some n"
    using run_all_unknown [OF st(1)] st(2,3) by simp
  then have "tool_uses content \<noteq> [] \<and> n = fst (snd (hd (tool_uses content)))"
    using all by (cases "tool_uses content") (auto split: if_splits)
  with all show ?thesis by blast
qed

theorem slips_are_all_of_a_reply_witness:
  "\<exists>tools. run_tools sample_answers id [''ls''] [ToolUse ''2'' ''bsh'' (JObject [])] = Some tools
    \<and> rt_unknown tools = Some ''bsh'' \<and> ''bsh'' = fst (snd (hd (tool_uses [ToolUse ''2'' ''bsh'' (JObject [])])))"
proof -
  obtain tools where tools: "run_tools sample_answers id [''ls''] [ToolUse ''2'' ''bsh'' (JObject [])] = Some tools"
      "rt_unknown tools = Some ''bsh''"
    by (simp add: sample_answers_def run_tools_def run_one_def is_question_def ASK_USER_def ASK_PARENT_def
        is_unknown_name_error_def starts_with_def FINISH_def NOTIFY_USER_def Let_def)
  with slips_are_all_of_a_reply [OF tools] show ?thesis by blast
qed

section \<open>Corrections are bounded\<close>








definition sample_reply :: "content_block list \<Rightarrow> unit turn_reply" where
  "sample_reply content = \<lparr>rp_stop = ''end_turn'', rp_content = content, rp_offered = [''ls''], rp_answers = sample_answers\<rparr>"

lemma sample_replies:
  "follow_replies (\<lambda>_. None) id no_streak
     [sample_reply [Text ''<function=rm>{''], sample_reply [], sample_reply [Text ''<function=rm>{'']]
   = Some (Goes_on \<lparr>st_corrections = 1, st_nudged = True\<rparr>)"
proof -
  have "find_calls (\<lambda>_. None) ''<function=rm>{'' = Some [\<lparr>tc_name = Some ''rm''\<rparr>]" by code_simp
  then show ?thesis
    by (simp add: sample_reply_def follow_reply_def after_reply_def is_cut_off_def no_streak_def
        MAX_TEXT_CALL_CORRECTIONS_def Let_def)
qed


end
