(* ===== verification/Request_Guard.thy ===== *)
theory Request_Guard
  imports Prelude "HOL-Library.Word"
begin

text \<open>
  Who may send a request where: \<open>src/request_guard.rs\<close> (requests another website makes to smelt),
  \<open>src/fetch_guard.rs\<close> (requests to a sandbox's servers, and fetch targets) and \<open>src/docker_net.rs\<close> (which
  addresses are a pod's containers).

  The reading of an address is Rust's standard library's, written out. A URL's parser is the \<open>url\<close> crate's,
  a parameter (\<open>parse_url\<close>). A request's headers are a function from a lower-case name to the value read as
  text, if it has one; refusals are values with what their texts quote.
\<close>

unbundle bit_operations_syntax

section \<open>Addresses\<close>

text \<open>\<open>char::to_digit\<close> for radix 10 and 16.\<close>

definition to_digit :: "nat \<Rightarrow> char \<Rightarrow> nat option" where
  "to_digit radix c =
     (let n = of_char c;
          d = (if 48 \<le> n \<and> n \<le> 57 then Some (n - 48)
               else if 97 \<le> n \<and> n \<le> 122 then Some (n - 87)
               else if 65 \<le> n \<and> n \<le> 90 then Some (n - 55)
               else None)
      in case d of Some v \<Rightarrow> if v < radix then Some v else None | None \<Rightarrow> None)"

text \<open>
  \<open>read_number\<close> of \<open>core::net\<close>'s parser: every digit that follows, refused when there are none, more than
  \<open>max_digits\<close>, a leading zero that isn't allowed, or too large a value.
\<close>

definition read_number :: "nat \<Rightarrow> nat \<Rightarrow> bool \<Rightarrow> nat \<Rightarrow> string \<Rightarrow> (nat \<times> string) option" where
  "read_number radix max_digits allow_zero_prefix max_value s =
     (let ds = takeWhile (\<lambda>c. to_digit radix c \<noteq> None) s;
          n = foldl (\<lambda>v c. radix * v + the (to_digit radix c)) 0 ds
      in if ds = [] \<or> length ds > max_digits \<or> n > max_value then None
         else if \<not> allow_zero_prefix \<and> hd ds = CHR ''0'' \<and> length ds > 1 then None
         else Some (n, drop (length ds) s))"

definition read_separator :: "char \<Rightarrow> nat \<Rightarrow> (string \<Rightarrow> ('a \<times> string) option) \<Rightarrow> string \<Rightarrow> ('a \<times> string) option" where
  "read_separator sep i inner s =
     (if i > 0 then (case strip_prefix [sep] s of Some r \<Rightarrow> inner r | None \<Rightarrow> None) else inner s)"

fun read_octets :: "nat \<Rightarrow> nat \<Rightarrow> string \<Rightarrow> (nat list \<times> string) option" where
  "read_octets i 0 s = Some ([], s)"
| "read_octets i (Suc n) s =
     (case read_separator (CHR ''.'') i (read_number 10 3 False 255) s of
        None \<Rightarrow> None
      | Some (v, r) \<Rightarrow> map_option (\<lambda>(vs, r'). (v # vs, r')) (read_octets (Suc i) n r))"

definition read_ipv4 :: "string \<Rightarrow> (nat list \<times> string) option" where
  "read_ipv4 s = read_octets 0 4 s"

fun read_groups :: "nat \<Rightarrow> nat \<Rightarrow> string \<Rightarrow> nat list \<times> bool \<times> string" where
  "read_groups i 0 s = ([], False, s)"
| "read_groups i (Suc n) s =
     (case (if n > 0 then read_separator (CHR '':'') i read_ipv4 s else None) of
        Some (vs, r) \<Rightarrow> ([256 * vs ! 0 + vs ! 1, 256 * vs ! 2 + vs ! 3], True, r)
      | None \<Rightarrow>
          (case read_separator (CHR '':'') i (read_number 16 4 True 65535) s of
             None \<Rightarrow> ([], False, s)
           | Some (g, r) \<Rightarrow> (let (gs, v4, r') = read_groups (Suc i) n r in (g # gs, v4, r'))))"

definition read_ipv6 :: "string \<Rightarrow> (nat list \<times> string) option" where
  "read_ipv6 s =
     (let (head, head_v4, r) = read_groups 0 8 s
      in if length head = 8 then Some (head, r)
         else if head_v4 then None
         else case strip_prefix ''::'' r of
                None \<Rightarrow> None
              | Some r' \<Rightarrow>
                  (let (tail, _, r'') = read_groups 0 (8 - (length head + 1)) r'
                   in Some (head @ replicate (8 - length head - length tail) 0 @ tail, r'')))"

datatype ip_addr = V4 "nat list" | V6 "nat list"

definition parse_ipv4 :: "string \<Rightarrow> nat list option" where
  "parse_ipv4 s =
     (if length s > 15 then None
      else case read_ipv4 s of Some (vs, []) \<Rightarrow> Some vs | _ \<Rightarrow> None)"

definition parse_ip :: "string \<Rightarrow> ip_addr option" where
  "parse_ip s =
     (case read_ipv4 s of
        Some (vs, r) \<Rightarrow> if r = [] then Some (V4 vs) else None
      | None \<Rightarrow> (case read_ipv6 s of Some (gs, []) \<Rightarrow> Some (V6 gs) | _ \<Rightarrow> None))"

fun is_loopback :: "ip_addr \<Rightarrow> bool" where
  "is_loopback (V4 vs) = (vs ! 0 = 127)"
| "is_loopback (V6 gs) = (gs = [0, 0, 0, 0, 0, 0, 0, 1])"

section \<open>The Docker range of a pod\<close>

definition ipv4_u32 :: "nat list \<Rightarrow> 32 word" where
  "ipv4_u32 vs = of_nat (((vs ! 0 * 256 + vs ! 1) * 256 + vs ! 2) * 256 + vs ! 3)"

definition POOL_BASE :: "nat list" where
  "POOL_BASE = [172, 20, 0, 0]"

definition POOL_PREFIX :: nat where
  "POOL_PREFIX = 14"

definition in_docker_pool :: "nat list \<Rightarrow> bool" where
  "in_docker_pool ip =
     (let mask = push_bit (32 - POOL_PREFIX) (- 1 :: 32 word)
      in ipv4_u32 ip AND mask = ipv4_u32 POOL_BASE AND mask)"

definition container_address :: "string \<Rightarrow> nat list option" where
  "container_address host =
     (case parse_ipv4 host of Some ip \<Rightarrow> if in_docker_pool ip then Some ip else None | None \<Rightarrow> None)"

section \<open>Requests to a sandbox\<close>

definition trim_start_char :: "char \<Rightarrow> string \<Rightarrow> string" where
  "trim_start_char x s = dropWhile (\<lambda>c. c = x) s"

definition trim_end_char :: "char \<Rightarrow> string \<Rightarrow> string" where
  "trim_end_char x s = rev (dropWhile (\<lambda>c. c = x) (rev s))"

definition without_dot :: "string \<Rightarrow> string" where
  "without_dot s = (case strip_suffix ''.'' s of Some r \<Rightarrow> r | None \<Rightarrow> s)"

definition is_sandbox_host :: "string \<Rightarrow> bool" where
  "is_sandbox_host host =
     (let host = trim_end_char (CHR '']'') (trim_start_char (CHR ''['') host); host = without_dot host
      in eq_ignore_ascii_case host ''localhost'' \<or> host = ''127.0.0.1'' \<or> host = ''::1'')"

datatype pod_host = Localhost | Container "nat list"

definition sandbox_host :: "string \<Rightarrow> pod_host option" where
  "sandbox_host host =
     (if is_sandbox_host host then Some Localhost else map_option Container (container_address host))"

definition browser_sends_sec_fetch :: "string \<Rightarrow> bool" where
  "browser_sends_sec_fetch host =
     (let host = trim_end_char (CHR '']'') (trim_start_char (CHR ''['') host);
          host = to_ascii_lowercase (without_dot host)
      in host = ''localhost'' \<or> ends_with host ''.localhost''
       \<or> (case parse_ip host of Some ip \<Rightarrow> is_loopback ip | None \<Rightarrow> False))"

record request_source =
  rs_method :: string
  rs_origin :: "string option"
  rs_sec_fetch_site :: "string option"
  rs_sec_fetch_mode :: "string option"
  rs_referer :: "string option"
  rs_upgrade_insecure :: bool

record destination =
  ds_sends_sec_fetch :: bool
  ds_same_site_is_home :: bool

record url =
  url_scheme :: string
  url_host :: "string option"
  url_port :: "nat option"
  url_known_port :: "nat option"

definition url_is_home :: "(string \<Rightarrow> url option) \<Rightarrow> (string \<Rightarrow> nat option \<Rightarrow> bool) \<Rightarrow> string \<Rightarrow> bool" where
  "url_is_home parse_url is_home u =
     (case parse_url u of
        None \<Rightarrow> False
      | Some p \<Rightarrow> (case url_host p of Some host \<Rightarrow> is_home host (url_port p) | None \<Rightarrow> False))"

definition ascii_upper_char :: "char \<Rightarrow> char" where
  "ascii_upper_char c = (if is_ascii_lower c then char_of ((of_char c :: nat) - 32) else c)"

definition to_ascii_uppercase :: "string \<Rightarrow> string" where
  "to_ascii_uppercase s = map ascii_upper_char s"

definition allows_request_from ::
  "(string \<Rightarrow> url option) \<Rightarrow> request_source \<Rightarrow> destination \<Rightarrow> (string \<Rightarrow> nat option \<Rightarrow> bool) \<Rightarrow> bool" where
  "allows_request_from parse_url source dest is_home =
     (case rs_origin source of
        Some origin \<Rightarrow> url_is_home parse_url is_home origin
      | None \<Rightarrow>
          (let get_or_head = (to_ascii_uppercase (rs_method source) \<in> {''GET'', ''HEAD''});
               navigation = (get_or_head \<and> rs_sec_fetch_mode source = Some ''navigate'');
               referer_is_home = (get_or_head \<and>
                 (case rs_referer source of Some r \<Rightarrow> url_is_home parse_url is_home r | None \<Rightarrow> False))
           in case rs_sec_fetch_site source of
                Some site \<Rightarrow>
                  if site = ''same-origin'' \<or> site = ''none'' then True
                  else if site = ''same-site'' then ds_same_site_is_home dest \<or> navigation \<or> referer_is_home
                  else navigation
              | None \<Rightarrow>
                  if ds_sends_sec_fetch dest then True
                  else referer_is_home \<or> (get_or_head \<and> rs_upgrade_insecure source)))"

datatype target_error = Invalid_url | Unsupported_scheme string | No_host | No_port

definition parse_fetch_target :: "(string \<Rightarrow> url option) \<Rightarrow> string \<Rightarrow> target_error + (string \<times> nat)" where
  "parse_fetch_target parse_url u =
     (case parse_url u of
        None \<Rightarrow> Inl Invalid_url
      | Some p \<Rightarrow>
          if url_scheme p \<noteq> ''http'' \<and> url_scheme p \<noteq> ''https'' then Inl (Unsupported_scheme (url_scheme p))
          else case url_host p of
                 None \<Rightarrow> Inl No_host
               | Some host \<Rightarrow>
                   (case (case url_port p of Some port \<Rightarrow> Some port | None \<Rightarrow> url_known_port p) of
                      None \<Rightarrow> Inl No_port | Some port \<Rightarrow> Inr (host, port)))"

section \<open>Requests to smelt\<close>

fun split_commas :: "string \<Rightarrow> string \<Rightarrow> string list" where
  "split_commas acc [] = [rev acc]"
| "split_commas acc (c # cs) = (if c = CHR '','' then rev acc # split_commas [] cs else split_commas (c # acc) cs)"

definition allowed_hosts :: "(string \<Rightarrow> url option) \<Rightarrow> string option \<Rightarrow> string option \<Rightarrow> string list" where
  "allowed_hosts parse_url base_url hosts_list =
     (let hosts = filter (\<lambda>h. h \<noteq> [])
            (map (\<lambda>h. to_ascii_lowercase (str_trim h))
              (split_commas [] (case hosts_list of Some l \<Rightarrow> l | None \<Rightarrow> [])))
      in if hosts = [] then hosts
         else hosts @
           (case base_url of
              None \<Rightarrow> []
            | Some base \<Rightarrow>
                if str_trim base = [] then []
                else (case parse_url (str_trim base) of
                        None \<Rightarrow> []
                      | Some u \<Rightarrow> (case url_host u of Some h \<Rightarrow> [to_ascii_lowercase h] | None \<Rightarrow> []))))"

definition host_name :: "string \<Rightarrow> string" where
  "host_name host =
     to_ascii_lowercase
       (case rsplit_once_char (CHR '':'') host of
          None \<Rightarrow> host
        | Some (name, port) \<Rightarrow> if list_all is_ascii_digit port then name else host)"

definition host_allowed :: "string \<Rightarrow> string list \<Rightarrow> bool" where
  "host_allowed host allowed =
     (case strip_prefix ''['' host of
        Some rest \<Rightarrow> parse_ip (takeWhile (\<lambda>c. c \<noteq> CHR '']'') rest) \<noteq> None
      | None \<Rightarrow>
          (let name = host_name host
           in parse_ip name \<noteq> None \<or> name = ''localhost'' \<or> ends_with name ''.localhost'' \<or> name \<in> set allowed))"

datatype guard_refusal = Not_served_at string | Refused_site string | Refused_origin string

definition origin_host :: "(string \<Rightarrow> url option) \<Rightarrow> string \<Rightarrow> string option" where
  "origin_host parse_url origin =
     (case parse_url origin of
        None \<Rightarrow> None
      | Some u \<Rightarrow> map_option (\<lambda>h. case url_port u of Some p \<Rightarrow> h @ '':'' @ nat_to_string p | None \<Rightarrow> h) (url_host u))"

definition request_refusal ::
  "(string \<Rightarrow> url option) \<Rightarrow> string \<Rightarrow> (string \<rightharpoonup> string) \<Rightarrow> string list \<Rightarrow> guard_refusal option" where
  "request_refusal parse_url method headers allowed =
     (let header = (\<lambda>name. map_option str_trim (headers name));
          unknown = (case header ''host'' of
              Some host \<Rightarrow> if allowed \<noteq> [] \<and> \<not> host_allowed host allowed then Some (Not_served_at host) else None
            | None \<Rightarrow> None)
      in case unknown of
           Some r \<Rightarrow> Some r
         | None \<Rightarrow>
             if method \<in> {''GET'', ''HEAD'', ''OPTIONS''} then None
             else case header ''sec-fetch-site'' of
                    Some site \<Rightarrow>
                      if site = ''same-origin'' \<or> site = ''none'' then None else Some (Refused_site site)
                  | None \<Rightarrow>
                      (case header ''origin'' of
                         None \<Rightarrow> None
                       | Some origin \<Rightarrow>
                           (let request_host = (case header ''x-forwarded-host'' of
                                Some h \<Rightarrow> Some h | None \<Rightarrow> header ''host'')
                            in case (origin_host parse_url origin, request_host) of
                                 (Some o_host, Some h) \<Rightarrow>
                                   if eq_ignore_ascii_case o_host h then None else Some (Refused_origin origin)
                               | _ \<Rightarrow> Some (Refused_origin origin))))"

section \<open>Addresses that are a container's\<close>

definition show_ipv4 :: "nat list \<Rightarrow> string" where
  "show_ipv4 vs =
     nat_to_string (vs ! 0) @ ''.'' @ nat_to_string (vs ! 1) @ ''.'' @ nat_to_string (vs ! 2) @ ''.''
     @ nat_to_string (vs ! 3)"

lemma to_digit_decimal: "is_ascii_digit c \<Longrightarrow> to_digit 10 c = Some (of_char c - 48)"
  by (auto simp: is_ascii_digit_def to_digit_def Let_def)

lemma to_digit_dot: "to_digit 10 (CHR ''.'') = None"
  by (simp add: to_digit_def)

lemma hd_nat_to_string: "hd (nat_to_string n) = CHR ''0'' \<Longrightarrow> n < 10"
proof (induction n rule: nat_to_string.induct)
  case (1 n)
  show ?case
  proof (rule ccontr)
    assume "\<not> n < 10"
    with 1 have "n div 10 < 10" "hd (nat_to_string (n div 10)) = CHR ''0''"
      by (simp_all add: nat_to_string.simps [of n] hd_append)
    moreover from this have "nat_to_string (n div 10) = [digit_char (n div 10)]"
      by (simp add: nat_to_string.simps)
    ultimately have "(of_char (digit_char (n div 10)) :: nat) = 48" by simp
    with \<open>n div 10 < 10\<close> \<open>\<not> n < 10\<close> show False by (simp add: of_char_digit_char)
  qed
qed

lemma length_nat_to_string: "n < 1000 \<Longrightarrow> length (nat_to_string n) \<le> 3"
  by (subst nat_to_string.simps, subst nat_to_string.simps, subst nat_to_string.simps) simp

lemma takeWhile_digits:
  assumes "rest = [] \<or> hd rest = CHR ''.''"
  shows "takeWhile (\<lambda>c. to_digit 10 c \<noteq> None) (nat_to_string n @ rest) = nat_to_string n"
proof -
  have "takeWhile (\<lambda>c. to_digit 10 c \<noteq> None) rest = []"
    using assms to_digit_dot by (cases rest) auto
  moreover have "\<forall>c \<in> set (nat_to_string n). to_digit 10 c \<noteq> None"
    using nat_to_string_digits [of n] by (auto simp: to_digit_decimal)
  ultimately show ?thesis by (simp add: takeWhile_append2)
qed

lemma foldl_digits:
  "\<forall>c \<in> set s. is_ascii_digit c \<Longrightarrow>
     foldl (\<lambda>v c. 10 * v + the (to_digit 10 c)) a s = foldl (\<lambda>v c. 10 * v + (of_char c - 48)) a s"
  by (induction s arbitrary: a) (auto simp: to_digit_decimal)

lemma read_number_decimal:
  assumes "n \<le> 255" and "rest = [] \<or> hd rest = CHR ''.''"
  shows "read_number 10 3 False 255 (nat_to_string n @ rest) = Some (n, rest)"
proof -
  have "foldl (\<lambda>v c. 10 * v + the (to_digit 10 c)) 0 (nat_to_string n) = n"
    using foldl_digits [OF nat_to_string_digits, of 0 n] digits_value_nat_to_string [of n]
    by (simp add: digits_value_def)
  moreover have "length (nat_to_string n) \<le> 3" using assms(1) by (intro length_nat_to_string) simp
  moreover have "length (nat_to_string n) = 1" if "hd (nat_to_string n) = CHR ''0''"
    using hd_nat_to_string [OF that] by (simp add: nat_to_string.simps [of n])
  ultimately show ?thesis
    using assms takeWhile_digits [OF assms(2), of n] by (auto simp: read_number_def Let_def)
qed

lemma parse_show_ipv4:
  assumes "a \<le> 255" "b \<le> 255" "c \<le> 255" "d \<le> 255"
  shows "parse_ipv4 (show_ipv4 [a, b, c, d]) = Some [a, b, c, d]"
proof -
  have "length (show_ipv4 [a, b, c, d]) \<le> 15"
    using assms length_nat_to_string [of a] length_nat_to_string [of b] length_nat_to_string [of c]
      length_nat_to_string [of d] by (simp add: show_ipv4_def)
  moreover have "read_ipv4 (show_ipv4 [a, b, c, d]) = Some ([a, b, c, d], [])"
  proof -
    have four: "(4::nat) = Suc (Suc (Suc (Suc 0)))" by simp
    have last: "read_number 10 3 False 255 (nat_to_string d) = Some (d, [])"
      using read_number_decimal [of d "[]"] assms(4) by simp
    show ?thesis
      unfolding read_ipv4_def four
      using assms last by (simp add: show_ipv4_def read_separator_def read_number_decimal)
  qed
  ultimately show ?thesis by (simp add: parse_ipv4_def)
qed

lemma mask_eq_iff:
  "v AND push_bit n (- 1) = w AND push_bit n (- 1) \<longleftrightarrow> drop_bit n v = drop_bit n w" for v w :: "32 word"
proof
  assume "v AND push_bit n (- 1) = w AND push_bit n (- 1)"
  then have "bit (v AND push_bit n (- 1)) (n + k) = bit (w AND push_bit n (- 1)) (n + k)" for k by simp
  then have masked: "(bit v (n + k) \<and> n + k < 32) = (bit w (n + k) \<and> n + k < 32)" for k
    by (simp add: bit_and_iff bit_not_iff bit_mask_iff)
  have "bit v (n + k) = bit w (n + k)" for k
    using masked [of k] bit_imp_le_length [of v "n + k"] bit_imp_le_length [of w "n + k"] by auto
  then show "drop_bit n v = drop_bit n w"
    by (intro bit_word_eqI) (simp add: bit_drop_bit_eq)
next
  assume eq: "drop_bit n v = drop_bit n w"
  show "v AND push_bit n (- 1) = w AND push_bit n (- 1)"
  proof (rule bit_word_eqI)
    fix k assume "k < LENGTH(32)"
    have "bit (drop_bit n v) (k - n) = bit (drop_bit n w) (k - n)" using eq by simp
    then show "bit (v AND push_bit n (- 1)) k = bit (w AND push_bit n (- 1)) k"
      by (auto simp: bit_and_iff bit_not_iff bit_mask_iff bit_drop_bit_eq)
  qed
qed

lemma in_docker_pool_iff:
  assumes "a \<le> 255" "b \<le> 255" "c \<le> 255" "d \<le> 255"
  shows "in_docker_pool [a, b, c, d] \<longleftrightarrow> a = 172 \<and> 20 \<le> b \<and> b \<le> 23"
proof -
  define n where "n = ((a * 256 + b) * 256 + c) * 256 + d"
  have bound: "n < 2 ^ 32" using assms by (simp add: n_def)
  have base: "ipv4_u32 POOL_BASE = of_nat 2886991872" by (simp add: ipv4_u32_def POOL_BASE_def)
  have ip: "ipv4_u32 [a, b, c, d] = of_nat n"
    unfolding ipv4_u32_def n_def by (rule arg_cong [where f = of_nat]) simp
  have unat: "unat (of_nat m :: 32 word) = m" if "m < 2 ^ 32" for m
    using that by (simp add: unat_of_nat take_bit_nat_eq_self)
  have shift: "unat (drop_bit 18 (of_nat m :: 32 word)) = m div 2 ^ 18" if "m < 2 ^ 32" for m
    unfolding unat_drop_bit_eq unat [OF that] by (rule drop_bit_eq_div)
  have "in_docker_pool [a, b, c, d] \<longleftrightarrow>
      drop_bit 18 (of_nat n :: 32 word) = drop_bit 18 (of_nat 2886991872 :: 32 word)"
    unfolding in_docker_pool_def Let_def mask_eq_iff POOL_PREFIX_def base ip by simp
  also have "\<dots> \<longleftrightarrow> unat (drop_bit 18 (of_nat n :: 32 word)) = unat (drop_bit 18 (of_nat 2886991872 :: 32 word))"
    by (rule word_unat_eq_iff)
  also have "\<dots> \<longleftrightarrow> n div 2 ^ 18 = 11013"
    unfolding shift [OF bound] shift [of 2886991872, simplified] by simp
  also have "\<dots> \<longleftrightarrow> a * 64 + b div 4 = 11013"
  proof -
    have split: "((x * 256 + (4 * q + r)) * 256 + y) * 256 + z = 2 ^ 18 * (x * 64 + q) + (r * 65536 + y * 256 + z)"
      for x q r y z :: nat by (simp add: algebra_simps)
    have "n = 2 ^ 18 * (a * 64 + b div 4) + (b mod 4 * 65536 + c * 256 + d)"
      unfolding n_def split [symmetric] by simp
    moreover have "b mod 4 * 65536 + c * 256 + d < 2 ^ 18"
      using assms mod_less_divisor [of 4 b] by simp
    ultimately have "n div 2 ^ 18 = a * 64 + b div 4" by simp
    then show ?thesis by simp
  qed
  also have "\<dots> \<longleftrightarrow> a = 172 \<and> b div 4 = 5"
  proof -
    have digits: "x * 64 + q = 11013 \<longleftrightarrow> x = 172 \<and> q = 5" if "q < 64" for x q :: nat
    proof
      assume "x * 64 + q = 11013"
      with that have "x \<le> 172" "172 \<le> x" by linarith+
      then have "x = 172" by simp
      with \<open>x * 64 + q = 11013\<close> show "x = 172 \<and> q = 5" by simp
    qed simp
    show ?thesis using assms(2) by (intro digits) simp
  qed
  also have "b div 4 = 5 \<longleftrightarrow> 20 \<le> b \<and> b \<le> 23" by arith
  finally show ?thesis .
qed

text \<open>
  The addresses that mean a container of the conversation's pod are exactly those of
  \<open>172.20.0.0/14\<close>, written as four decimal numbers.
\<close>

theorem containers_are_the_docker_range:
  assumes "a \<le> 255" "b \<le> 255" "c \<le> 255" "d \<le> 255"
  shows "container_address (show_ipv4 [a, b, c, d]) =
    (if a = 172 \<and> 20 \<le> b \<and> b \<le> 23 then Some [a, b, c, d] else None)"
  using parse_show_ipv4 [OF assms] in_docker_pool_iff [OF assms] by (simp add: container_address_def)

theorem containers_are_the_docker_range_witness:
  "container_address (show_ipv4 [172, 21, 0, 2]) = Some [172, 21, 0, 2]
   \<and> container_address (show_ipv4 [10, 43, 0, 1]) = None"
  using containers_are_the_docker_range [of 172 21 0 2] containers_are_the_docker_range [of 10 43 0 1] by simp

section \<open>What gets through\<close>

text \<open>
  Another site's page can't change anything on a sandbox's server: a request that isn't a \<open>GET\<close> or
  \<open>HEAD\<close> gets through only from home (its \<open>Origin\<close>), from the page's own origin or the user, from a
  same-site page where those are all home, or from no browser at all (no \<open>Sec-Fetch-Site\<close> where browsers
  send one).
\<close>

theorem only_home_changes_a_sandbox:
  assumes "allows_request_from parse_url source dest is_home"
    and "to_ascii_uppercase (rs_method source) \<notin> {''GET'', ''HEAD''}"
  shows "(\<exists>origin u host. rs_origin source = Some origin \<and> parse_url origin = Some u \<and> url_host u = Some host
            \<and> is_home host (url_port u))
    \<or> rs_origin source = None
      \<and> (rs_sec_fetch_site source \<in> {Some ''same-origin'', Some ''none''}
         \<or> rs_sec_fetch_site source = Some ''same-site'' \<and> ds_same_site_is_home dest
         \<or> rs_sec_fetch_site source = None \<and> ds_sends_sec_fetch dest)"
  using assms
  by (auto simp: allows_request_from_def url_is_home_def Let_def split: option.splits if_splits)

theorem only_home_changes_a_sandbox_witness:
  "allows_request_from (\<lambda>_. None)
     \<lparr>rs_method = ''POST'', rs_origin = None, rs_sec_fetch_site = Some ''same-origin'', rs_sec_fetch_mode = None,
      rs_referer = None, rs_upgrade_insecure = False\<rparr>
     \<lparr>ds_sends_sec_fetch = True, ds_same_site_is_home = False\<rparr> (\<lambda>_ _. False)
   \<and> (Some ''same-origin'' \<in> {Some ''same-origin'', Some ''none''} \<or> Some ''same-origin'' = Some ''same-site'' \<and> False)"
proof -
  let ?s = "\<lparr>rs_method = ''POST'', rs_origin = None, rs_sec_fetch_site = Some ''same-origin'',
      rs_sec_fetch_mode = None, rs_referer = None, rs_upgrade_insecure = False\<rparr>"
  let ?d = "\<lparr>ds_sends_sec_fetch = True, ds_same_site_is_home = False\<rparr>"
  have a: "allows_request_from (\<lambda>_. None) ?s ?d (\<lambda>_ _. False)"
    by (simp add: allows_request_from_def)
  have b: "to_ascii_uppercase (rs_method ?s) \<notin> {''GET'', ''HEAD''}"
    by (simp add: to_ascii_uppercase_def ascii_upper_char_def is_ascii_lower_def)
  from only_home_changes_a_sandbox [OF a b] a show ?thesis by simp
qed

text \<open>
  What smelt lets through is its own: with the host check on, the request names an address,
  \<open>localhost\<close> or a known host; and a request that can change something comes from smelt's own page, from
  the user, or from no browser page at all, by \<open>Sec-Fetch-Site\<close> or, without it, by its \<open>Origin\<close>.
\<close>

theorem accepted_requests_are_smelts_own:
  assumes "request_refusal parse_url method headers allowed = None"
  shows "(allowed = [] \<or> headers ''host'' = None
        \<or> (\<exists>host. headers ''host'' = Some host \<and> host_allowed (str_trim host) allowed))
    \<and> (method \<in> {''GET'', ''HEAD'', ''OPTIONS''}
       \<or> map_option str_trim (headers ''sec-fetch-site'') \<in> {Some ''same-origin'', Some ''none''}
       \<or> headers ''sec-fetch-site'' = None
         \<and> (headers ''origin'' = None
            \<or> (\<exists>origin o_host h. headers ''origin'' = Some origin
                  \<and> origin_host parse_url (str_trim origin) = Some o_host
                  \<and> (map_option str_trim (headers ''x-forwarded-host'') = Some h
                     \<or> headers ''x-forwarded-host'' = None \<and> map_option str_trim (headers ''host'') = Some h)
                  \<and> eq_ignore_ascii_case o_host h)))"
  using assms
  by (cases "headers ''host''"; cases "headers ''sec-fetch-site''"; cases "headers ''origin''";
      cases "headers ''x-forwarded-host''")
    (auto simp: request_refusal_def Let_def split: option.splits if_splits)

theorem accepted_requests_are_smelts_own_witness:
  "request_refusal (\<lambda>_. None) ''POST'' [''sec-fetch-site'' \<mapsto> ''same-origin''] [''smelt.example.com''] = None
   \<and> (map_option str_trim (Some ''same-origin'') \<in> {Some ''same-origin'', Some ''none''}
      \<or> Some ''same-origin'' = (None :: string option))"
proof -
  let ?h = "[''sec-fetch-site'' \<mapsto> ''same-origin''] :: string \<rightharpoonup> string"
  have trim: "str_trim ''same-origin'' = ''same-origin''" by code_simp
  have "request_refusal (\<lambda>_. None) ''POST'' ?h [''smelt.example.com''] = None"
    by (simp add: request_refusal_def trim)
  from this accepted_requests_are_smelts_own [OF this] show ?thesis by simp
qed

end
