(* ===== verification/Reply_Heads.thy ===== *)
theory Reply_Heads
  imports Prelude "HOL-Library.Sublist" "HOL-Library.Code_Target_Nat"
begin

text \<open>
  \<open>src/egress_proxy/reply.rs\<close>: the proxy between a sandbox's browser and its pod reads the pod's reply
  heads the way Chrome does, passes interim ones on, and marks the final one \<open>Connection: close\<close>, so a
  connection carries one checked request.

  The pod's stream is the list of what its reads give: bytes, or a failure; a read of nothing, or the list's
  end, is the stream's end. \<open>relay_reply_heads\<close> returns how it ended, what the page was written, and the
  reads left for the raw copy. The page's own write errors are left out.
\<close>

section \<open>Reading a head\<close>

definition STATUS_LINE_SLOP :: nat where
  "STATUS_LINE_SLOP = 4"

definition is_http_at :: "bytes \<Rightarrow> nat \<Rightarrow> bool" where
  "is_http_at buf i \<longleftrightarrow> eq_ignore_ascii_case (take 4 (drop i buf)) ''http''"

definition status_line_start :: "bytes \<Rightarrow> nat option" where
  "status_line_start buf =
     (if length buf < 4 then None
      else List.find (is_http_at buf) [0..<Suc (min (length buf - 4) STATUS_LINE_SLOP)])"

definition is_not_http :: "bytes \<Rightarrow> bool" where
  "is_not_http buf \<longleftrightarrow> STATUS_LINE_SLOP + 4 \<le> length buf \<and> status_line_start buf = None"

definition LF :: char where
  "LF = char_of (10::nat)"

definition CR :: char where
  "CR = char_of (13::nat)"

definition NUL :: char where
  "NUL = char_of (0::nat)"

text \<open>\<open>end_of_head\<close>'s loop: the byte before, whether a line feed was met, and the bytes from index \<open>i\<close> on.\<close>

fun scan_head :: "char \<Rightarrow> bool \<Rightarrow> nat \<Rightarrow> bytes \<Rightarrow> nat option" where
  "scan_head prev was_lf i [] = None"
| "scan_head prev was_lf i (c # cs) =
     (if c = LF then (if was_lf then Some (i + 1) else scan_head c True (i + 1) cs)
      else scan_head c (was_lf \<and> c = CR \<and> prev = LF) (i + 1) cs)"

definition end_of_head :: "bytes \<Rightarrow> nat \<Rightarrow> nat option" where
  "end_of_head buf from = scan_head NUL False from (drop from buf)"

text \<open>\<open>split\<close> at every byte of a kind.\<close>

fun split_when :: "('a \<Rightarrow> bool) \<Rightarrow> 'a list \<Rightarrow> 'a list list" where
  "split_when p [] = [[]]"
| "split_when p (c # cs) =
     (if p c then [] # split_when p cs
      else case split_when p cs of [] \<Rightarrow> [[c]] | l # ls \<Rightarrow> (c # l) # ls)"

definition head_lines :: "bytes \<Rightarrow> bytes list" where
  "head_lines head = filter (\<lambda>line. line \<noteq> []) (split_when (\<lambda>b. b = CR \<or> b = LF) (filter (\<lambda>b. b \<noteq> NUL) head))"

definition u64_max :: u64 where
  "u64_max = 18446744073709551615"

definition read_digit :: "u64 option \<Rightarrow> char \<Rightarrow> u64 option" where
  "read_digit code digit =
     (let value = (case code of None \<Rightarrow> 0 | Some v \<Rightarrow> v)
      in Some (min u64_max (min u64_max (value * 10) + (of_char digit - 48))))"

definition status_code :: "bytes \<Rightarrow> u64" where
  "status_code head =
     (case head_lines head of
        [] \<Rightarrow> 200
      | line # _ \<Rightarrow>
          (if CHR '' '' \<notin> set line then 200
           else
             (let digits = takeWhile is_ascii_digit (dropWhile (\<lambda>b. b = CHR '' '') (dropWhile (\<lambda>b. b \<noteq> CHR '' '') line))
              in case foldl read_digit None digits of None \<Rightarrow> 200 | Some code \<Rightarrow> code)))"

section \<open>Marking the final head\<close>

definition CONNECTION_HEADERS :: "bytes list" where
  "CONNECTION_HEADERS = [''connection'', ''proxy-connection'', ''keep-alive'']"

definition is_ascii_whitespace :: "char \<Rightarrow> bool" where
  "is_ascii_whitespace c \<longleftrightarrow> (of_char c :: nat) \<in> {9, 10, 12, 13, 32}"

definition trim_ascii :: "bytes \<Rightarrow> bytes" where
  "trim_ascii s = rev (dropWhile is_ascii_whitespace (rev (dropWhile is_ascii_whitespace s)))"

definition is_continuation_line :: "bytes \<Rightarrow> bool" where
  "is_continuation_line line \<longleftrightarrow> (case line of [] \<Rightarrow> False | c # _ \<Rightarrow> (of_char c :: nat) \<in> {32, 9})"

definition is_connection_header :: "bytes \<Rightarrow> bool" where
  "is_connection_header line \<longleftrightarrow>
     CHR '':'' \<in> set line
     \<and> list_ex (\<lambda>h. eq_ignore_ascii_case (trim_ascii (takeWhile (\<lambda>b. b \<noteq> CHR '':'') line)) h) CONNECTION_HEADERS"

text \<open>The loop over a head's lines after its status line: whether the last header was dropped, and the lines.\<close>

fun kept_lines :: "bool \<Rightarrow> bytes list \<Rightarrow> bytes list" where
  "kept_lines dropping [] = []"
| "kept_lines dropping (line # lines) =
     (let dropping = (if is_continuation_line line then dropping else is_connection_header line)
      in if dropping then kept_lines dropping lines else line # kept_lines dropping lines)"

definition CRLF :: bytes where
  "CRLF = [CR, LF]"

definition CLOSE :: bytes where
  "CLOSE = ''Connection: close''"

definition close_response_head :: "bytes \<Rightarrow> bytes" where
  "close_response_head head =
     (let lines = head_lines head
      in (case lines of [] \<Rightarrow> [] | status # _ \<Rightarrow> status @ CRLF)
         @ CLOSE @ CRLF
         @ concat (map (\<lambda>line. line @ CRLF) (kept_lines True (drop 1 lines)))
         @ CRLF)"

section \<open>Relaying a reply's heads\<close>

datatype relayed = CopyRest | Ended | Nothing | TooLarge

datatype pod_read = Pod_bytes bytes | Pod_failed string

lemma scan_head_bounds: "scan_head prev was_lf i cs = Some e \<Longrightarrow> i < e \<and> e \<le> i + length cs"
  by (induction prev was_lf i cs rule: scan_head.induct) (fastforce split: if_splits)+

lemma end_of_head_bounds: "end_of_head buf from = Some e \<Longrightarrow> from < e \<and> e \<le> length buf"
  using scan_head_bounds [of NUL False "from" "drop from buf" e]
  by (cases "from \<le> length buf") (auto simp: end_of_head_def)

function relay ::
  "nat \<Rightarrow> bytes \<Rightarrow> nat \<Rightarrow> bool \<Rightarrow> pod_read list \<Rightarrow> (string + relayed) \<times> bytes \<times> pod_read list" where
  "relay limit buf scanned sent_any reads =
     (if is_not_http buf then (Inr (if sent_any then Ended else CopyRest), buf, reads)
      else
        (case (case status_line_start buf of
                 None \<Rightarrow> None
               | Some start \<Rightarrow>
                   map_option (\<lambda>till. (start, till)) (end_of_head buf (max start (scanned - 3)))) of
           Some (start, till) \<Rightarrow>
             (if limit < till - start then (Inr TooLarge, [], reads)
              else
                (let after = drop till buf; head = drop start (take till buf)
                 in if status_code head div 100 = 1 then
                      (let (r, out, rest) = relay limit after 0 True reads in (r, head @ out, rest))
                    else (Inr CopyRest, close_response_head head @ after, reads)))
         | None \<Rightarrow>
             (if limit < length buf then (Inr TooLarge, [], reads)
              else
                (let scanned = (if status_line_start buf \<noteq> None then length buf else scanned)
                 in case reads of
                      Pod_failed e # rest \<Rightarrow> (Inl e, [], rest)
                    | Pod_bytes chunk # rest \<Rightarrow>
                        (if chunk = [] then
                           (if buf = [] \<and> \<not> sent_any then (Inr Nothing, [], rest) else (Inr Ended, buf, rest))
                         else relay limit (buf @ chunk) scanned sent_any rest)
                    | [] \<Rightarrow> (if buf = [] \<and> \<not> sent_any then (Inr Nothing, [], []) else (Inr Ended, buf, []))))))"
  by pat_completeness auto
termination
  by (relation "measures [\<lambda>(_, _, _, _, reads). length reads, \<lambda>(_, buf, _, _, _). length buf]")
    (auto split: option.splits dest!: end_of_head_bounds)

declare relay.simps [simp del]

definition relay_reply_heads :: "nat \<Rightarrow> pod_read list \<Rightarrow> (string + relayed) \<times> bytes \<times> pod_read list" where
  "relay_reply_heads limit reads = relay limit [] 0 False reads"

section \<open>Where a head ends\<close>

definition ends_blank :: "bytes \<Rightarrow> bool" where
  "ends_blank s \<longleftrightarrow> suffix [LF, LF] s \<or> suffix [LF, CR, LF] s"

lemma newline_chars [simp]: "LF \<noteq> CR" "CR \<noteq> LF" "LF \<noteq> NUL" "NUL \<noteq> LF" "CR \<noteq> NUL" "NUL \<noteq> CR"
  by (simp_all add: LF_def CR_def NUL_def)

lemma suffix_snoc_Cons: "suffix (xs @ [x]) (ys @ [y]) \<longleftrightarrow> x = y \<and> suffix xs ys"
  by auto

lemma ends_blank_snoc:
  "ends_blank (s @ [c]) \<longleftrightarrow> c = LF \<and> (suffix [LF] s \<or> suffix [LF, CR] s)"
  using suffix_snoc_Cons [of "[LF]" LF s c] suffix_snoc_Cons [of "[LF, CR]" LF s c]
  by (auto simp: ends_blank_def)

text \<open>The scan finds the first place where the bytes read so far end with a blank line.\<close>

lemma scan_head_find:
  assumes "prev = (if pre = [] then NUL else last pre)"
    and "was_lf \<longleftrightarrow> suffix [LF] pre \<or> suffix [LF, CR] pre"
  shows "scan_head prev was_lf i cs
    = map_option (\<lambda>n. i + n) (List.find (\<lambda>n. ends_blank (pre @ take n cs)) [1..<Suc (length cs)])"
  using assms
proof (induction cs arbitrary: prev was_lf i pre)
  case (Cons c cs)
  have upt: "[1..<Suc (length (c # cs))] = 1 # map Suc [1..<Suc (length cs)]"
    by (simp only: map_Suc_upt list.size) (simp add: upt_conv_Cons del: upt_Suc)
  have rest: "List.find (\<lambda>n. ends_blank (pre @ take n (c # cs))) (map Suc [1..<Suc (length cs)])
      = map_option Suc (List.find (\<lambda>n. ends_blank ((pre @ [c]) @ take n cs)) [1..<Suc (length cs)])"
    by (simp add: find_map)
  have first: "ends_blank (pre @ take 1 (c # cs)) \<longleftrightarrow> c = LF \<and> was_lf"
    using Cons.prems(2) by (simp add: ends_blank_snoc)
  have step: "scan_head c (c = LF \<or> was_lf \<and> c = CR \<and> prev = LF) (i + 1) cs
      = map_option (\<lambda>n. i + 1 + n) (List.find (\<lambda>n. ends_blank ((pre @ [c]) @ take n cs)) [1..<Suc (length cs)])"
  proof (rule Cons.IH)
    show "(c = LF \<or> was_lf \<and> c = CR \<and> prev = LF) \<longleftrightarrow> suffix [LF] (pre @ [c]) \<or> suffix [LF, CR] (pre @ [c])"
      using Cons.prems suffix_snoc_Cons [of "[]" LF pre c] suffix_snoc_Cons [of "[LF]" CR pre c]
      by (cases pre rule: rev_cases) auto
  qed simp
  have lhs: "scan_head prev was_lf i (c # cs) =
      (if c = LF \<and> was_lf then Some (i + 1) else scan_head c (c = LF \<or> was_lf \<and> c = CR \<and> prev = LF) (i + 1) cs)"
    by auto
  have rhs: "List.find (\<lambda>n. ends_blank (pre @ take n (c # cs))) [1..<Suc (length (c # cs))] =
      (if c = LF \<and> was_lf then Some 1
       else map_option Suc (List.find (\<lambda>n. ends_blank ((pre @ [c]) @ take n cs)) [1..<Suc (length cs)]))"
    unfolding upt by (simp only: find.simps first rest)
  have plus: "(+) (i + 1) = (\<lambda>n. i + Suc n)" by auto
  show ?case unfolding lhs rhs step plus by (simp add: option.map_comp comp_def del: upt_Suc)
qed simp

definition blank_at :: "bytes \<Rightarrow> nat \<Rightarrow> nat \<Rightarrow> bool" where
  "blank_at buf from e \<longleftrightarrow> from < e \<and> e \<le> length buf \<and> ends_blank (drop from (take e buf))"

lemma end_of_head_Some:
  "end_of_head buf from = Some e \<longleftrightarrow> blank_at buf from e \<and> (\<forall>e' < e. \<not> blank_at buf from e')"
proof -
  let ?P = "\<lambda>n. ends_blank (take n (drop from buf))"
  have eq: "end_of_head buf from = map_option (\<lambda>n. from + n) (List.find ?P [1..<Suc (length buf - from)])"
    unfolding end_of_head_def by (subst scan_head_find [where pre = "[]"]) simp_all
  have P: "?P n \<longleftrightarrow> blank_at buf from (from + n)" if "1 \<le> n" "n < Suc (length buf - from)" for n
    using that by (auto simp: blank_at_def take_drop add.commute)
  show ?thesis
  proof
    assume "end_of_head buf from = Some e"
    then obtain n where n: "e = from + n" "List.find ?P [1..<Suc (length buf - from)] = Some n"
      unfolding eq by auto
    have "\<not> blank_at buf from e'" if "e' < e" for e'
      using that n P [of "e' - from"] unfolding find_upt_Some
      by (cases "from < e'") (auto simp: blank_at_def)
    with n P [of n] show "blank_at buf from e \<and> (\<forall>e' < e. \<not> blank_at buf from e')"
      unfolding find_upt_Some by auto
  next
    assume e: "blank_at buf from e \<and> (\<forall>e' < e. \<not> blank_at buf from e')"
    then have "List.find ?P [1..<Suc (length buf - from)] = Some (e - from)"
      unfolding find_upt_Some using P [of "e - from"] P by (auto simp: blank_at_def)
    with e show "end_of_head buf from = Some e" unfolding eq by (auto simp: blank_at_def)
  qed
qed

lemma end_of_head_None: "end_of_head buf from = None \<longleftrightarrow> (\<forall>e. \<not> blank_at buf from e)"
proof
  assume none: "end_of_head buf from = None"
  show "\<forall>e. \<not> blank_at buf from e"
  proof (rule ccontr)
    assume "\<not> (\<forall>e. \<not> blank_at buf from e)"
    then obtain e where "blank_at buf from e" "\<forall>e' < e. \<not> blank_at buf from e'"
      using exists_least_iff [of "blank_at buf from"] by blast
    with none show False using end_of_head_Some [of buf "from" e] by simp
  qed
next
  assume "\<forall>e. \<not> blank_at buf from e"
  then show "end_of_head buf from = None"
    using end_of_head_Some [of buf "from"] by (cases "end_of_head buf from") auto
qed

lemma suffix_drop: "suffix xs (drop n ys) \<longleftrightarrow> suffix xs ys \<and> length xs \<le> length ys - n"
proof
  assume "suffix xs (drop n ys)"
  then show "suffix xs ys \<and> length xs \<le> length ys - n"
    using suffix_length_le by (fastforce intro: suffix_order.trans [OF _ suffix_drop])
next
  assume "suffix xs ys \<and> length xs \<le> length ys - n"
  moreover have "suffix (drop n ys) ys" by (rule suffix_drop)
  ultimately show "suffix xs (drop n ys)" by (auto intro: suffix_length_suffix)
qed

lemma blank_at_iff:
  "blank_at buf from e \<longleftrightarrow> from < e \<and> e \<le> length buf
    \<and> (suffix [LF, LF] (take e buf) \<and> from + 2 \<le> e \<or> suffix [LF, CR, LF] (take e buf) \<and> from + 3 \<le> e)"
  by (auto simp: blank_at_def ends_blank_def suffix_drop)



text \<open>
  Picking the search up three bytes before where the last one stopped finds the same end: the longest end of
  a head has three bytes.
\<close>

lemma resumed_scan:
  assumes "end_of_head (take k buf) start = None" and "k \<le> length buf"
  shows "end_of_head buf (max start (k - 3)) = end_of_head buf start"
proof -
  have none: "\<not> blank_at buf start e" if "e \<le> k" for e
  proof -
    have "take e (take k buf) = take e buf" using that by (simp add: min_absorb1)
    then show ?thesis
      using assms that by (auto simp: end_of_head_None blank_at_def)
  qed
  have same: "blank_at buf (max start (k - 3)) e \<longleftrightarrow> blank_at buf start e" for e
  proof
    assume "blank_at buf (max start (k - 3)) e"
    then show "blank_at buf start e" unfolding blank_at_iff by auto
  next
    assume e: "blank_at buf start e"
    with none have "k < e" by (meson not_le)
    with e show "blank_at buf (max start (k - 3)) e" unfolding blank_at_iff by auto
  qed
  show ?thesis
  proof (cases "end_of_head buf start")
    case None
    then have "end_of_head buf (max start (k - 3)) = None" unfolding end_of_head_None same .
    with None show ?thesis by simp
  next
    case (Some e)
    then have "end_of_head buf (max start (k - 3)) = Some e" unfolding end_of_head_Some same .
    with Some show ?thesis by simp
  qed
qed

section \<open>The status line's start\<close>

lemma is_http_at_append: "i + 4 \<le> length buf \<Longrightarrow> is_http_at (buf @ more) i = is_http_at buf i"
  by (simp add: is_http_at_def)

lemma find_cong_set: "(\<And>x. x \<in> set xs \<Longrightarrow> P x = Q x) \<Longrightarrow> List.find P xs = List.find Q xs"
  by (induction xs) auto

lemma status_line_start_append:
  assumes "status_line_start buf = Some start"
  shows "status_line_start (buf @ more) = Some start"
proof -
  have len: "4 \<le> length buf" using assms by (simp add: status_line_start_def split: if_splits)
  let ?n = "Suc (min (length buf - 4) STATUS_LINE_SLOP)" and ?m = "Suc (min (length (buf @ more) - 4) STATUS_LINE_SLOP)"
  have "?n \<le> ?m" by simp
  then have upt: "[0..<?m] = [0..<?n] @ [?n..<?m]"
    using upt_add_eq_append [of 0 ?n "?m - ?n"] by simp
  have "List.find (is_http_at (buf @ more)) [0..<?n] = List.find (is_http_at buf) [0..<?n]"
    by (rule find_cong_set) (use len in \<open>auto intro!: is_http_at_append\<close>)
  with assms len show ?thesis
    unfolding status_line_start_def upt by (simp add: find_append del: upt_Suc)
qed


section \<open>What the page is sent\<close>

text \<open>The same reading of a reply whose bytes are all there.\<close>

definition whole_head :: "bytes \<Rightarrow> (nat \<times> nat) option" where
  "whole_head body =
     (case status_line_start body of
        None \<Rightarrow> None | Some start \<Rightarrow> map_option (\<lambda>till. (start, till)) (end_of_head body start))"

lemma whole_head_bounds: "whole_head body = Some (start, till) \<Longrightarrow> 0 < till \<and> till \<le> length body"
  by (auto simp: whole_head_def split: option.splits dest!: end_of_head_bounds)




text \<open>How far the search got: to where no head of the bytes so far ends.\<close>

definition scanned_ok :: "bytes \<Rightarrow> nat \<Rightarrow> bool" where
  "scanned_ok buf scanned \<longleftrightarrow> scanned = 0
     \<or> scanned \<le> length buf
       \<and> (\<exists>start. status_line_start (take scanned buf) = Some start \<and> end_of_head (take scanned buf) start = None)"

lemma scanned_ok_0 [simp]: "scanned_ok buf 0"
  by (simp add: scanned_ok_def)

lemma scanned_ok_start:
  assumes "scanned_ok buf scanned" "0 < scanned"
  obtains start where "status_line_start buf = Some start" "end_of_head (take scanned buf) start = None" "scanned \<le> length buf"
  using assms status_line_start_append [of "take scanned buf" _ "drop scanned buf"]
  by (fastforce simp: scanned_ok_def)

lemma scan_is_whole_head:
  assumes "scanned_ok buf scanned"
  shows "(case status_line_start buf of
            None \<Rightarrow> None
          | Some start \<Rightarrow> map_option (\<lambda>till. (start, till)) (end_of_head buf (max start (scanned - 3)))) = whole_head buf"
proof (cases "scanned = 0")
  case True
  then show ?thesis by (cases "status_line_start buf") (simp_all add: whole_head_def)
next
  case False
  with assms obtain start where "status_line_start buf = Some start" "end_of_head (take scanned buf) start = None"
      "scanned \<le> length buf"
    by (auto elim: scanned_ok_start)
  then show ?thesis by (simp add: whole_head_def resumed_scan)
qed

lemma scanned_ok_next:
  assumes "scanned_ok buf scanned" "whole_head buf = None"
  shows "scanned_ok (buf @ chunk) (if status_line_start buf \<noteq> None then length buf else scanned)"
proof (cases "status_line_start buf")
  case None
  with assms(1) have "scanned = 0" by (auto elim: scanned_ok_start)
  with None show ?thesis by simp
next
  case (Some start)
  with assms(2) show ?thesis by (auto simp: whole_head_def scanned_ok_def split: option.splits)
qed

lemma relay_step:
  assumes "scanned_ok buf scanned"
  shows "relay limit buf scanned sent_any reads =
    (if is_not_http buf then (Inr (if sent_any then Ended else CopyRest), buf, reads)
     else
       (case whole_head buf of
          Some (start, till) \<Rightarrow>
            (if limit < till - start then (Inr TooLarge, [], reads)
             else
               (let after = drop till buf; head = drop start (take till buf)
                in if status_code head div 100 = 1 then
                     (let (r, out, rest) = relay limit after 0 True reads in (r, head @ out, rest))
                   else (Inr CopyRest, close_response_head head @ after, reads)))
        | None \<Rightarrow>
            (if limit < length buf then (Inr TooLarge, [], reads)
             else
               (let scanned = (if status_line_start buf \<noteq> None then length buf else scanned)
                in case reads of
                     Pod_failed e # rest \<Rightarrow> (Inl e, [], rest)
                   | Pod_bytes chunk # rest \<Rightarrow>
                       (if chunk = [] then
                          (if buf = [] \<and> \<not> sent_any then (Inr Nothing, [], rest) else (Inr Ended, buf, rest))
                        else relay limit (buf @ chunk) scanned sent_any rest)
                   | [] \<Rightarrow> (if buf = [] \<and> \<not> sent_any then (Inr Nothing, [], []) else (Inr Ended, buf, []))))))"
  by (subst relay.simps) (simp only: scan_is_whole_head [OF assms])

text \<open>The loop as an induction, with the search's bound out of the way.\<close>

lemma relay_induct [case_names step]:
  assumes "\<And>buf scanned sent_any reads.
    scanned_ok buf scanned \<Longrightarrow>
    (\<And>start till. whole_head buf = Some (start, till) \<Longrightarrow> P (drop till buf) 0 True reads) \<Longrightarrow>
    (\<And>chunk rest. whole_head buf = None \<Longrightarrow> reads = Pod_bytes chunk # rest \<Longrightarrow> chunk \<noteq> [] \<Longrightarrow>
       P (buf @ chunk) (if status_line_start buf \<noteq> None then length buf else scanned) sent_any rest) \<Longrightarrow>
    P buf scanned sent_any reads"
    and "scanned_ok buf scanned"
  shows "P buf scanned sent_any reads"
  using assms(2)
proof (induction "(buf, scanned, sent_any, reads)" arbitrary: buf scanned sent_any reads
    rule: wf_induct_rule [OF wf_measures [of "[\<lambda>(_, _, _, reads). length reads, \<lambda>(buf, _, _, _). length buf]"]])
  case (1 buf scanned sent_any reads)
  show ?case
  proof (rule assms(1) [OF 1(2)])
    fix start till assume "whole_head buf = Some (start, till)"
    then show "P (drop till buf) 0 True reads"
      by (intro 1(1)) (auto dest!: whole_head_bounds)
  next
    fix chunk rest assume "whole_head buf = None" "reads = Pod_bytes chunk # rest" "chunk \<noteq> []"
    then show "P (buf @ chunk) (if status_line_start buf \<noteq> None then length buf else scanned) sent_any rest"
      using scanned_ok_next [OF 1(2)] by (intro 1(1)) auto
  qed
qed

fun read_bytes :: "pod_read \<Rightarrow> bytes" where
  "read_bytes (Pod_bytes chunk) = chunk"
| "read_bytes (Pod_failed _) = []"

definition all_bytes :: "pod_read list \<Rightarrow> bytes" where
  "all_bytes reads = concat (map read_bytes reads)"

lemma all_bytes_simps [simp]:
  "all_bytes [] = []" "all_bytes (r # rs) = read_bytes r @ all_bytes rs"
  by (simp_all add: all_bytes_def)








lemma relay_heads:
  assumes "scanned_ok buf scanned" and "relay limit buf scanned sent_any reads = (r, out, rest)"
  shows "\<exists>interims tail. out = concat interims @ tail
    \<and> (\<forall>h \<in> set interims. status_code h div 100 = 1)
    \<and> (case r of
         Inr CopyRest \<Rightarrow> (\<exists>head after. tail = close_response_head head @ after \<and> status_code head div 100 \<noteq> 1)
           \<or> \<not> sent_any \<and> interims = [] \<and> is_not_http tail
       | Inr Ended \<Rightarrow> is_not_http tail \<or> whole_head tail = None
       | _ \<Rightarrow> tail = [])"
    (is "\<exists>interims tail. ?ok r sent_any out interims tail")
  using assms(2)
proof (induction buf scanned sent_any reads arbitrary: out rule: relay_induct)
  case (step buf scanned sent_any reads)
  show ?case
  proof (cases "is_not_http buf")
    case True
    with step(4) show ?thesis by (intro exI [of _ "[]"] exI [of _ buf]) (auto simp: relay_step [OF step(1)])
  next
    case http: False
    show ?thesis
    proof (cases "whole_head buf")
      case None
      show ?thesis
      proof (cases "limit < length buf")
        case True
        with None http step(4) show ?thesis
          by (intro exI [of _ "[]"] exI [of _ "[]"]) (auto simp: relay_step [OF step(1)])
      next
        case False
        show ?thesis
        proof (cases "\<exists>chunk rest'. reads = Pod_bytes chunk # rest' \<and> chunk \<noteq> []")
          case True
          then obtain chunk rest' where r: "reads = Pod_bytes chunk # rest'" "chunk \<noteq> []" by auto
          show ?thesis
            by (rule step(3) [OF None r]) (use step(4) r None http False in \<open>simp add: relay_step [OF step(1)]\<close>)
        next
          case ended: False
          with None http step(4) False show ?thesis
            by (intro exI [of _ "[]"] exI [of _ out])
              (auto simp: relay_step [OF step(1)] split: list.splits pod_read.splits if_splits)
        qed
      qed
    next
      case (Some p)
      then obtain start till where p: "whole_head buf = Some (start, till)" by (cases p) auto
      let ?head = "drop start (take till buf)"
      consider (large) "limit < till - start" | (final) "\<not> limit < till - start" "status_code ?head div 100 \<noteq> 1"
        | (interim) "\<not> limit < till - start" "status_code ?head div 100 = 1" by blast
      then show ?thesis
      proof cases
        case large
        with p http step(4) show ?thesis
          by (intro exI [of _ "[]"] exI [of _ "[]"]) (auto simp: relay_step [OF step(1)])
      next
        case final
        with p http step(4) have r: "r = Inr CopyRest" "out = close_response_head ?head @ drop till buf"
          by (simp_all add: relay_step [OF step(1)] Let_def)
        with final have "\<exists>head after. out = close_response_head head @ after \<and> status_code head div 100 \<noteq> 1" by blast
        with r(1) show ?thesis by (intro exI [of _ "[]"] exI [of _ out]) simp
      next
        case interim
        then obtain out' where out': "relay limit (drop till buf) 0 True reads = (r, out', rest)" "out = ?head @ out'"
          using p http step(4) by (auto simp: relay_step [OF step(1)] Let_def split: prod.splits)
        from step(2) [OF p out'(1)] obtain interims tail where "?ok r True out' interims tail" by blast
        with interim out'(2) show ?thesis
          by (intro exI [of _ "?head # interims"] exI [of _ tail]) (auto split: sum.splits relayed.splits)
      qed
    qed
  qed
qed (rule assms(1))

text \<open>
  Every final head the proxy passes on is marked closed: whatever the pod sends and however it arrives,
  the page gets interim heads unchanged, then either the final head through \<open>close_response_head\<close> with
  what follows it, or bytes Chrome doesn't read as a reply (nothing of it sent before), or, when the
  stream ends early, bytes that hold no whole head.
\<close>

theorem final_head_is_closed:
  assumes "relay_reply_heads limit reads = (r, out, rest)"
  shows "\<exists>interims tail. out = concat interims @ tail
    \<and> (\<forall>h \<in> set interims. status_code h div 100 = 1)
    \<and> (case r of
         Inr CopyRest \<Rightarrow> (\<exists>head after. tail = close_response_head head @ after \<and> status_code head div 100 \<noteq> 1)
           \<or> interims = [] \<and> is_not_http tail
       | Inr Ended \<Rightarrow> is_not_http tail \<or> whole_head tail = None
       | _ \<Rightarrow> tail = [])"
proof -
  from relay_heads [OF scanned_ok_0 assms [unfolded relay_reply_heads_def]] obtain interims tail where
    "out = concat interims @ tail" "\<forall>h \<in> set interims. status_code h div 100 = 1"
    "case r of
       Inr CopyRest \<Rightarrow> (\<exists>head after. tail = close_response_head head @ after \<and> status_code head div 100 \<noteq> 1)
         \<or> \<not> False \<and> interims = [] \<and> is_not_http tail
     | Inr Ended \<Rightarrow> is_not_http tail \<or> whole_head tail = None
     | _ \<Rightarrow> tail = []"
    by blast
  then show ?thesis
    by (intro exI [of _ interims] exI [of _ tail]) (auto split: sum.splits relayed.splits)
qed

section \<open>The closed head\<close>

text \<open>A head's headers, each with its continuation lines; lines before the first header belong to none.\<close>

function header_groups :: "bytes list \<Rightarrow> bytes list list" where
  "header_groups [] = []"
| "header_groups (line # lines) =
     (if is_continuation_line line then header_groups lines
      else (line # takeWhile is_continuation_line lines) # header_groups (dropWhile is_continuation_line lines))"
  by pat_completeness auto
termination
  by (relation "measure length") (auto simp: le_imp_less_Suc length_dropWhile_le)

lemma kept_lines_continuations:
  "list_all is_continuation_line ls \<Longrightarrow>
    kept_lines dropping (ls @ rest) = (if dropping then [] else ls) @ kept_lines dropping rest"
  by (induction ls) (auto simp: Let_def)

lemma kept_lines_groups:
  "kept_lines True lines = concat (filter (\<lambda>g. \<not> is_connection_header (hd g)) (header_groups lines))"
proof (induction lines rule: header_groups.induct)
  case (2 line lines)
  let ?c = "takeWhile is_continuation_line lines" and ?r = "dropWhile is_continuation_line lines"
  have c: "list_all is_continuation_line ?c" by (auto simp: list_all_iff dest: set_takeWhileD)
  have r: "kept_lines d ?r = kept_lines True ?r" for d
  proof (cases ?r)
    case (Cons l ls)
    then show ?thesis using hd_dropWhile [of is_continuation_line lines] by (simp add: Let_def)
  qed (simp only: kept_lines.simps)
  have "kept_lines d lines = (if d then [] else ?c) @ kept_lines True ?r" for d
    using kept_lines_continuations [OF c, of d ?r] r [of d] by simp
  with 2 show ?case by (auto simp: Let_def)
qed simp

abbreviation line_end :: "char \<Rightarrow> bool" where
  "line_end b \<equiv> b = CR \<or> b = LF"

definition plain_line :: "bytes \<Rightarrow> bool" where
  "plain_line l \<longleftrightarrow> l \<noteq> [] \<and> (\<forall>b \<in> set l. \<not> line_end b \<and> b \<noteq> NUL)"

lemma split_when_nonempty [simp]: "split_when p cs \<noteq> []"
  by (induction cs) (auto split: list.split)

lemma split_when_line: "\<forall>b \<in> set l. \<not> p b \<Longrightarrow> p c \<Longrightarrow> split_when p (l @ c # rest) = l # split_when p rest"
  by (induction l) simp_all

lemma split_when_parts: "l \<in> set (split_when p cs) \<Longrightarrow> b \<in> set l \<Longrightarrow> b \<in> set cs \<and> \<not> p b"
proof (induction cs arbitrary: l)
  case (Cons c cs)
  show ?case
  proof (cases "split_when p cs")
    case parts: (Cons a ls)
    then show ?thesis using Cons.IH [of a] Cons.IH [of l] Cons.prems by (auto split: if_splits)
  qed simp
qed auto

lemma head_lines_plain: "l \<in> set (head_lines head) \<Longrightarrow> plain_line l"
  by (auto simp: head_lines_def plain_line_def dest!: split_when_parts)

lemma head_lines_line:
  assumes "plain_line l"
  shows "head_lines (l @ CRLF @ rest) = l # head_lines rest"
proof -
  have l: "filter (\<lambda>b. b \<noteq> NUL) l = l" using assms by (auto simp: plain_line_def intro: filter_True)
  have "split_when line_end (l @ CR # LF # xs) = l # [] # split_when line_end xs" for xs
    using assms split_when_line [of l line_end CR] by (simp add: plain_line_def)
  with assms l show ?thesis by (simp add: head_lines_def CRLF_def plain_line_def)
qed

lemma head_lines_lines:
  "list_all plain_line ls \<Longrightarrow> head_lines (concat (map (\<lambda>l. l @ CRLF) ls) @ rest) = ls @ head_lines rest"
  by (induction ls) (simp_all add: head_lines_line)

lemma head_lines_blank [simp]: "head_lines CRLF = []" "head_lines [] = []"
  by (simp_all add: head_lines_def CRLF_def)

lemma plain_CLOSE: "plain_line CLOSE"
  unfolding plain_line_def CLOSE_def by code_simp

lemma kept_lines_subset: "set (kept_lines d lines) \<subseteq> set lines"
proof (induction lines arbitrary: d)
  case (Cons line lines)
  then show ?case by (cases d; cases "is_continuation_line line"; cases "is_connection_header line") (auto simp: Let_def)
qed simp

text \<open>
  The final head, as a reader splits it into lines again, is the status line, \<open>Connection: close\<close>, and
  every other header with its continuation lines, in order and unchanged, but for the ones named
  \<open>Connection\<close>, \<open>Proxy-Connection\<close> or \<open>Keep-Alive\<close>.
\<close>

theorem closed_head_reads_back:
  "head_lines (close_response_head head) =
    take 1 (head_lines head) @ [CLOSE]
    @ concat (filter (\<lambda>g. \<not> is_connection_header (hd g)) (header_groups (drop 1 (head_lines head))))"
proof -
  let ?kept = "kept_lines True (drop 1 (head_lines head))"
  have "list_all plain_line ?kept"
    using kept_lines_subset [of True "drop 1 (head_lines head)"] set_drop_subset [of 1 "head_lines head"] head_lines_plain
    by (fastforce simp: list_all_iff)
  then have "head_lines (CLOSE @ CRLF @ concat (map (\<lambda>l. l @ CRLF) ?kept) @ CRLF) = CLOSE # ?kept"
    using plain_CLOSE by (simp add: head_lines_line head_lines_lines)
  moreover have "head_lines ((case head_lines head of [] \<Rightarrow> [] | status # _ \<Rightarrow> status @ CRLF) @ rest)
      = take 1 (head_lines head) @ head_lines rest" for rest
    using head_lines_plain [of _ head] by (cases "head_lines head") (simp_all add: head_lines_line)
  ultimately show ?thesis
    unfolding kept_lines_groups [symmetric] by (simp add: close_response_head_def Let_def)
qed

text \<open>An early-hints head, then a reply that asks to keep the connection, in three reads.\<close>

definition kept_alive :: "pod_read list" where
  "kept_alive = [Pod_bytes (''HTTP/1.1 103 Early'' @ CRLF), Pod_bytes (CRLF @ ''HTTP/1.1 200 OK'' @ CRLF @ ''Connection: keep-alive'' @ CRLF @ [CR]),
                 Pod_bytes (LF # ''hi'')]"

definition sent_closed :: bytes where
  "sent_closed = ''HTTP/1.1 103 Early'' @ CRLF @ CRLF @ ''HTTP/1.1 200 OK'' @ CRLF @ ''Connection: close'' @ CRLF @ CRLF @ ''hi''"

lemma kept_alive_relayed: "relay_reply_heads 1000 kept_alive = (Inr CopyRest, sent_closed, [])"
  by code_simp

theorem final_head_is_closed_witness:
  "relay_reply_heads 1000 kept_alive = (Inr CopyRest, sent_closed, [])
    \<and> (\<exists>interims tail. sent_closed = concat interims @ tail
      \<and> ((\<exists>head after. tail = close_response_head head @ after \<and> status_code head div 100 \<noteq> 1)
        \<or> interims = [] \<and> is_not_http tail))"
  using final_head_is_closed [OF kept_alive_relayed] kept_alive_relayed by auto


end
