(* ===== verification/Agent_Files.thy ===== *)
theory Agent_Files
  imports Prelude "HOL-Library.Char_ord" "HOL-Library.List_Lexorder"
begin

text \<open>
  \<open>src/bin/sandbox_agent/files.rs\<close>: the file tools the agent in a pod runs (read, write, edit, list, glob,
  grep), with the replies of \<open>src/agent_protocol.rs\<close>.

  The pod's files are a map from path to bytes (\<open>disk\<close>), and each handler takes and returns one. What the
  operating system may refuse is a parameter (\<open>os\<close>): the words of a failed read, the error of making a
  path's parent directories, and a failed write's error with what it left in the file. So are the SHA-256
  (\<open>sha\<close>), the compiled glob and regular expression (\<open>globset\<close>, \<open>regex\<close>), and the entries the
  \<open>ignore\<close> walker gives.
\<close>

section \<open>Replies\<close>

record file_contents =
  fc_lines :: "string list"
  fc_total_lines :: nat
  fc_hash :: string

record dir_entry =
  de_name :: string
  de_is_dir :: bool
  de_size :: "u64 option"

record grep_match =
  gm_path :: string
  gm_line :: u32
  gm_text :: string

record skipped_file =
  sk_path :: string
  sk_reason :: string

record glob_result =
  gl_paths :: "string list"
  gl_total :: nat
  gl_scan_capped :: bool

record grep_result =
  gr_matches :: "grep_match list"
  gr_total :: nat
  gr_scan_capped :: bool
  gr_skipped :: "skipped_file list"

datatype reply =
    TerminalCreated
  | TerminalTerminated
  | FileRead file_contents
  | FileWritten string
  | FileEdited string
  | DirectoryListed "dir_entry list"
  | GlobMatched glob_result
  | GrepMatched grep_result
  | Reply_error string
  | Reply_unknown

section \<open>Editing text\<close>

definition u32_wrap :: "nat \<Rightarrow> u32" where
  "u32_wrap n = n mod 2 ^ 32"

definition find_matches :: "string \<Rightarrow> string \<Rightarrow> nat list" where
  "find_matches haystack needle = matches_from needle 0 haystack"

definition byte_offset_to_line :: "string \<Rightarrow> nat \<Rightarrow> u32" where
  "byte_offset_to_line text offset = u32_wrap (1 + length (filter (\<lambda>b. b = nl) (take offset text)))"

datatype edit_error = NotFound | Ambiguous nat | NoMatchAtLine u32

text \<open>\<open>str::replace\<close>, for a pattern that is not empty.\<close>

function str_replace :: "string \<Rightarrow> string \<Rightarrow> string \<Rightarrow> string" where
  "str_replace old new s =
     (if old = [] then s
      else case split_once old s of
             None \<Rightarrow> s
           | Some (before, after) \<Rightarrow> before @ new @ str_replace old new after)"
  by pat_completeness auto
termination
  by (relation "measure (\<lambda>(_, _, s). length s)") (auto dest!: split_once_parts)

declare str_replace.simps [simp del]

definition apply_edit :: "string \<Rightarrow> string \<Rightarrow> string \<Rightarrow> bool \<Rightarrow> u32 option \<Rightarrow> edit_error + string" where
  "apply_edit content old_string new_string replace_all expected_line =
     (let matches = find_matches content old_string
      in if matches = [] then Inl NotFound
         else if replace_all then Inr (str_replace old_string new_string content)
         else
           (case (case expected_line of
                    Some line \<Rightarrow>
                      (case List.find (\<lambda>offset. byte_offset_to_line content offset = line) matches of
                         None \<Rightarrow> Inl (NoMatchAtLine line)
                       | Some offset \<Rightarrow> Inr offset)
                  | None \<Rightarrow> if length matches > 1 then Inl (Ambiguous (length matches)) else Inr (matches ! 0)) of
              Inl e \<Rightarrow> Inl e
            | Inr offset \<Rightarrow>
                Inr (take offset content @ new_string @ drop (offset + length old_string) content)))"

definition edit_error_message :: "edit_error \<Rightarrow> string" where
  "edit_error_message err =
     (case err of
        NotFound \<Rightarrow> ''old_string not found in file''
      | Ambiguous count \<Rightarrow>
          ''old_string matches '' @ nat_to_string count
          @ '' times; add more surrounding context, set replace_all, or set expected_line to target one occurrence''
      | NoMatchAtLine line \<Rightarrow> ''old_string does not match at line '' @ nat_to_string line)"

section \<open>Pages\<close>

definition paginate_slice :: "'a list \<Rightarrow> u32 \<Rightarrow> u32 \<Rightarrow> 'a list \<times> nat" where
  "paginate_slice items offset limit = (take limit (drop (offset - 1) items), length items)"

definition paginate_lines :: "string \<Rightarrow> u32 \<Rightarrow> u32 \<Rightarrow> string list \<times> nat" where
  "paginate_lines content offset limit =
     (let all_lines = str_lines content
      in (take limit (drop (offset - 1) all_lines), length all_lines))"

definition MAX_FILE_SIZE_BYTES :: u64 where
  "MAX_FILE_SIZE_BYTES = 262144"

definition MAX_DIR_ENTRIES :: nat where
  "MAX_DIR_ENTRIES = 1000"

definition MAX_GREP_FILE_SIZE_BYTES :: u64 where
  "MAX_GREP_FILE_SIZE_BYTES = 5242880"

definition MAX_GLOB_SCAN :: nat where
  "MAX_GLOB_SCAN = 2000"

definition MAX_GREP_SCAN :: nat where
  "MAX_GREP_SCAN = 1000"

section \<open>Reading, writing and editing a file\<close>

type_synonym disk = "string \<rightharpoonup> bytes"

record os =
  os_read_error :: "string \<Rightarrow> string"
  os_make_parents :: "string \<Rightarrow> string option"
  os_write :: "string \<Rightarrow> bytes \<Rightarrow> (string \<times> bytes option) option"

definition write_file :: "os \<Rightarrow> string \<Rightarrow> bytes \<Rightarrow> disk \<Rightarrow> string option \<times> disk" where
  "write_file sys path content disk =
     (case os_write sys path content of
        None \<Rightarrow> (None, disk(path \<mapsto> content))
      | Some (e, left) \<Rightarrow> (Some e, disk(path := left)))"

definition size_limit_text :: string where
  "size_limit_text = nat_to_string MAX_FILE_SIZE_BYTES @ ''-byte size limit''"

definition changed_text :: "string \<Rightarrow> string \<Rightarrow> string \<Rightarrow> string \<Rightarrow> string" where
  "changed_text path expected current before =
     path @ '' has changed since it was last read (expected hash '' @ expected @ '', found '' @ current
     @ ''); read_file again before '' @ before"

definition handle_read_file :: "os \<Rightarrow> (bytes \<Rightarrow> string) \<Rightarrow> string \<Rightarrow> u32 \<Rightarrow> u32 \<Rightarrow> disk \<Rightarrow> reply" where
  "handle_read_file sys sha path offset limit disk =
     (case disk path of
        None \<Rightarrow> Reply_error (''failed to read '' @ path @ '': '' @ os_read_error sys path)
      | Some bytes \<Rightarrow>
          (if length bytes > MAX_FILE_SIZE_BYTES then Reply_error (path @ '' exceeds the '' @ size_limit_text)
           else if \<not> valid_utf8 bytes then Reply_error (path @ '' is not valid UTF-8'')
           else
             (let (lines, total) = paginate_lines bytes offset limit
              in FileRead \<lparr>fc_lines = lines, fc_total_lines = total, fc_hash = sha bytes\<rparr>)))"

definition handle_write_file ::
  "os \<Rightarrow> (bytes \<Rightarrow> string) \<Rightarrow> string \<Rightarrow> string \<Rightarrow> string option \<Rightarrow> disk \<Rightarrow> reply \<times> disk" where
  "handle_write_file sys sha path content expected_hash disk =
     (if length content > MAX_FILE_SIZE_BYTES then (Reply_error (''content exceeds the '' @ size_limit_text), disk)
      else
        (case (case expected_hash of
                 None \<Rightarrow> None
               | Some expected \<Rightarrow>
                   (case disk path of
                      None \<Rightarrow> Some (''failed to read '' @ path @ '' for hash check: '' @ os_read_error sys path)
                    | Some current \<Rightarrow>
                        if sha current \<noteq> expected then Some (changed_text path expected (sha current) ''writing'')
                        else None)) of
           Some e \<Rightarrow> (Reply_error e, disk)
         | None \<Rightarrow>
             (case os_make_parents sys path of
                Some e \<Rightarrow> (Reply_error (''failed to create parent directories for '' @ path @ '': '' @ e), disk)
              | None \<Rightarrow>
                  (case write_file sys path content disk of
                     (Some e, disk') \<Rightarrow> (Reply_error (''failed to write '' @ path @ '': '' @ e), disk')
                   | (None, disk') \<Rightarrow> (FileWritten (sha content), disk')))))"

definition handle_edit_file ::
  "os \<Rightarrow> (bytes \<Rightarrow> string) \<Rightarrow> string \<Rightarrow> string \<Rightarrow> string \<Rightarrow> bool \<Rightarrow> string \<Rightarrow> u32 option \<Rightarrow> disk \<Rightarrow> reply \<times> disk" where
  "handle_edit_file sys sha path old_string new_string replace_all expected_hash expected_line disk =
     (case disk path of
        None \<Rightarrow> (Reply_error (''failed to read '' @ path @ '': '' @ os_read_error sys path), disk)
      | Some bytes \<Rightarrow>
          (if sha bytes \<noteq> expected_hash then
             (Reply_error (changed_text path expected_hash (sha bytes) ''editing''), disk)
           else if \<not> valid_utf8 bytes then (Reply_error (path @ '' is not valid UTF-8''), disk)
           else
             (case apply_edit bytes old_string new_string replace_all expected_line of
                Inl e \<Rightarrow> (Reply_error (edit_error_message e), disk)
              | Inr new_content \<Rightarrow>
                  (case write_file sys path new_content disk of
                     (Some e, disk') \<Rightarrow> (Reply_error (''failed to write '' @ path @ '': '' @ e), disk')
                   | (None, disk') \<Rightarrow> (FileEdited (sha new_content), disk')))))"

section \<open>Listing, glob and grep\<close>

definition sort_entries :: "dir_entry list \<Rightarrow> dir_entry list" where
  "sort_entries entries = sort_key de_name entries"

text \<open>The loop over \<open>read_dir\<close>'s entries: each is one, or the error of reading it.\<close>

fun collect_entries :: "string \<Rightarrow> (string + dir_entry) list \<Rightarrow> dir_entry list \<Rightarrow> string + dir_entry list" where
  "collect_entries path [] entries = Inr entries"
| "collect_entries path (Inr entry # rest) entries =
     (if MAX_DIR_ENTRIES \<le> length entries then
        Inl (path @ '' has more than '' @ nat_to_string MAX_DIR_ENTRIES @ '' entries'')
      else collect_entries path rest (entries @ [entry]))"
| "collect_entries path (Inl e # rest) entries = Inl (''failed to read directory '' @ path @ '': '' @ e)"

definition handle_list_directory :: "(string \<Rightarrow> string + (string + dir_entry) list) \<Rightarrow> string \<Rightarrow> reply" where
  "handle_list_directory read_dir path =
     (case read_dir path of
        Inl e \<Rightarrow> Reply_error (''failed to read directory '' @ path @ '': '' @ e)
      | Inr found \<Rightarrow>
          (case collect_entries path found [] of
             Inl e \<Rightarrow> Reply_error e
           | Inr entries \<Rightarrow> DirectoryListed (sort_entries entries)))"

text \<open>An entry of the walk: its path, the path below the root, and what its metadata and its bytes read as.\<close>

record walk_entry =
  we_path :: string
  we_relative :: string
  we_is_dir :: bool
  we_size :: "u64 option"
  we_bytes :: "bytes option"

text \<open>\<open>None\<close> is an entry the walker failed on.\<close>

fun walk_glob :: "(string \<Rightarrow> bool) \<Rightarrow> walk_entry option list \<Rightarrow> string list \<Rightarrow> string list \<times> bool" where
  "walk_glob matcher [] paths = (paths, False)"
| "walk_glob matcher (None # walk) paths = walk_glob matcher walk paths"
| "walk_glob matcher (Some entry # walk) paths =
     (if we_is_dir entry then walk_glob matcher walk paths
      else if \<not> matcher (we_relative entry) then walk_glob matcher walk paths
      else if MAX_GLOB_SCAN \<le> length paths then (paths, True)
      else walk_glob matcher walk (paths @ [we_path entry]))"

definition handle_glob ::
  "(string \<Rightarrow> string + (string \<Rightarrow> bool)) \<Rightarrow> (string \<Rightarrow> walk_entry option list) \<Rightarrow> string \<Rightarrow> string \<Rightarrow> u32 \<Rightarrow> u32 \<Rightarrow> reply" where
  "handle_glob compile_glob_pattern walker path pattern offset limit =
     (case compile_glob_pattern pattern of
        Inl e \<Rightarrow> Reply_error e
      | Inr matcher \<Rightarrow>
          (let (all_paths, scan_capped) = walk_glob matcher (walker path) [];
               (paths, total) = paginate_slice all_paths offset limit
           in GlobMatched \<lparr>gl_paths = paths, gl_total = total, gl_scan_capped = scan_capped\<rparr>))"

text \<open>The loop over a file's lines, from line \<open>i\<close> on.\<close>

fun grep_lines :: "(string \<Rightarrow> bool) \<Rightarrow> nat \<Rightarrow> nat \<Rightarrow> string list \<Rightarrow> (u32 \<times> string) list \<Rightarrow> (u32 \<times> string) list \<times> bool" where
  "grep_lines is_match budget i [] matches = (matches, False)"
| "grep_lines is_match budget i (line # rest) matches =
     (if budget \<le> length matches then (matches, True)
      else grep_lines is_match budget (i + 1) rest
             (if is_match line then matches @ [(u32_wrap (i + 1), line)] else matches))"

definition grep_content :: "string \<Rightarrow> (string \<Rightarrow> bool) \<Rightarrow> nat \<Rightarrow> (u32 \<times> string) list \<times> bool" where
  "grep_content content is_match budget = grep_lines is_match budget 0 (str_lines content) []"

fun walk_grep ::
  "(string \<Rightarrow> bool) \<Rightarrow> (string \<Rightarrow> bool) option \<Rightarrow> walk_entry option list \<Rightarrow> grep_match list \<Rightarrow> bool \<Rightarrow> skipped_file list
   \<Rightarrow> grep_match list \<times> bool \<times> skipped_file list" where
  "walk_grep is_match glob_matcher [] matches scan_capped skipped = (matches, scan_capped, skipped)"
| "walk_grep is_match glob_matcher (e # walk) matches scan_capped skipped =
     (if MAX_GREP_SCAN \<le> length matches then (matches, True, skipped)
      else
        (let continue = walk_grep is_match glob_matcher walk in
         case e of
           None \<Rightarrow> continue matches scan_capped skipped
         | Some entry \<Rightarrow>
             (if we_is_dir entry then continue matches scan_capped skipped
              else if (case glob_matcher of None \<Rightarrow> False | Some matcher \<Rightarrow> \<not> matcher (we_relative entry)) then
                continue matches scan_capped skipped
              else
                (case we_size entry of
                   None \<Rightarrow> continue matches scan_capped skipped
                 | Some len \<Rightarrow>
                     (if len > MAX_GREP_FILE_SIZE_BYTES then
                        continue matches scan_capped
                          (skipped @ [\<lparr>sk_path = we_path entry,
                             sk_reason = ''too large ('' @ nat_to_string len @ '' bytes > ''
                               @ nat_to_string MAX_GREP_FILE_SIZE_BYTES @ '' byte limit)''\<rparr>])
                      else
                        (case we_bytes entry of
                           None \<Rightarrow> continue matches scan_capped skipped
                         | Some bytes \<Rightarrow>
                             (if \<not> valid_utf8 bytes then
                                continue matches scan_capped
                                  (skipped @ [\<lparr>sk_path = we_path entry, sk_reason = ''binary''\<rparr>])
                              else
                                (let (file_matches, file_capped) =
                                   grep_content bytes is_match (MAX_GREP_SCAN - length matches)
                                 in continue
                                      (matches @ map (\<lambda>(line, text). \<lparr>gm_path = we_path entry, gm_line = line, gm_text = text\<rparr>)
                                         file_matches)
                                      (scan_capped \<or> file_capped) skipped))))))))"

definition handle_grep ::
  "(string \<Rightarrow> bool \<Rightarrow> string + (string \<Rightarrow> bool)) \<Rightarrow> (string \<Rightarrow> string + (string \<Rightarrow> bool)) \<Rightarrow> (string \<Rightarrow> walk_entry option list)
   \<Rightarrow> string \<Rightarrow> string \<Rightarrow> string option \<Rightarrow> bool \<Rightarrow> u32 \<Rightarrow> u32 \<Rightarrow> reply" where
  "handle_grep compile_grep_pattern compile_glob_pattern walker path pattern glob case_insensitive offset limit =
     (case compile_grep_pattern pattern case_insensitive of
        Inl e \<Rightarrow> Reply_error e
      | Inr is_match \<Rightarrow>
          (case map_option compile_glob_pattern glob of
             Some (Inl e) \<Rightarrow> Reply_error e
           | compiled \<Rightarrow>
               (let glob_matcher = (case compiled of Some (Inr matcher) \<Rightarrow> Some matcher | _ \<Rightarrow> None);
                    (all_matches, scan_capped, skipped) = walk_grep is_match glob_matcher (walker path) [] False [];
                    (matches, total) = paginate_slice all_matches offset limit
                in GrepMatched \<lparr>gr_matches = matches, gr_total = total, gr_scan_capped = scan_capped,
                     gr_skipped = skipped\<rparr>)))"

section \<open>What an edit changes\<close>

text \<open>The pieces of a text around the matches of a pattern, none of which holds it.\<close>

fun joined_by :: "string \<Rightarrow> string list \<Rightarrow> string" where
  "joined_by sep [] = []"
| "joined_by sep [x] = x"
| "joined_by sep (x # xs) = x @ sep @ joined_by sep xs"

lemma joined_by_Cons: "xs \<noteq> [] \<Longrightarrow> joined_by sep (x # xs) = x @ sep @ joined_by sep xs"
  by (cases xs) simp_all

text \<open>Induction over the matches of a pattern in a text.\<close>

lemma occurrence_induct [case_names none found]:
  assumes "old \<noteq> []"
    and "\<And>s. split_once old s = None \<Longrightarrow> P s"
    and "\<And>s before after. split_once old s = Some (before, after) \<Longrightarrow> P after \<Longrightarrow> P s"
  shows "P s"
proof (induction s rule: length_induct)
  case (1 s)
  show ?case
  proof (cases "split_once old s")
    case (Some r)
    then obtain before after where r: "split_once old s = Some (before, after)" by (cases r) auto
    with split_once_parts [OF r] assms(1) 1 show ?thesis by (intro assms(3) [OF r]) auto
  qed (rule assms(2))
qed

lemma search_steps:
  assumes "old \<noteq> []"
  shows "split_once old s = None \<Longrightarrow> pieces old s = [s]"
    and "split_once old s = Some (before, after) \<Longrightarrow> pieces old s = before # pieces old after"
    and "split_once old s = None \<Longrightarrow> str_replace old new s = s"
    and "split_once old s = Some (before, after) \<Longrightarrow> str_replace old new s = before @ new @ str_replace old new after"
    and "split_once old s = None \<Longrightarrow> matches_from old n s = []"
    and "split_once old s = Some (before, after) \<Longrightarrow>
      matches_from old n s = (n + length before) # matches_from old (n + length before + length old) after"
  using assms by (simp_all add: pieces.simps [of old s] str_replace.simps [of old new s] matches_from.simps [of old n s])

lemma pieces_nonempty [simp]: "pieces old s \<noteq> []"
  by (subst pieces.simps) (auto split: option.split)

lemma joined_pieces:
  assumes "old \<noteq> []"
  shows "joined_by old (pieces old s) = s"
proof (induction s rule: occurrence_induct [OF assms])
  case (2 s before after)
  then show ?case using split_once_parts [OF 2(1)] by (simp add: search_steps [OF assms] joined_by_Cons)
qed (simp add: search_steps [OF assms])

lemma replace_joins:
  assumes "old \<noteq> []"
  shows "str_replace old new s = joined_by new (pieces old s)"
  by (induction s rule: occurrence_induct [OF assms]) (simp_all add: search_steps [OF assms] joined_by_Cons)

lemma length_matches:
  assumes "old \<noteq> []"
  shows "length (pieces old s) = Suc (length (matches_from old n s))"
  by (induction s arbitrary: n rule: occurrence_induct [OF assms]) (simp_all add: search_steps [OF assms])

lemma strip_prefix_extend: "strip_prefix p s = Some r \<Longrightarrow> strip_prefix p (s @ t) = Some (r @ t)"
  by (induction p s arbitrary: r rule: strip_prefix.induct) (auto split: if_splits)

lemma split_once_before_free: "p \<noteq> [] \<Longrightarrow> split_once p s = Some (a, b) \<Longrightarrow> split_once p a = None"
proof (induction p s arbitrary: a b rule: split_once.induct)
  case (2 p c cs)
  show ?case
  proof (cases "strip_prefix p (c # cs)")
    case None
    with 2 obtain a' where a': "a = c # a'" "split_once p cs = Some (a', b)" by auto
    have "strip_prefix p (c # a') = None"
    proof (rule ccontr)
      assume "strip_prefix p (c # a') \<noteq> None"
      then obtain r where "strip_prefix p (c # a') = Some r" by auto
      from strip_prefix_extend [OF this, of "p @ b"] None split_once_parts [OF a'(2)] show False by simp
    qed
    with 2 a' None show ?thesis by simp
  next
    case (Some r)
    with 2 show ?thesis by (cases p) auto
  qed
qed (auto split: option.splits elim: strip_prefix.elims)

lemma pieces_free:
  assumes "old \<noteq> []"
  shows "p \<in> set (pieces old s) \<Longrightarrow> \<not> str_contains p old"
proof (induction s rule: occurrence_induct [OF assms])
  case (2 s before after)
  then show ?case
    using split_once_before_free [OF assms 2(1)] by (auto simp: search_steps [OF assms] str_contains_def)
qed (simp add: search_steps [OF assms] str_contains_def)

lemma no_matches: "matches_from old n s = [] \<longleftrightarrow> old = [] \<or> \<not> str_contains s old"
  by (subst matches_from.simps) (auto simp: str_contains_def split: option.split)

lemma edit_at:
  assumes "off \<in> set (find_matches content old)"
  obtains pre post where "content = pre @ old @ post" "off = length pre"
    "take off content @ new @ drop (off + length old) content = pre @ new @ post"
proof -
  from matches_sound [OF assms [unfolded find_matches_def]] show ?thesis by (auto intro: that)
qed

text \<open>
  (C24) An edit changes what it names and nothing else. With \<open>replace_all\<close> the text is cut at every match, into
  pieces that hold none, and joined again with the new text; otherwise one occurrence is replaced, on the
  line asked for, or the only one there is.
\<close>

theorem edit_changes_what_it_names:
  assumes "apply_edit content old new replace_all expected_line = Inr out"
  shows "old \<noteq> [] \<and> content = joined_by old (pieces old content) \<and> (\<forall>p \<in> set (pieces old content). \<not> str_contains p old)
    \<and> (if replace_all then out = joined_by new (pieces old content)
       else \<exists>pre post. content = pre @ old @ post \<and> out = pre @ new @ post
         \<and> (case expected_line of
              Some line \<Rightarrow> u32_wrap (1 + length (filter (\<lambda>b. b = nl) pre)) = line
            | None \<Rightarrow> length (pieces old content) = 2))"
proof -
  have found: "find_matches content old \<noteq> []" using assms by (auto simp: apply_edit_def)
  then have old: "old \<noteq> []" by (simp add: find_matches_def no_matches)
  have "\<exists>pre post. content = pre @ old @ post \<and> out = pre @ new @ post
      \<and> (case expected_line of
           Some line \<Rightarrow> u32_wrap (1 + length (filter (\<lambda>b. b = nl) pre)) = line
         | None \<Rightarrow> length (pieces old content) = 2)" if "\<not> replace_all"
  proof (cases expected_line)
    case None
    with assms found that have one: "length (find_matches content old) = 1"
      and out: "out = take (hd (find_matches content old)) content @ new
        @ drop (hd (find_matches content old) + length old) content"
      by (auto simp: apply_edit_def Let_def hd_conv_nth split: if_splits) (cases "find_matches content old", auto)
    have two: "length (pieces old content) = 2"
      using one by (simp add: length_matches [OF old, of content 0] find_matches_def)
    obtain pre post where "content = pre @ old @ post" "out = pre @ new @ post"
      using edit_at [OF hd_in_set [OF found], of new] out by metis
    with None two show ?thesis by auto
  next
    case (Some line)
    with assms found that obtain off where off: "List.find (\<lambda>offset. byte_offset_to_line content offset = line) (find_matches content old) = Some off"
      and out: "out = take off content @ new @ drop (off + length old) content"
      by (auto simp: apply_edit_def Let_def split: option.splits)
    then have "off \<in> set (find_matches content old)" "byte_offset_to_line content off = line"
      by (auto simp: find_Some_iff)
    then show ?thesis
      by (elim edit_at [where new = new]) (use Some out in \<open>auto simp: byte_offset_to_line_def\<close>)
  qed
  moreover have "out = joined_by new (pieces old content)" if replace_all
    using assms found that old by (simp add: apply_edit_def replace_joins)
  ultimately show ?thesis
    using old joined_pieces [OF old, of content] pieces_free [OF old] by auto
qed

text \<open>
  An edit is refused exactly when it should be: not found, when the text is empty or does not occur;
  ambiguous, with the count, when it occurs more than once and neither \<open>replace_all\<close> nor a line says which;
  and not on the line, when none of its matches starts there.
\<close>

theorem edit_refusals:
  "apply_edit content old new replace_all expected_line = Inl e \<longleftrightarrow>
    (case e of
       NotFound \<Rightarrow> old = [] \<or> \<not> str_contains content old
     | Ambiguous n \<Rightarrow> old \<noteq> [] \<and> \<not> replace_all \<and> expected_line = None \<and> n = length (pieces old content) - 1 \<and> 1 < n
     | NoMatchAtLine line \<Rightarrow> old \<noteq> [] \<and> str_contains content old \<and> \<not> replace_all \<and> expected_line = Some line
         \<and> (\<forall>off \<in> set (find_matches content old). byte_offset_to_line content off \<noteq> line))"
  using no_matches [of old 0 content] length_matches [of old content 0]
  by (cases e) (auto simp: apply_edit_def Let_def find_matches_def find_None_iff split: option.splits dest!: find_SomeD)

theorem edit_changes_what_it_names_witness:
  "apply_edit ''a b a'' ''b'' ''c'' False None = Inr ''a c a'' \<and> ''a b a'' = joined_by ''b'' (pieces ''b'' ''a b a'')"
proof -
  have e: "apply_edit ''a b a'' ''b'' ''c'' False None = Inr ''a c a''" by code_simp
  from e edit_changes_what_it_names [OF e] show ?thesis by blast
qed

section \<open>What the file tools change\<close>

lemma write_file_frame: "write_file sys path content disk = (e, disk') \<Longrightarrow> p \<noteq> path \<Longrightarrow> disk' p = disk p"
  by (auto simp: write_file_def split: option.splits)

text \<open>
  A file tool only changes the file it names, and only when that file is still the one the model read:
  an edit, or a write with an expected hash, whose hash is not the file's leaves the disk as it was. A
  success says what is on the disk now.
\<close>

theorem stale_edits_change_nothing:
  assumes "handle_edit_file sys sha path old new replace_all expected_hash expected_line disk = (r, disk')"
  shows "(\<forall>p. p \<noteq> path \<longrightarrow> disk' p = disk p)
    \<and> (disk' \<noteq> disk \<longrightarrow> (\<exists>bytes. disk path = Some bytes \<and> sha bytes = expected_hash))
    \<and> (case r of
         FileEdited hash \<Rightarrow> \<exists>bytes content. disk path = Some bytes \<and> sha bytes = expected_hash
           \<and> apply_edit bytes old new replace_all expected_line = Inr content
           \<and> disk' = disk(path \<mapsto> content) \<and> hash = sha content
       | Reply_error _ \<Rightarrow> disk' = disk \<or> (\<exists>content. os_write sys path content \<noteq> None)
       | _ \<Rightarrow> False)"
  using assms
  by (auto simp: handle_edit_file_def write_file_def split: option.splits if_splits sum.splits prod.splits)

theorem stale_writes_change_nothing:
  assumes "handle_write_file sys sha path content expected_hash disk = (r, disk')"
  shows "(\<forall>p. p \<noteq> path \<longrightarrow> disk' p = disk p)
    \<and> (disk' \<noteq> disk \<longrightarrow> length content \<le> MAX_FILE_SIZE_BYTES
         \<and> (\<forall>expected. expected_hash = Some expected \<longrightarrow> (\<exists>bytes. disk path = Some bytes \<and> sha bytes = expected)))
    \<and> (case r of
         FileWritten hash \<Rightarrow> disk' = disk(path \<mapsto> content) \<and> hash = sha content
       | Reply_error _ \<Rightarrow> disk' = disk \<or> os_write sys path content \<noteq> None
       | _ \<Rightarrow> False)"
  using assms
  by (auto simp: handle_write_file_def write_file_def split: option.splits if_splits sum.splits prod.splits)

text \<open>
  (C25) What was written reads back: after a successful write of text, a read gives its lines, page by page,
  and the hash the write answered with, so the next edit with it is not refused as stale.
\<close>

theorem written_file_reads_back:
  assumes "handle_write_file sys sha path content expected_hash disk = (FileWritten hash, disk')"
    and "valid_utf8 content"
  shows "handle_read_file sys' sha path offset limit disk'
    = FileRead \<lparr>fc_lines = take limit (drop (offset - 1) (str_lines content)),
        fc_total_lines = length (str_lines content), fc_hash = hash\<rparr>"
  using assms
  by (auto simp: handle_write_file_def write_file_def handle_read_file_def paginate_lines_def Let_def
    split: option.splits if_splits sum.splits prod.splits)

text \<open>
  Reading a file page after page gives all its lines, each once and in order, and every page says how
  many there are.
\<close>

theorem pages_tile_the_file:
  "concat (map (\<lambda>k. fst (paginate_lines content (1 + k * limit) limit)) [0..<n]) = take (n * limit) (str_lines content)
   \<and> snd (paginate_lines content offset limit) = length (str_lines content)"
proof -
  have "concat (map (\<lambda>k. take limit (drop (k * limit) xs)) [0..<n]) = take (n * limit) xs" for xs :: "string list"
  proof (induction n)
    case (Suc n)
    then show ?case using take_add [of "n * limit" limit xs] by (simp add: add.commute)
  qed simp
  then show ?thesis by (simp add: paginate_lines_def Let_def)
qed

definition plain_os :: os where
  "plain_os = \<lparr>os_read_error = (\<lambda>_. ''no such file''), os_make_parents = (\<lambda>_. None), os_write = (\<lambda>_ _. None)\<rparr>"

theorem stale_edits_change_nothing_witness:
  "handle_edit_file plain_os id ''f'' ''b'' ''c'' False ''stale'' None [''f'' \<mapsto> ''a b'']
     = (Reply_error (changed_text ''f'' ''stale'' ''a b'' ''editing''), [''f'' \<mapsto> ''a b''])
   \<and> (\<exists>bytes. [''f'' \<mapsto> ''a b''] ''f'' = Some bytes)"
proof -
  have e: "handle_edit_file plain_os id ''f'' ''b'' ''c'' False ''stale'' None [''f'' \<mapsto> ''a b'']
     = (Reply_error (changed_text ''f'' ''stale'' ''a b'' ''editing''), [''f'' \<mapsto> ''a b''])"
    by (simp add: handle_edit_file_def)
  from e stale_edits_change_nothing [OF e] show ?thesis by simp
qed

lemma plain_write:
  "handle_write_file plain_os id ''f'' ''a b'' None Map.empty = (FileWritten ''a b'', [''f'' \<mapsto> ''a b''])"
  by (simp add: handle_write_file_def write_file_def plain_os_def MAX_FILE_SIZE_BYTES_def)

theorem stale_writes_change_nothing_witness:
  "handle_write_file plain_os id ''f'' ''a b'' None Map.empty = (FileWritten ''a b'', [''f'' \<mapsto> ''a b''])
    \<and> length ''a b'' \<le> MAX_FILE_SIZE_BYTES"
  using stale_writes_change_nothing [OF plain_write] plain_write by simp

theorem written_file_reads_back_witness:
  "handle_read_file plain_os id ''f'' 1 10 [''f'' \<mapsto> ''a b'']
    = FileRead \<lparr>fc_lines = [''a b''], fc_total_lines = 1, fc_hash = ''a b''\<rparr>"
proof -
  have v: "valid_utf8 ''a b''" "str_lines ''a b'' = [''a b'']" by code_simp+
  from written_file_reads_back [OF plain_write v(1)] show ?thesis by (simp add: v(2))
qed

section \<open>What a search finds\<close>

text \<open>The matching lines of a file, numbered from 1, and what a searched entry gives.\<close>

definition numbered_hits :: "(string \<Rightarrow> bool) \<Rightarrow> nat \<Rightarrow> string list \<Rightarrow> (u32 \<times> string) list" where
  "numbered_hits is_match i lines =
     map (\<lambda>(n, line). (u32_wrap (n + 1), line)) (filter (\<lambda>(_, line). is_match line) (zip [i..<i + length lines] lines))"

lemma numbered_hits_simps:
  "numbered_hits is_match i [] = []"
  "numbered_hits is_match i (line # lines) =
    (if is_match line then [(u32_wrap (i + 1), line)] else []) @ numbered_hits is_match (i + 1) lines"
  by (simp_all add: numbered_hits_def upt_conv_Cons del: upt_Suc)

lemma grep_lines_hits:
  assumes "length matches \<le> budget"
  shows "fst (grep_lines is_match budget i lines matches) = take budget (matches @ numbered_hits is_match i lines)
    \<and> (\<not> snd (grep_lines is_match budget i lines matches) \<longrightarrow>
        length (matches @ numbered_hits is_match i lines) \<le> budget)"
  using assms
proof (induction lines arbitrary: i matches)
  case (Cons line lines)
  show ?case
  proof (cases "budget \<le> length matches")
    case False
    then show ?thesis
      using Cons.IH [of "if is_match line then matches @ [(u32_wrap (i + 1), line)] else matches" "i + 1"]
      by (auto simp: numbered_hits_simps)
  qed (use Cons.prems in simp)
qed (simp add: numbered_hits_simps)

definition searched :: "(string \<Rightarrow> bool) option \<Rightarrow> walk_entry option \<Rightarrow> walk_entry option" where
  "searched glob_matcher e =
     (case e of
        None \<Rightarrow> None
      | Some entry \<Rightarrow>
          (if we_is_dir entry \<or> we_size entry = None
              \<or> (case glob_matcher of None \<Rightarrow> False | Some matcher \<Rightarrow> \<not> matcher (we_relative entry))
           then None else Some entry))"

definition file_hits :: "(string \<Rightarrow> bool) \<Rightarrow> (string \<Rightarrow> bool) option \<Rightarrow> walk_entry option \<Rightarrow> grep_match list" where
  "file_hits is_match glob_matcher e =
     (case searched glob_matcher e of
        None \<Rightarrow> []
      | Some entry \<Rightarrow>
          (if the (we_size entry) > MAX_GREP_FILE_SIZE_BYTES then []
           else case we_bytes entry of
                  None \<Rightarrow> []
                | Some bytes \<Rightarrow>
                    if valid_utf8 bytes then
                      map (\<lambda>(line, text). \<lparr>gm_path = we_path entry, gm_line = line, gm_text = text\<rparr>)
                        (numbered_hits is_match 0 (str_lines bytes))
                    else []))"

text \<open>The paths a search must report as skipped: too large, or not text.\<close>

definition skipped_path :: "(string \<Rightarrow> bool) option \<Rightarrow> walk_entry option \<Rightarrow> string list" where
  "skipped_path glob_matcher e =
     (case searched glob_matcher e of
        None \<Rightarrow> []
      | Some entry \<Rightarrow>
          (if the (we_size entry) > MAX_GREP_FILE_SIZE_BYTES
              \<or> (\<exists>bytes. we_bytes entry = Some bytes \<and> \<not> valid_utf8 bytes) then [we_path entry] else []))"

lemma walk_grep_step:
  assumes "length matches < MAX_GREP_SCAN"
  shows "\<exists>capped sk. walk_grep is_match glob_matcher (e # walk) matches scan_capped skipped
      = walk_grep is_match glob_matcher walk (take MAX_GREP_SCAN (matches @ file_hits is_match glob_matcher e))
          (scan_capped \<or> capped) (skipped @ sk)
    \<and> map sk_path sk = skipped_path glob_matcher e
    \<and> (\<not> capped \<longrightarrow> length (matches @ file_hits is_match glob_matcher e) \<le> MAX_GREP_SCAN)"
proof (cases "searched glob_matcher e")
  case None
  with assms show ?thesis
    by (intro exI [of _ False] exI [of _ "[]"])
      (auto simp: searched_def file_hits_def skipped_path_def Let_def split: option.splits if_splits)
next
  case (Some entry)
  then have e: "e = Some entry" "\<not> we_is_dir entry" "we_size entry \<noteq> None"
    "\<not> (case glob_matcher of None \<Rightarrow> False | Some matcher \<Rightarrow> \<not> matcher (we_relative entry))"
    by (auto simp: searched_def split: option.splits if_splits)
  then obtain len where len: "we_size entry = Some len" by auto
  consider (large) "len > MAX_GREP_FILE_SIZE_BYTES" | (unread) "\<not> len > MAX_GREP_FILE_SIZE_BYTES" "we_bytes entry = None"
    | (binary) bytes where "\<not> len > MAX_GREP_FILE_SIZE_BYTES" "we_bytes entry = Some bytes" "\<not> valid_utf8 bytes"
    | (plain) bytes where "\<not> len > MAX_GREP_FILE_SIZE_BYTES" "we_bytes entry = Some bytes" "valid_utf8 bytes"
    by (cases "we_bytes entry") blast+
  then show ?thesis
  proof cases
    case plain
    let ?g = "grep_content bytes is_match (MAX_GREP_SCAN - length matches)"
    let ?to = "\<lambda>(line, text). \<lparr>gm_path = we_path entry, gm_line = line, gm_text = text\<rparr>"
    have hits: "file_hits is_match glob_matcher e = map ?to (numbered_hits is_match 0 (str_lines bytes))"
      using plain by (simp add: file_hits_def Some len)
    have g: "fst ?g = take (MAX_GREP_SCAN - length matches) (numbered_hits is_match 0 (str_lines bytes))"
      "\<not> snd ?g \<longrightarrow> length (numbered_hits is_match 0 (str_lines bytes)) \<le> MAX_GREP_SCAN - length matches"
      using grep_lines_hits [of "[]" "MAX_GREP_SCAN - length matches" is_match 0 "str_lines bytes"]
      by (simp_all add: grep_content_def)
    have "walk_grep is_match glob_matcher (e # walk) matches scan_capped skipped
        = walk_grep is_match glob_matcher walk (matches @ map ?to (fst ?g)) (scan_capped \<or> snd ?g) skipped"
      using plain assms e len by (simp add: Let_def case_prod_beta)
    moreover have "matches @ map ?to (fst ?g) = take MAX_GREP_SCAN (matches @ file_hits is_match glob_matcher e)"
      using assms by (simp add: hits g(1) take_map)
    moreover have "length (matches @ file_hits is_match glob_matcher e) \<le> MAX_GREP_SCAN" if "\<not> snd ?g"
      using g(2) that assms by (simp add: hits)
    ultimately show ?thesis
      using plain by (intro exI [of _ "snd ?g"] exI [of _ "[]"]) (simp add: skipped_path_def Some len)
  next
    case large
    with assms e len Some show ?thesis
      by (intro exI [of _ False] exI [of _ "[\<lparr>sk_path = we_path entry, sk_reason = ''too large ('' @ nat_to_string len
        @ '' bytes > '' @ nat_to_string MAX_GREP_FILE_SIZE_BYTES @ '' byte limit)''\<rparr>]"])
        (simp add: file_hits_def skipped_path_def Let_def)
  next
    case unread
    with assms e len Some show ?thesis
      by (intro exI [of _ False] exI [of _ "[]"]) (simp add: file_hits_def skipped_path_def Let_def)
  next
    case binary
    with assms e len Some show ?thesis
      by (intro exI [of _ False] exI [of _ "[\<lparr>sk_path = we_path entry, sk_reason = ''binary''\<rparr>]"])
        (simp add: file_hits_def skipped_path_def Let_def)
  qed
qed

lemma take_take_append: "take n (take n xs @ ys) = take n (xs @ ys)"
  by (cases "n \<le> length xs") simp_all

lemma walk_grep_full:
  "MAX_GREP_SCAN \<le> length matches \<Longrightarrow> walk \<noteq> [] \<Longrightarrow>
    walk_grep is_match glob_matcher walk matches scan_capped skipped = (matches, True, skipped)"
  by (cases walk) simp_all

lemma walk_grep_hits:
  assumes "walk_grep is_match glob_matcher walk matches scan_capped skipped = (found, capped, skips)"
    and "length matches \<le> MAX_GREP_SCAN"
  shows "found = take MAX_GREP_SCAN (matches @ concat (map (file_hits is_match glob_matcher) walk))
    \<and> (\<not> capped \<longrightarrow> \<not> scan_capped \<and> found = matches @ concat (map (file_hits is_match glob_matcher) walk)
        \<and> map sk_path skips = map sk_path skipped @ concat (map (skipped_path glob_matcher) walk))"
  using assms
proof (induction walk arbitrary: matches scan_capped skipped)
  case (Cons e walk)
  let ?all = "matches @ file_hits is_match glob_matcher e"
  show ?case
  proof (cases "length matches < MAX_GREP_SCAN")
    case True
    obtain c sk where step: "walk_grep is_match glob_matcher (e # walk) matches scan_capped skipped
        = walk_grep is_match glob_matcher walk (take MAX_GREP_SCAN ?all) (scan_capped \<or> c) (skipped @ sk)"
      "map sk_path sk = skipped_path glob_matcher e" "\<not> c \<longrightarrow> length ?all \<le> MAX_GREP_SCAN"
      using walk_grep_step [OF True] by blast
    have "found = take MAX_GREP_SCAN (take MAX_GREP_SCAN ?all @ concat (map (file_hits is_match glob_matcher) walk))
      \<and> (\<not> capped \<longrightarrow> \<not> (scan_capped \<or> c)
          \<and> found = take MAX_GREP_SCAN ?all @ concat (map (file_hits is_match glob_matcher) walk)
          \<and> map sk_path skips = map sk_path (skipped @ sk) @ concat (map (skipped_path glob_matcher) walk))"
      by (rule Cons.IH) (use Cons.prems(1) step(1) in simp_all)
    moreover have "take MAX_GREP_SCAN ?all = ?all" if "\<not> c" using step(3) that by (intro take_all) simp
    ultimately show ?thesis
      using step(2) by (cases capped; cases c) (simp_all only: take_take_append append_assoc list.map concat.simps map_append simp_thms)
  next
    case False
    with Cons.prems walk_grep_full [of matches "e # walk"] show ?thesis by auto
  qed
qed simp

text \<open>
  A search shows the first 1,000 matching lines of the files it walks, in the walk's order, each with
  its number, whatever each file's share; and unless it says its scan was capped, they are all there are,
  and every file left out for its size or for not being text is listed.
\<close>

theorem grep_finds_in_order:
  assumes "walk_grep is_match glob_matcher walk [] False [] = (found, capped, skips)"
  shows "found = take MAX_GREP_SCAN (concat (map (file_hits is_match glob_matcher) walk))
    \<and> (\<not> capped \<longrightarrow> found = concat (map (file_hits is_match glob_matcher) walk)
        \<and> map sk_path skips = concat (map (skipped_path glob_matcher) walk))"
proof -
  have "length ([] :: grep_match list) \<le> MAX_GREP_SCAN" by simp
  from walk_grep_hits [OF assms this, unfolded append_Nil list.map(1)] show ?thesis by blast
qed

theorem grep_finds_in_order_witness:
  "take MAX_GREP_SCAN (concat (map (file_hits (\<lambda>l. l = ''x'') None)
      [Some \<lparr>we_path = ''f'', we_relative = ''f'', we_is_dir = False, we_size = Some 3, we_bytes = Some ''x''\<rparr>]))
    = [\<lparr>gm_path = ''f'', gm_line = 1, gm_text = ''x''\<rparr>]"
proof -
  let ?w = "[Some \<lparr>we_path = ''f'', we_relative = ''f'', we_is_dir = False, we_size = Some 3, we_bytes = Some ''x''\<rparr>]"
  have v: "valid_utf8 ''x''" "str_lines ''x'' = [''x'']" by code_simp+
  have "walk_grep (\<lambda>l. l = ''x'') None ?w [] False [] = ([\<lparr>gm_path = ''f'', gm_line = 1, gm_text = ''x''\<rparr>], False, [])"
    by (simp add: MAX_GREP_SCAN_def MAX_GREP_FILE_SIZE_BYTES_def grep_content_def v u32_wrap_def Let_def)
  from grep_finds_in_order [OF this] show ?thesis by simp
qed

section \<open>The size bound\<close>

lemma str_replace_doubles: "str_replace ''a'' ''aa'' (replicate n (CHR ''a'')) = replicate (2 * n) (CHR ''a'')"
  by (induction n) (simp_all add: str_replace.simps [of "''a''"])

lemma matches_a: "0 < n \<Longrightarrow> find_matches (replicate n (CHR ''a'')) ''a'' \<noteq> []"
  by (cases n) (simp_all add: find_matches_def no_matches str_contains_def)

lemma valid_utf8_a: "valid_utf8 (replicate n (CHR ''a''))"
  by (induction n) (simp_all add: valid_utf8_def)

text \<open>
  The size bound \<open>read_file\<close> and \<open>write_file\<close> keep does not hold of \<open>edit_file\<close>, whose comment says
  it shares it: an edit of a file within the bound can leave one above it, which the next read refuses.
\<close>

theorem edit_can_outgrow_the_bound:
  "\<exists>content disk'. length content \<le> MAX_FILE_SIZE_BYTES
    \<and> handle_edit_file plain_os id ''f'' ''a'' ''aa'' True content None [''f'' \<mapsto> content] = (FileEdited (content @ content), disk')
    \<and> handle_read_file plain_os id ''f'' 1 10 disk' = Reply_error (''f'' @ '' exceeds the '' @ size_limit_text)"
proof -
  define content where "content = replicate MAX_FILE_SIZE_BYTES (CHR ''a'')"
  have len: "length content = MAX_FILE_SIZE_BYTES" and valid: "valid_utf8 content"
    by (simp_all add: content_def valid_utf8_a)
  have "str_replace ''a'' ''aa'' content = content @ content"
    by (simp only: content_def str_replace_doubles mult_2 replicate_add)
  moreover have "find_matches content ''a'' \<noteq> []"
    unfolding content_def by (rule matches_a) (simp add: MAX_FILE_SIZE_BYTES_def)
  ultimately have edit: "handle_edit_file plain_os id ''f'' ''a'' ''aa'' True content None [''f'' \<mapsto> content]
      = (FileEdited (content @ content), [''f'' \<mapsto> content @ content])"
    using valid by (simp add: handle_edit_file_def apply_edit_def write_file_def plain_os_def Let_def)
  have "handle_read_file plain_os id ''f'' 1 10 [''f'' \<mapsto> content @ content]
      = Reply_error (''f'' @ '' exceeds the '' @ size_limit_text)"
    using len by (simp add: handle_read_file_def MAX_FILE_SIZE_BYTES_def)
  with edit len show ?thesis by (intro exI [of _ content] exI [of _ "[''f'' \<mapsto> content @ content]"]) simp
qed

end
