(* ===== verification/Lsp_Ops.thy ===== *)
theory Lsp_Ops
  imports Stream_Call "HOL-Library.Product_Lexorder" "HOL-Library.Code_Target_Nat"
begin

text \<open>
  \<open>src/lsp/ops.rs\<close>: the \<open>lsp\<close> tool's operations. Positions are 1-based lines and characters for the model,
  and 0-based lines and UTF-16 columns for a language server; a rename's edits are applied to the files
  of the workspace (\<open>uri_path\<close> and \<open>in_workspace\<close> of \<open>src/lsp/session.rs\<close>).

  A server's answers are JSON values; an object's members are read in the order the value has them. Decoding
  a URI's percent escapes is the \<open>percent_encoding\<close> crate's, a parameter (\<open>percent_decode\<close>), and so is the
  source line a location names (\<open>source_line\<close>). The texts of hovers, symbols and diagnostics are left out.
\<close>

section \<open>Operations\<close>

datatype operation =
    Definition | References | Hover | DocumentSymbols | WorkspaceSymbols | Diagnostics | Implementation
  | IncomingCalls | OutgoingCalls | Rename

definition all_operations :: "operation list" where
  "all_operations = [Definition, References, Hover, DocumentSymbols, WorkspaceSymbols, Diagnostics, Implementation,
                     IncomingCalls, OutgoingCalls, Rename]"

fun operation_name :: "operation \<Rightarrow> string" where
  "operation_name Definition = ''definition''"
| "operation_name References = ''references''"
| "operation_name Hover = ''hover''"
| "operation_name DocumentSymbols = ''document_symbols''"
| "operation_name WorkspaceSymbols = ''workspace_symbols''"
| "operation_name Diagnostics = ''diagnostics''"
| "operation_name Implementation = ''implementation''"
| "operation_name IncomingCalls = ''incoming_calls''"
| "operation_name OutgoingCalls = ''outgoing_calls''"
| "operation_name Rename = ''rename''"

text \<open>The error lists the names there are.\<close>

definition operation_parse :: "string \<Rightarrow> string list + operation" where
  "operation_parse name =
     (case List.find (\<lambda>op. operation_name op = name) all_operations of
        Some op \<Rightarrow> Inr op | None \<Rightarrow> Inl (map operation_name all_operations))"

fun capability :: "operation \<Rightarrow> string option" where
  "capability Definition = Some ''definitionProvider''"
| "capability References = Some ''referencesProvider''"
| "capability Hover = Some ''hoverProvider''"
| "capability DocumentSymbols = Some ''documentSymbolProvider''"
| "capability WorkspaceSymbols = Some ''workspaceSymbolProvider''"
| "capability Diagnostics = None"
| "capability Implementation = Some ''implementationProvider''"
| "capability IncomingCalls = Some ''callHierarchyProvider''"
| "capability OutgoingCalls = Some ''callHierarchyProvider''"
| "capability Rename = Some ''renameProvider''"

definition needs_position :: "operation \<Rightarrow> bool" where
  "needs_position op \<longleftrightarrow> op \<notin> {DocumentSymbols, WorkspaceSymbols, Diagnostics}"

section \<open>Characters and UTF-16 columns\<close>

text \<open>A character outside the basic plane, four bytes of UTF-8, takes two units.\<close>

definition len_utf16 :: "string \<Rightarrow> u32" where
  "len_utf16 ch = (case ch of [] \<Rightarrow> 0 | c # _ \<Rightarrow> if 0xF0 \<le> (of_char c :: nat) then 2 else 1)"

definition to_utf16 :: "string \<Rightarrow> u32 \<Rightarrow> u32" where
  "to_utf16 line character = sum_list (map len_utf16 (take (character - 1) (utf8_chars line)))"

fun characters_before :: "u32 \<Rightarrow> u32 \<Rightarrow> string list \<Rightarrow> u32" where
  "characters_before column units [] = 0"
| "characters_before column units (c # cs) =
     (if column \<le> units then 0 else 1 + characters_before column (units + len_utf16 c) cs)"

definition from_utf16 :: "string \<Rightarrow> u32 \<Rightarrow> u32" where
  "from_utf16 line column = characters_before column 0 (utf8_chars line) + 1"

section \<open>Locations\<close>

definition MAX_RESULTS :: nat where
  "MAX_RESULTS = 50"

definition u32_of :: "u64 \<Rightarrow> u32" where
  "u32_of n = n mod 2 ^ 32"

definition uri_path :: "(string \<Rightarrow> string option) \<Rightarrow> string \<Rightarrow> string option" where
  "uri_path percent_decode uri = Option.bind (strip_prefix ''file://'' uri) percent_decode"

fun slash_parts :: "string \<Rightarrow> string list" where
  "slash_parts [] = [[]]"
| "slash_parts (c # cs) =
     (if c = CHR ''/'' then [] # slash_parts cs
      else case slash_parts cs of [] \<Rightarrow> [[c]] | p # ps \<Rightarrow> (c # p) # ps)"

definition in_workspace :: "string \<Rightarrow> bool" where
  "in_workspace path \<longleftrightarrow>
     starts_with path ''/workspace/''
     \<and> \<not> list_ex (\<lambda>part. part = ''..'' \<or> part = ''.'' \<or> part = []) (drop 1 (slash_parts path))"

definition get_either :: "string \<Rightarrow> string \<Rightarrow> json \<Rightarrow> json option" where
  "get_either a b v = (case get a v of Some x \<Rightarrow> Some x | None \<Rightarrow> get b v)"

definition location_parts :: "(string \<Rightarrow> string option) \<Rightarrow> json \<Rightarrow> (string \<times> u32 \<times> u32) option" where
  "location_parts percent_decode location =
     Option.bind (Option.bind (get_either ''uri'' ''targetUri'' location) as_str) (\<lambda>uri.
     Option.bind (case get_either ''targetSelectionRange'' ''range'' location of
                    Some r \<Rightarrow> Some r | None \<Rightarrow> get ''targetRange'' location) (\<lambda>range.
     Option.bind (get ''start'' range) (\<lambda>start.
     Option.bind (uri_path percent_decode uri) (\<lambda>path.
     Option.bind (Option.bind (get ''line'' start) as_u64) (\<lambda>line.
     Option.bind (Option.bind (get ''character'' start) as_u64) (\<lambda>character.
     Some (path, u32_of line, u32_of character)))))))"

definition location_line :: "(string \<Rightarrow> u32 \<Rightarrow> string option) \<Rightarrow> string \<times> u32 \<times> u32 \<Rightarrow> string" where
  "location_line source_line = (\<lambda>(path, line, column).
     (case source_line path line of
        Some text \<Rightarrow>
          path @ '':'' @ nat_to_string (line + 1) @ '':'' @ nat_to_string (from_utf16 text column) @ ''  '' @ str_trim text
      | None \<Rightarrow> path @ '':'' @ nat_to_string (line + 1) @ '':'' @ nat_to_string (column + 1)))"

text \<open>\<open>join("\n")\<close>.\<close>

fun join_lines :: "string list \<Rightarrow> string" where
  "join_lines [] = []"
| "join_lines [l] = l"
| "join_lines (l # ls) = l @ [nl] @ join_lines ls"

definition ELLIPSIS :: string where
  "ELLIPSIS = [CHR 0xE2, CHR 0x80, CHR 0xA6]"

definition capped_lines :: "string list \<Rightarrow> string list" where
  "capped_lines lines =
     take MAX_RESULTS lines
     @ (if length lines > MAX_RESULTS then [ELLIPSIS @ ''and '' @ nat_to_string (length lines - MAX_RESULTS) @ '' more''] else [])"

definition format_locations ::
  "(string \<Rightarrow> string option) \<Rightarrow> (string \<Rightarrow> u32 \<Rightarrow> string option) \<Rightarrow> json \<Rightarrow> string" where
  "format_locations percent_decode source_line value =
     (let locations = (case value of JArray items \<Rightarrow> items | JNull \<Rightarrow> [] | single \<Rightarrow> [single]);
          lines = map (location_line source_line) (List.map_filter (location_parts percent_decode) locations)
      in if lines = [] then ''No results.'' else join_lines (capped_lines lines))"

section \<open>Which server\<close>

record language_server =
  ls_name :: string
  ls_file_types :: "string list"
  ls_enabled :: bool

datatype no_server = Outside_workspace string | No_taker string "string list" | None_running string "string list"

definition path_extension :: "string \<Rightarrow> string" where
  "path_extension path =
     (case rsplit_once_char (CHR ''.'') path of
        None \<Rightarrow> [] | Some (_, e) \<Rightarrow> if CHR ''/'' \<in> set e then [] else e)"

definition choose_server :: "string \<Rightarrow> language_server list \<Rightarrow> string list \<Rightarrow> no_server + language_server" where
  "choose_server path configs running =
     (if \<not> in_workspace path then Inl (Outside_workspace path)
      else
        (let extension = path_extension path;
             takers = filter (\<lambda>c. ls_enabled c \<and> extension \<in> set (ls_file_types c)) configs
         in case List.find (\<lambda>c. ls_name c \<in> set running) takers of
              Some c \<Rightarrow> Inr c
            | None \<Rightarrow>
                (if takers = [] then Inl (No_taker extension (map ls_name (filter ls_enabled configs)))
                 else Inl (None_running extension (map ls_name takers)))))"

section \<open>A workspace edit's files\<close>

datatype edit_refusal =
    Not_a_file string
  | Edits_outside string
  | Would_move_files

text \<open>The edits of a path already there grow; a new path goes last.\<close>

fun extend_files :: "string \<Rightarrow> json list \<Rightarrow> (string \<times> json list) list \<Rightarrow> (string \<times> json list) list" where
  "extend_files path edits [] = [(path, edits)]"
| "extend_files path edits ((p, existing) # files) =
     (if p = path then (p, existing @ edits) # files else (p, existing) # extend_files path edits files)"

definition add_edits ::
  "(string \<Rightarrow> string option) \<Rightarrow> string \<Rightarrow> json list \<Rightarrow> (string \<times> json list) list \<Rightarrow> edit_refusal + (string \<times> json list) list" where
  "add_edits percent_decode uri edits files =
     (case uri_path percent_decode uri of
        None \<Rightarrow> Inl (Not_a_file uri)
      | Some path \<Rightarrow>
          (if \<not> in_workspace path then Inl (Edits_outside path) else Inr (extend_files path edits files)))"

fun as_array :: "json \<Rightarrow> json list option" where
  "as_array (JArray items) = Some items"
| "as_array _ = None"

fun as_members :: "json \<Rightarrow> (string \<times> json) list option" where
  "as_members (JObject members) = Some members"
| "as_members _ = None"

definition array_or_empty :: "json option \<Rightarrow> json list" where
  "array_or_empty v = (case Option.bind v as_array of Some items \<Rightarrow> items | None \<Rightarrow> [])"

fun document_changes ::
  "(string \<Rightarrow> string option) \<Rightarrow> json list \<Rightarrow> (string \<times> json list) list \<Rightarrow> edit_refusal + (string \<times> json list) list" where
  "document_changes percent_decode [] files = Inr files"
| "document_changes percent_decode (change # rest) files =
     (if get ''kind'' change \<noteq> None then Inl Would_move_files
      else
        (let uri = (case Option.bind (Option.bind (get ''textDocument'' change) (get ''uri'')) as_str of
                      Some u \<Rightarrow> u | None \<Rightarrow> [])
         in case add_edits percent_decode uri (array_or_empty (get ''edits'' change)) files of
              Inl e \<Rightarrow> Inl e
            | Inr files' \<Rightarrow> document_changes percent_decode rest files'))"

fun uri_changes ::
  "(string \<Rightarrow> string option) \<Rightarrow> (string \<times> json) list \<Rightarrow> (string \<times> json list) list \<Rightarrow> edit_refusal + (string \<times> json list) list" where
  "uri_changes percent_decode [] files = Inr files"
| "uri_changes percent_decode ((uri, edits) # rest) files =
     (case add_edits percent_decode uri (array_or_empty (Some edits)) files of
        Inl e \<Rightarrow> Inl e
      | Inr files' \<Rightarrow> uri_changes percent_decode rest files')"

definition workspace_edit_files :: "(string \<Rightarrow> string option) \<Rightarrow> json \<Rightarrow> edit_refusal + (string \<times> json list) list" where
  "workspace_edit_files percent_decode edit =
     (case Option.bind (get ''documentChanges'' edit) as_array of
        Some changes \<Rightarrow> document_changes percent_decode changes []
      | None \<Rightarrow>
          (case Option.bind (get ''changes'' edit) as_members of
             Some changes \<Rightarrow> uri_changes percent_decode changes []
           | None \<Rightarrow> Inr []))"

section \<open>Applying a file's edits\<close>

datatype edit_fault =
    No_line | No_character | Past_the_end nat | No_range | No_start | No_end | Overlap

definition line_starts :: "string \<Rightarrow> nat list" where
  "line_starts text = 0 # map Suc (filter (\<lambda>i. text ! i = nl) [0..<length text])"

definition trim_end_matches :: "char \<Rightarrow> string \<Rightarrow> string" where
  "trim_end_matches c s = rev (dropWhile (\<lambda>x. x = c) (rev s))"

text \<open>The byte offset in a line's characters of a UTF-16 column; past the end means the end.\<close>

fun column_offset :: "u32 \<Rightarrow> u32 \<Rightarrow> string list \<Rightarrow> nat" where
  "column_offset column units [] = 0"
| "column_offset column units (c # cs) =
     (if column \<le> units then 0 else length c + column_offset column (units + len_utf16 c) cs)"

definition position_offset :: "string \<Rightarrow> json \<Rightarrow> edit_fault + nat" where
  "position_offset text pos =
     (case Option.bind (get ''line'' pos) as_u64 of
        None \<Rightarrow> Inl No_line
      | Some line \<Rightarrow>
          (case Option.bind (get ''character'' pos) as_u64 of
             None \<Rightarrow> Inl No_character
           | Some character \<Rightarrow>
               (let starts = line_starts text
                in if length starts \<le> line then Inl (Past_the_end (line + 1))
                   else
                     (let start = starts ! line;
                          next = (if Suc line < length starts then starts ! Suc line else length text);
                          line_text = trim_end_matches (char_of (13::nat)) (trim_end_matches nl (drop start (take next text)))
                      in Inr (start + column_offset (u32_of character) 0 (utf8_chars line_text))))))"

definition edit_span :: "string \<Rightarrow> json \<Rightarrow> edit_fault + (nat \<times> nat \<times> string)" where
  "edit_span text edit =
     (case get ''range'' edit of
        None \<Rightarrow> Inl No_range
      | Some rng \<Rightarrow>
          (case get ''start'' rng of
             None \<Rightarrow> Inl No_start
           | Some start \<Rightarrow>
               (case position_offset text start of
                  Inl e \<Rightarrow> Inl e
                | Inr from \<Rightarrow>
                    (case get ''end'' rng of
                       None \<Rightarrow> Inl No_end
                     | Some stop \<Rightarrow>
                         (case position_offset text stop of
                            Inl e \<Rightarrow> Inl e
                          | Inr to \<Rightarrow>
                              Inr (from, max to from,
                                   case Option.bind (get ''newText'' edit) as_str of Some t \<Rightarrow> t | None \<Rightarrow> []))))))"

fun edit_spans :: "string \<Rightarrow> json list \<Rightarrow> edit_fault + (nat \<times> nat \<times> string) list" where
  "edit_spans text [] = Inr []"
| "edit_spans text (e # es) =
     (case edit_span text e of
        Inl f \<Rightarrow> Inl f
      | Inr span \<Rightarrow> (case edit_spans text es of Inl f \<Rightarrow> Inl f | Inr spans \<Rightarrow> Inr (span # spans)))"

fun overlapping :: "(nat \<times> nat \<times> string) list \<Rightarrow> bool" where
  "overlapping ((_, to, _) # (from, to', t) # rest) = (from < to \<or> overlapping ((from, to', t) # rest))"
| "overlapping _ = False"

definition replace_range :: "nat \<times> nat \<times> string \<Rightarrow> string \<Rightarrow> string" where
  "replace_range = (\<lambda>(from, to, new_text) s. take from s @ new_text @ drop to s)"

definition apply_text_edits :: "string \<Rightarrow> json list \<Rightarrow> edit_fault + string" where
  "apply_text_edits text edits =
     (case edit_spans text edits of
        Inl f \<Rightarrow> Inl f
      | Inr unsorted \<Rightarrow>
          (let spans = sort_key (\<lambda>(from, to, _). (from, to)) unsorted
           in if overlapping spans then Inl Overlap else Inr (foldr replace_range spans text)))"

section \<open>Positions\<close>

lemma operation_round_trip: "operation_parse (operation_name op) = Inr op"
  by (cases op) (simp_all add: operation_parse_def all_operations_def)

lemma len_utf16_pos: "ch \<noteq> [] \<Longrightarrow> 1 \<le> len_utf16 ch"
  by (cases ch) (simp_all add: len_utf16_def)

lemma len_utf16_le: "len_utf16 ch \<le> 2"
  by (simp add: len_utf16_def split: list.split)

abbreviation units_of :: "string list \<Rightarrow> nat" where
  "units_of cs \<equiv> sum_list (map len_utf16 cs)"

lemma characters_before_units:
  assumes "\<forall>ch \<in> set cs. ch \<noteq> []" "k \<le> length cs"
  shows "characters_before (units + units_of (take k cs)) units cs = k"
  using assms
proof (induction cs arbitrary: k units)
  case (Cons c cs)
  show ?case
  proof (cases k)
    case (Suc j)
    with Cons show ?thesis
      using len_utf16_pos [of c] Cons.IH [of j "units + len_utf16 c"] by (simp add: ac_simps)
  qed simp
qed simp

lemma units_before_characters:
  assumes "units \<le> column" "column \<le> units + units_of cs"
  shows "column \<le> units + units_of (take (characters_before column units cs) cs)
    \<and> units + units_of (take (characters_before column units cs) cs) \<le> column + 1"
  using assms
proof (induction cs arbitrary: units)
  case (Cons c cs)
  show ?case
  proof (cases "column \<le> units")
    case False
    show ?thesis
    proof (cases "units + len_utf16 c \<le> column")
      case True
      with False Cons show ?thesis using Cons.IH [of "units + len_utf16 c"] by (simp add: ac_simps)
    next
      case over: False
      then have "characters_before column (units + len_utf16 c) cs = 0" by (cases cs) simp_all
      with False over len_utf16_le [of c] show ?thesis by simp
    qed
  qed (use Cons in simp)
qed simp

text \<open>
  Positions survive the language server: a character of a line goes to a UTF-16 column and back to
  itself, whatever characters the line has; and a column of the line comes back as itself, or one further
  when it falls inside a surrogate pair.
\<close>

theorem positions_round_trip:
  "(1 \<le> character \<longrightarrow> character \<le> length (utf8_chars line) + 1 \<longrightarrow> from_utf16 line (to_utf16 line character) = character)
   \<and> (column \<le> units_of (utf8_chars line) \<longrightarrow>
       column \<le> to_utf16 line (from_utf16 line column) \<and> to_utf16 line (from_utf16 line column) \<le> column + 1)"
proof (intro conjI impI)
  assume "1 \<le> character" "character \<le> length (utf8_chars line) + 1"
  then show "from_utf16 line (to_utf16 line character) = character"
    using characters_before_units [of "utf8_chars line" "character - 1" 0] utf8_chars_nonempty
    by (simp add: from_utf16_def to_utf16_def)
next
  assume "column \<le> units_of (utf8_chars line)"
  then show "column \<le> to_utf16 line (from_utf16 line column)" "to_utf16 line (from_utf16 line column) \<le> column + 1"
    using units_before_characters [of 0 column "utf8_chars line"] by (simp_all add: from_utf16_def to_utf16_def)
qed

theorem positions_round_trip_witness:
  "from_utf16 [CHR 0xF0, CHR 0x9F, CHR 0x98, CHR 0x80, CHR ''x''] 2 = 2"
proof -
  let ?l = "[CHR 0xF0, CHR 0x9F, CHR 0x98, CHR 0x80, CHR ''x'']"
  have "to_utf16 ?l 2 = 2" "length (utf8_chars ?l) = 2" by code_simp+
  with positions_round_trip [of 2 ?l 0] show ?thesis by simp
qed

section \<open>A rename's files and edits\<close>

lemma extend_files_paths:
  "fst ` set (extend_files path edits files) = insert path (fst ` set files)"
  "distinct (map fst files) \<Longrightarrow> distinct (map fst (extend_files path edits files))"
  by (induction path edits files rule: extend_files.induct) force+

definition files_ok :: "(string \<times> json list) list \<Rightarrow> bool" where
  "files_ok files \<longleftrightarrow> distinct (map fst files) \<and> (\<forall>path \<in> fst ` set files. in_workspace path)"

lemma add_edits_ok: "add_edits percent_decode uri edits files = Inr files' \<Longrightarrow> files_ok files \<Longrightarrow> files_ok files'"
proof -
  assume "add_edits percent_decode uri edits files = Inr files'" and ok: "files_ok files"
  then obtain path where "in_workspace path" "files' = extend_files path edits files"
    by (auto simp: add_edits_def split: option.splits if_splits)
  with ok show ?thesis
    unfolding files_ok_def by (simp only: extend_files_paths ball_simps simp_thms) blast
qed

lemma document_changes_ok:
  "document_changes percent_decode changes files = Inr files' \<Longrightarrow> files_ok files
    \<Longrightarrow> files_ok files' \<and> (\<forall>change \<in> set changes. get ''kind'' change = None)"
  by (induction percent_decode changes files arbitrary: files' rule: document_changes.induct)
    (auto simp: Let_def split: if_splits sum.splits dest: add_edits_ok)

lemma uri_changes_ok:
  "uri_changes percent_decode changes files = Inr files' \<Longrightarrow> files_ok files \<Longrightarrow> files_ok files'"
  by (induction percent_decode changes files arbitrary: files' rule: uri_changes.induct)
    (auto split: sum.splits dest: add_edits_ok)

text \<open>
  (C28) A rename a language server answers with only touches files under \<open>/workspace\<close>, each named once by a
  path with no \<open>.\<close>, \<open>..\<close> or empty part, and moves no file; any other answer is refused whole.
\<close>

theorem renames_stay_in_the_workspace:
  assumes "workspace_edit_files percent_decode edit = Inr files"
  shows "distinct (map fst files)
    \<and> (\<forall>(path, _) \<in> set files. starts_with path ''/workspace/''
         \<and> (\<forall>part \<in> set (drop 1 (slash_parts path)). part \<noteq> ''..'' \<and> part \<noteq> ''.'' \<and> part \<noteq> []))
    \<and> (\<forall>changes. get ''documentChanges'' edit = Some (JArray changes) \<longrightarrow>
         (\<forall>change \<in> set changes. get ''kind'' change = None))"
proof -
  have "files_ok files"
    using assms document_changes_ok [where files = "[]"] uri_changes_ok [where files = "[]"]
    by (auto simp: workspace_edit_files_def files_ok_def split: option.splits)
  moreover have "\<forall>change \<in> set changes. get ''kind'' change = None" if "get ''documentChanges'' edit = Some (JArray changes)" for changes
    using assms that document_changes_ok [of percent_decode changes "[]" files]
    by (simp add: workspace_edit_files_def files_ok_def)
  ultimately show ?thesis
    by (fastforce simp: files_ok_def in_workspace_def list_ex_iff)
qed

definition a_rename :: json where
  "a_rename = JObject [(''changes'', JObject [(''file:///workspace/a'', JArray [])])]"

theorem renames_stay_in_the_workspace_witness:
  "workspace_edit_files Some a_rename = Inr [(''/workspace/a'', [])] \<and> starts_with ''/workspace/a'' ''/workspace/''"
proof -
  have e: "workspace_edit_files Some a_rename = Inr [(''/workspace/a'', [])]" by code_simp
  from e renames_stay_in_the_workspace [OF e] show ?thesis by simp
qed

text \<open>Text with non-overlapping spans replaced, read from a position on, left to right.\<close>

fun spliced :: "nat \<Rightarrow> (nat \<times> nat \<times> string) list \<Rightarrow> string \<Rightarrow> string" where
  "spliced pos [] text = drop pos text"
| "spliced pos ((from, to, new_text) # spans) text =
     take (from - pos) (drop pos text) @ new_text @ spliced to spans text"

fun in_order :: "nat \<Rightarrow> (nat \<times> nat \<times> string) list \<Rightarrow> nat \<Rightarrow> bool" where
  "in_order pos [] len = (pos \<le> len)"
| "in_order pos ((from, to, _) # spans) len = (pos \<le> from \<and> from \<le> to \<and> in_order to spans len)"

lemma in_order_le: "in_order pos spans len \<Longrightarrow> pos \<le> len"
  by (induction pos spans len rule: in_order.induct) auto

lemma replace_in_order:
  "in_order pos spans (length text) \<Longrightarrow> foldr replace_range spans text = take pos text @ spliced pos spans text"
proof (induction spans arbitrary: pos)
  case (Cons span spans)
  obtain start to new_text where span: "span = (start, to, new_text)" by (cases span) auto
  have bounds: "pos \<le> start" "start \<le> to" "to \<le> length text"
    using Cons.prems in_order_le by (auto simp: span)
  have "foldr replace_range spans text = take to text @ spliced to spans text"
    using Cons span by simp
  moreover have "take start text = take pos text @ take (start - pos) (drop pos text)"
    using bounds take_add [of pos "start - pos" "text"] by simp
  ultimately show ?case
    using bounds by (simp add: span replace_range_def)
qed simp

lemma column_offset_le: "column_offset column units cs \<le> length (concat cs)"
  by (induction column units cs rule: column_offset.induct) auto

lemma trim_end_matches_le: "length (trim_end_matches c s) \<le> length s"
  by (simp add: trim_end_matches_def length_dropWhile_le [of _ "rev s", simplified])

lemma line_starts_le: "start \<in> set (line_starts text) \<Longrightarrow> start \<le> length text"
  by (auto simp: line_starts_def)

lemma line_offset_le:
  assumes "start \<le> length text"
  shows "start + column_offset col 0 (utf8_chars (trim_end_matches c (trim_end_matches d (drop start (take n text))))) \<le> length text"
proof -
  have "column_offset col 0 (utf8_chars (trim_end_matches c (trim_end_matches d (drop start (take n text)))))
      \<le> length (drop start (take n text))"
    using column_offset_le [of col 0 "utf8_chars _", unfolded concat_utf8_chars]
      trim_end_matches_le [of c] trim_end_matches_le [of d] by (meson order.trans)
  with assms show ?thesis by simp
qed

lemma position_offset_le:
  assumes "position_offset text pos = Inr off"
  shows "off \<le> length text"
  using assms line_offset_le [OF line_starts_le [OF nth_mem]]
    line_offset_le [OF line_starts_le [OF nth_mem], of _ "text" _ _ _ "length text", simplified]
  by (auto simp: position_offset_def Let_def split: option.splits if_splits)

lemma edit_span_ok: "edit_span text e = Inr (start, to, new_text) \<Longrightarrow> start \<le> to \<and> to \<le> length text"
  by (auto simp: edit_span_def split: option.splits sum.splits dest!: position_offset_le)

lemma edit_spans_ok: "edit_spans text es = Inr spans \<Longrightarrow> (start, to, new_text) \<in> set spans \<Longrightarrow> start \<le> to \<and> to \<le> length text"
proof (induction es arbitrary: spans)
  case (Cons e es)
  then show ?case by (auto split: sum.splits dest: edit_span_ok)
qed simp

lemma sorted_in_order:
  assumes "\<And>start to t. (start, to, t) \<in> set spans \<Longrightarrow> pos \<le> start \<and> start \<le> to \<and> to \<le> len"
    and "sorted (map (\<lambda>(start, to, _). (start, to)) spans)" and "\<not> overlapping spans" and "pos \<le> len"
  shows "in_order pos spans len"
  using assms
proof (induction spans arbitrary: pos)
  case (Cons span spans)
  obtain start to t where span: "span = (start, to, t)" by (cases span) auto
  have "to \<le> start' \<and> start' \<le> to' \<and> to' \<le> len" if "(start', to', t') \<in> set spans" for start' to' t'
  proof (cases spans)
    case later: (Cons n rest)
    obtain start1 to1 t1 where n: "n = (start1, to1, t1)" by (cases n) auto
    have "start1 \<le> start'"
      using Cons.prems(2) that later n span by (fastforce simp: less_eq_prod_def)
    moreover have "to \<le> start1" using Cons.prems(3) later n span by simp
    ultimately show ?thesis using Cons.prems(1) [of start' to' t'] that by auto
  qed (use that in simp)
  moreover have "\<not> overlapping spans" using Cons.prems(3) span by (cases spans) auto
  ultimately have "in_order to spans len"
    using Cons.prems(1) [of start to t] Cons.prems(2) span by (intro Cons.IH) auto
  with Cons.prems(1) [of start to t] show ?case by (simp add: span)
qed simp

text \<open>
  (C29) A rename's edits are applied all at once: replacing the spans from the last to the first gives the
  text read left to right with each span, as the server named it in the original, replaced by its new
  text, and everything between them kept; spans that overlap are refused.
\<close>

theorem edits_apply_at_once:
  assumes "apply_text_edits text edits = Inr out"
  shows "\<exists>unsorted. edit_spans text edits = Inr unsorted
    \<and> in_order 0 (sort_key (\<lambda>(from, to, _). (from, to)) unsorted) (length text)
    \<and> out = spliced 0 (sort_key (\<lambda>(from, to, _). (from, to)) unsorted) text"
proof -
  let ?sorted = "sort_key (\<lambda>(from, to, _). (from, to))"
  obtain unsorted where u: "edit_spans text edits = Inr unsorted" "\<not> overlapping (?sorted unsorted)"
    and out: "out = foldr replace_range (?sorted unsorted) text"
    using assms by (auto simp: apply_text_edits_def Let_def split: sum.splits if_splits)
  have "in_order 0 (?sorted unsorted) (length text)"
    using u edit_spans_ok [OF u(1)] by (intro sorted_in_order) auto
  then show ?thesis using u(1) out replace_in_order [of 0 "?sorted unsorted" "text"] by auto
qed

definition an_edit :: "nat \<Rightarrow> nat \<Rightarrow> string \<Rightarrow> json" where
  "an_edit from to new_text =
     JObject [(''range'', JObject
        [(''start'', JObject [(''line'', JInt 0), (''character'', JInt (int from))]),
         (''end'', JObject [(''line'', JInt 0), (''character'', JInt (int to))])]),
       (''newText'', JString new_text)]"

theorem edits_apply_at_once_witness:
  "apply_text_edits ''old x old'' [an_edit 6 9 ''new'', an_edit 0 3 ''new''] = Inr ''new x new''
    \<and> spliced 0 [(0, 3, ''new''), (6, 9, ''new'')] ''old x old'' = ''new x new''"
proof -
  have e: "apply_text_edits ''old x old'' [an_edit 6 9 ''new'', an_edit 0 3 ''new''] = Inr ''new x new''" by code_simp
  have s: "edit_spans ''old x old'' [an_edit 6 9 ''new'', an_edit 0 3 ''new''] = Inr [(6, 9, ''new''), (0, 3, ''new'')]"
    by code_simp
  from edits_apply_at_once [OF e] e s show ?thesis by simp
qed

end
