(* ===== verification/Agent_Refs.thy ===== *)
theory Agent_Refs
  imports Prelude
begin

text \<open>
  \<open>src/agent_refs.rs\<close>: the references to other conversations (\<open>agent #12\<close>, \<open>conversation #12\<close>) in a text, which
  is split at them. Text is its UTF-8 bytes; whether a character is alphanumeric in Unicode is a parameter
  (\<open>alnum\<close>, on the character's bytes).
\<close>

datatype segment = Text_run string | Conversation_ref string i64

definition KEYWORDS :: "string list" where
  "KEYWORDS = [''conversation'', ''agent'']"

text \<open>The keyword's bytes are ASCII, so where they match, their ends are ends of characters.\<close>

definition keyword_before :: "(string \<Rightarrow> bool) \<Rightarrow> string \<Rightarrow> nat \<Rightarrow> string \<Rightarrow> bool" where
  "keyword_before alnum t hash keyword \<longleftrightarrow>
     0 < hash \<and> t ! (hash - 1) = CHR '' '' \<and> length keyword \<le> hash - 1
     \<and> (let start = hash - 1 - length keyword
        in eq_ignore_ascii_case (drop start (take (hash - 1) t)) keyword
           \<and> (case rev (utf8_chars (take start t)) of
                [] \<Rightarrow> True
              | c # _ \<Rightarrow> \<not> (alnum c \<or> c = ''-'' \<or> c = ''_'')))"

definition digits_from :: "string \<Rightarrow> nat \<Rightarrow> string" where
  "digits_from t i = takeWhile is_ascii_digit (drop i t)"

definition parse_i64_digits :: "string \<Rightarrow> i64 option" where
  "parse_i64_digits digits = (if int (digits_value digits) \<le> i64_max then Some (int (digits_value digits)) else None)"

text \<open>The reference around the \<open>#\<close> at an offset: where it starts and ends, and its conversation.\<close>

definition reference_at :: "(string \<Rightarrow> bool) \<Rightarrow> string \<Rightarrow> nat \<Rightarrow> (nat \<times> nat \<times> i64) option" where
  "reference_at alnum t hash =
     (case List.find (keyword_before alnum t hash) KEYWORDS of
        None \<Rightarrow> None
      | Some keyword \<Rightarrow>
          (let digits = digits_from t (hash + 1);
               stop = hash + 1 + length digits
           in if digits = [] \<or> 19 < length digits \<or> hd digits = CHR ''0'' then None
              else (case parse_i64_digits digits of
                      None \<Rightarrow> None
                    | Some i \<Rightarrow>
                        (case utf8_chars (drop stop t) of
                           c # _ \<Rightarrow> if alnum c \<or> c = ''_'' then None else Some (hash - length keyword - 1, stop, i)
                         | [] \<Rightarrow> Some (hash - length keyword - 1, stop, i)))))"

definition next_hash :: "string \<Rightarrow> nat \<Rightarrow> nat" where
  "next_hash t at = at + length (takeWhile (\<lambda>b. b \<noteq> CHR ''#'') (drop at t))"

lemma next_hash_le: "at \<le> next_hash t at"
  by (simp add: next_hash_def)

lemma next_hash_step: "\<not> length t \<le> next_hash t at \<Longrightarrow> length t - Suc (next_hash t at) < length t - at"
  using next_hash_le [of at t] by linarith

function refs_from :: "(string \<Rightarrow> bool) \<Rightarrow> string \<Rightarrow> nat \<Rightarrow> nat \<Rightarrow> segment list \<times> nat" where
  "refs_from alnum t at rest =
     (let hash = next_hash t at
      in if length t \<le> hash then ([], rest)
         else case reference_at alnum t hash of
                None \<Rightarrow> refs_from alnum t (hash + 1) rest
              | Some (start, stop, i) \<Rightarrow>
                  (let (out, rest') = refs_from alnum t (hash + 1) stop
                   in ((if rest < start then [Text_run (drop rest (take start t))] else [])
                       @ [Conversation_ref (drop start (take stop t)) i] @ out, rest')))"
  by pat_completeness auto
termination
  by (relation "measure (\<lambda>(_, t, at, _). length t - at)") (simp_all add: next_hash_step)

declare refs_from.simps [simp del]

definition find_refs :: "(string \<Rightarrow> bool) \<Rightarrow> string \<Rightarrow> segment list" where
  "find_refs alnum t =
     (let (out, rest) = refs_from alnum t 0 0
      in if out = [] then [Text_run t]
         else if rest < length t then out @ [Text_run (drop rest t)] else out)"

section \<open>What the scan finds\<close>

fun segment_words :: "segment \<Rightarrow> string" where
  "segment_words (Text_run t) = t"
| "segment_words (Conversation_ref words _) = words"

text \<open>Words as a reference is written: a keyword, in any case, one space, a number sign and the number.\<close>

definition is_reference :: "string \<Rightarrow> i64 \<Rightarrow> bool" where
  "is_reference words i \<longleftrightarrow>
     (\<exists>word digits. words = word @ '' #'' @ digits \<and> list_ex (eq_ignore_ascii_case word) KEYWORDS
        \<and> list_all is_ascii_digit digits \<and> digits \<noteq> [] \<and> length digits \<le> 19 \<and> hd digits \<noteq> CHR ''0''
        \<and> int (digits_value digits) = i \<and> i \<le> i64_max)"

lemma next_hash_at: "next_hash t at < length t \<Longrightarrow> t ! next_hash t at = CHR ''#''"
  using nth_length_takeWhile [of "\<lambda>b. b \<noteq> CHR ''#''" "drop at t"] by (simp add: next_hash_def)

lemma next_hash_before: "at \<le> k \<Longrightarrow> k < next_hash t at \<Longrightarrow> t ! k \<noteq> CHR ''#''"
proof -
  assume k: "at \<le> k" "k < next_hash t at"
  then have "k - at < length (takeWhile (\<lambda>b. b \<noteq> CHR ''#'') (drop at t))" by (simp add: next_hash_def)
  then have "takeWhile (\<lambda>b. b \<noteq> CHR ''#'') (drop at t) ! (k - at) \<noteq> CHR ''#''"
    using nth_mem set_takeWhileD by fastforce
  moreover have "takeWhile (\<lambda>b. b \<noteq> CHR ''#'') (drop at t) ! (k - at) = t ! k"
    using \<open>k - at < _\<close> k(1) length_takeWhile_le [of "\<lambda>b. b \<noteq> CHR ''#''" "drop at t"]
    by (simp add: takeWhile_nth)
  ultimately show ?thesis by simp
qed

lemma keyword_letters: "keyword \<in> set KEYWORDS \<Longrightarrow> eq_ignore_ascii_case w keyword \<Longrightarrow> c \<in> set w \<Longrightarrow> \<not> is_ascii_digit c"
proof -
  assume k: "keyword \<in> set KEYWORDS" "eq_ignore_ascii_case w keyword" "c \<in> set w"
  then have "ascii_lower_char c \<in> set (to_ascii_lowercase keyword)"
    by (metis eq_ignore_ascii_case_def image_eqI set_map to_ascii_lowercase_def)
  moreover have "list_all (\<lambda>k. list_all (\<lambda>d. \<not> is_ascii_digit d) (to_ascii_lowercase k)) KEYWORDS" by code_simp
  ultimately have "\<not> is_ascii_digit (ascii_lower_char c)" using k(1) by (auto simp: list_all_iff)
  then show ?thesis by (auto simp: ascii_lower_char_def is_ascii_digit_def is_ascii_upper_def split: if_splits)
qed

lemma reference_at_parts:
  assumes "reference_at alnum t hash = Some (start, stop, i)" "hash < length t" "t ! hash = CHR ''#''"
  shows "start < hash" "hash + 1 < stop" "stop \<le> length t" "\<forall>k. hash < k \<and> k < stop \<longrightarrow> is_ascii_digit (t ! k)"
    "\<forall>k. start \<le> k \<and> k < hash \<longrightarrow> \<not> is_ascii_digit (t ! k)" "is_reference (drop start (take stop t)) i"
proof -
  let ?digits = "digits_from t (hash + 1)"
  obtain keyword where k: "keyword \<in> set KEYWORDS" "keyword_before alnum t hash keyword"
      "?digits \<noteq> []" "length ?digits \<le> 19" "hd ?digits \<noteq> CHR ''0''" "parse_i64_digits ?digits = Some i"
      "start = hash - length keyword - 1" "stop = hash + 1 + length ?digits"
    using assms(1) by (auto simp: reference_at_def Let_def split: option.splits list.splits if_splits dest!: find_SomeD)
  let ?word = "drop start (take (hash - 1) t)"
  have kw: "0 < hash" "t ! (hash - 1) = CHR '' ''" "length keyword \<le> hash - 1" "eq_ignore_ascii_case ?word keyword"
    using k(2,7) by (auto simp: keyword_before_def Let_def diff_commute)
  have digits_le: "hash + 1 + length ?digits \<le> length t"
    using assms(2) length_takeWhile_le [of is_ascii_digit "drop (hash + 1) t"] by (simp add: digits_from_def)
  show "start < hash" "hash + 1 < stop" "stop \<le> length t" using k kw(1) digits_le by auto
  have nth: "?digits ! j = t ! (hash + 1 + j)" if "j < length ?digits" for j
    using that length_takeWhile_le [of is_ascii_digit "drop (hash + 1) t"] by (simp add: digits_from_def takeWhile_nth)
  have all: "list_all is_ascii_digit ?digits" by (auto simp: digits_from_def list_all_iff dest: set_takeWhileD)
  show "\<forall>k. hash < k \<and> k < stop \<longrightarrow> is_ascii_digit (t ! k)"
  proof (intro allI impI)
    fix j
    assume "hash < j \<and> j < stop"
    then have "j - hash - 1 < length ?digits" "hash + 1 + (j - hash - 1) = j" using k(8) by auto
    then show "is_ascii_digit (t ! j)"
      using nth [of "j - hash - 1"] all by (metis list_all_length)
  qed
  show "\<forall>k. start \<le> k \<and> k < hash \<longrightarrow> \<not> is_ascii_digit (t ! k)"
  proof (intro allI impI)
    fix j
    assume j: "start \<le> j \<and> j < hash"
    show "\<not> is_ascii_digit (t ! j)"
    proof (cases "j = hash - 1")
      case True
      then show ?thesis using kw(2) by (simp add: is_ascii_digit_def)
    next
      case False
      then have "t ! j = ?word ! (j - start)" "j - start < length ?word" using j assms(2) by auto
      then have "t ! j \<in> set ?word" using nth_mem by metis
      then show ?thesis by (rule keyword_letters [OF k(1) kw(4)])
    qed
  qed
  have "take stop t = take (hash - 1) t @ [t ! (hash - 1), t ! hash] @ ?digits"
  proof -
    have "take stop t = take (hash + 1) t @ ?digits"
    proof -
      have "take (length ?digits) (drop (hash + 1) t) = ?digits" by (metis digits_from_def takeWhile_eq_take)
      then show ?thesis unfolding k(8) by (simp only: take_add)
    qed
    moreover have "take (hash + 1) t = take hash t @ [t ! hash]"
      using assms(2) by (simp add: take_Suc_conv_app_nth)
    moreover have "take hash t = take (hash - 1) t @ [t ! (hash - 1)]"
      using kw(1) assms(2) take_Suc_conv_app_nth [of "hash - 1" t] by simp
    ultimately show ?thesis by simp
  qed
  then have "drop start (take stop t) = ?word @ '' #'' @ ?digits"
    using k(7) kw(1,2) assms(2,3) by simp
  then show "is_reference (drop start (take stop t)) i"
    unfolding is_reference_def using k all kw(4)
    by (intro exI [of _ ?word] exI [of _ ?digits])
       (auto simp: parse_i64_digits_def list_ex_iff split: if_splits)
qed


text \<open>What the scan has passed is not digits of a reference it goes on to find.\<close>

definition scan_ok :: "string \<Rightarrow> nat \<Rightarrow> nat \<Rightarrow> bool" where
  "scan_ok t at rest \<longleftrightarrow>
     rest \<le> length t \<and> (rest = 0 \<or> is_ascii_digit (t ! (rest - 1))) \<and> (\<forall>k. at \<le> k \<and> k < rest \<longrightarrow> t ! k \<noteq> CHR ''#'')"

lemma drop_slice: "a \<le> b \<Longrightarrow> drop a t = drop a (take b t) @ drop b t"
  using drop_append [of a "take b t" "drop b t"] by (cases "b \<le> length t") simp_all

lemma refs_from_ok:
  "scan_ok t at rest \<Longrightarrow>
   (case refs_from alnum t at rest of
      (out, rest') \<Rightarrow> concat (map segment_words out) @ drop rest' t = drop rest t
        \<and> (out = [] \<longrightarrow> rest' = rest)
        \<and> (\<forall>words i. Conversation_ref words i \<in> set out \<longrightarrow> is_reference words i)
        \<and> (\<forall>words. Text_run words \<in> set out \<longrightarrow> words \<noteq> []))"
proof (induction alnum t at rest rule: refs_from.induct)
  case (1 alnum t at rest)
  let ?hash = "next_hash t at"
  show ?case
  proof (cases "length t \<le> ?hash")
    case True
    then show ?thesis by (simp add: refs_from.simps [of alnum t at])
  next
    case inside: False
    have hash: "?hash < length t" "t ! ?hash = CHR ''#''" using inside next_hash_at by auto
    have none_before: "?hash < k \<Longrightarrow> k < rest \<Longrightarrow> t ! k \<noteq> CHR ''#''" for k
      using 1(3) next_hash_le [of at t] by (auto simp: scan_ok_def)
    show ?thesis
    proof (cases "reference_at alnum t ?hash")
      case None
      have "scan_ok t (?hash + 1) rest" using 1(3) none_before by (auto simp: scan_ok_def)
      from 1(1) [OF refl inside None this] show ?thesis
        using inside None by (simp add: refs_from.simps [of alnum t at])
    next
      case (Some r)
      obtain start stop i where r: "r = (start, stop, i)" by (cases r)
      note parts = reference_at_parts [OF Some [unfolded r] hash]
      have "rest \<le> ?hash"
      proof (rule ccontr)
        assume "\<not> rest \<le> ?hash"
        then show False using 1(3) hash(2) next_hash_le [of at t] by (auto simp: scan_ok_def)
      qed
      have le: "rest \<le> start"
      proof (rule ccontr)
        assume "\<not> rest \<le> start"
        then have "start \<le> rest - 1 \<and> rest - 1 < ?hash" "rest \<noteq> 0" using \<open>rest \<le> ?hash\<close> by auto
        then show False using parts(5) 1(3) by (auto simp: scan_ok_def)
      qed
      have "\<not> is_ascii_digit (CHR ''#'')" by (simp add: is_ascii_digit_def)
      then have ok: "scan_ok t (?hash + 1) stop"
        using parts(2-4) by (auto simp: scan_ok_def) (metis Suc_le_lessD)
      obtain out rest' where out: "refs_from alnum t (?hash + 1) stop = (out, rest')" by force
      have cut: "drop rest t = drop rest (take start t) @ drop start (take stop t) @ drop stop t"
        using le parts(1,2) drop_slice [of rest start t] drop_slice [of start stop t] by simp
      show ?thesis
        using 1(2) [OF refl inside Some r [symmetric] refl ok] out inside Some r le cut parts(1,6) hash(1)
        by (auto simp: refs_from.simps [of alnum t at] Let_def)
    qed
  qed
qed

lemma find_refs_words: "concat (map segment_words (find_refs alnum t)) = t"
proof -
  have "scan_ok t 0 0" by (simp add: scan_ok_def)
  from refs_from_ok [OF this, of alnum] show ?thesis
    by (auto simp: find_refs_def split: prod.splits)
qed

lemma find_refs_are_references:
  assumes "Conversation_ref words i \<in> set (find_refs alnum t)" shows "is_reference words i"
proof -
  have "scan_ok t 0 0" by (simp add: scan_ok_def)
  from refs_from_ok [OF this, of alnum] show ?thesis
    using assms by (auto simp: find_refs_def split: prod.splits if_splits)
qed

text \<open>
  Splitting a text at its references loses and changes nothing: the segments' words, put together, are the
  text. Every reference found is written as one, a keyword in any case, one space, a number sign and at
  most nineteen digits with no leading zero, and leads to the conversation of that number.
\<close>

theorem references_split_the_text:
  "concat (map segment_words (find_refs alnum t)) = t
   \<and> (\<forall>words i. Conversation_ref words i \<in> set (find_refs alnum t) \<longrightarrow> is_reference words i)"
  using find_refs_words find_refs_are_references by blast

theorem references_split_the_text_witness:
  "find_refs (\<lambda>c. c = ''s'') ''see Agent #12, not agent #12s'' = [Text_run ''see '', Conversation_ref ''Agent #12'' 12, Text_run '', not agent #12s'']
   \<and> is_reference ''Agent #12'' 12"
proof -
  have found: "find_refs (\<lambda>c. c = ''s'') ''see Agent #12, not agent #12s''
      = [Text_run ''see '', Conversation_ref ''Agent #12'' 12, Text_run '', not agent #12s'']"
    by code_simp
  then show ?thesis
    using references_split_the_text [of "\<lambda>c. c = ''s''" "''see Agent #12, not agent #12s''"] by simp
qed

end
