(* ===== verification/Markdown.thy ===== *)
theory Markdown
  imports Agent_Refs
begin

text \<open>
  \<open>src/markdown.rs\<close>, the tree of blocks a reply's markdown is rendered from, and the pass that turns addresses and
  conversation references in its text into links (\<open>autolink\<close>). The spans linkify finds are the fields of \<open>finders\<close>,
  each a piece of the text with the kind linkify gave it.
\<close>

section \<open>The tree\<close>

datatype inline =
    In_Text string
  | In_Code string
  | In_Emphasis "inline list"
  | In_Strong "inline list"
  | In_Strike "inline list"
  | In_Link string "inline list"
  | In_Image string string
  | In_ConversationRef i64 string
  | In_SoftBreak
  | In_HardBreak

datatype block =
    Bl_Paragraph "inline list"
  | Bl_Plain "inline list"
  | Bl_Heading nat "inline list"
  | Bl_Quote "block list"
  | Bl_List "u64 option" "list_item list"
  | Bl_Code "string option" string bool
  | Bl_Table "inline list list" "inline list list list"
  | Bl_Rule
  | Bl_Html string
and list_item = List_item "bool option" "block list"

definition MAX_DEPTH :: nat where
  "MAX_DEPTH = 16"

text \<open>An inline's words, without formatting.\<close>

fun plain_text :: "inline \<Rightarrow> string" where
  "plain_text (In_Text t) = t"
| "plain_text (In_Code t) = t"
| "plain_text (In_Emphasis c) = concat (map plain_text c)"
| "plain_text (In_Strong c) = concat (map plain_text c)"
| "plain_text (In_Strike c) = concat (map plain_text c)"
| "plain_text (In_Link _ c) = concat (map plain_text c)"
| "plain_text (In_Image _ alt) = alt"
| "plain_text (In_ConversationRef _ words) = words"
| "plain_text In_SoftBreak = '' ''"
| "plain_text In_HardBreak = '' ''"

section \<open>Which destinations are followed\<close>

definition allowed_url :: "string \<Rightarrow> string list \<Rightarrow> bool" where
  "allowed_url url schemes =
     (case split_once '':'' url of
        None \<Rightarrow> False
      | Some (scheme, _) \<Rightarrow> list_ex (eq_ignore_ascii_case scheme) schemes)"

text \<open>U+061C, U+200E, U+200F, U+202A to U+202E and U+2066 to U+2069, as UTF-8.\<close>

definition BIDI_CONTROLS :: "string list" where
  "BIDI_CONTROLS =
     [[CHR 0xD8, CHR 0x9C], [CHR 0xE2, CHR 0x80, CHR 0x8E], [CHR 0xE2, CHR 0x80, CHR 0x8F],
      [CHR 0xE2, CHR 0x80, CHR 0xAA], [CHR 0xE2, CHR 0x80, CHR 0xAB], [CHR 0xE2, CHR 0x80, CHR 0xAC],
      [CHR 0xE2, CHR 0x80, CHR 0xAD], [CHR 0xE2, CHR 0x80, CHR 0xAE],
      [CHR 0xE2, CHR 0x81, CHR 0xA6], [CHR 0xE2, CHR 0x81, CHR 0xA7], [CHR 0xE2, CHR 0x81, CHR 0xA8],
      [CHR 0xE2, CHR 0x81, CHR 0xA9]]"

definition has_bidi_control :: "string \<Rightarrow> bool" where
  "has_bidi_control t = list_ex (\<lambda>c. c \<in> set BIDI_CONTROLS) (utf8_chars t)"

definition mailto :: "string \<Rightarrow> string option" where
  "mailto address =
     (if list_ex (\<lambda>c. c \<in> set ''?#%&/'') address \<or> has_bidi_control address then None
      else Some (''mailto:'' @ address))"

section \<open>Links in bare text\<close>

definition push_inline :: "inline list \<Rightarrow> inline \<Rightarrow> inline list" where
  "push_inline target i =
     (case (i, rev target) of
        (In_Text new, In_Text t # earlier) \<Rightarrow> rev earlier @ [In_Text (t @ new)]
      | _ \<Rightarrow> target @ [i])"

definition segment_inline :: "segment \<Rightarrow> inline" where
  "segment_inline s = (case s of Text_run t \<Rightarrow> In_Text t | Conversation_ref words i \<Rightarrow> In_ConversationRef i words)"

definition push_text :: "(string \<Rightarrow> bool) \<Rightarrow> inline list \<Rightarrow> string \<Rightarrow> inline list" where
  "push_text alnum out t = foldl (\<lambda>out s. push_inline out (segment_inline s)) out (find_refs alnum t)"

definition push_link :: "inline list \<Rightarrow> string \<Rightarrow> string \<Rightarrow> inline list" where
  "push_link out url words = out @ [In_Link url [In_Text words]]"

datatype link_kind = Url | Email

record finders =
  fi_alnum :: "string \<Rightarrow> bool"
  fi_links :: "string \<Rightarrow> (string \<times> link_kind option) list"
  fi_www :: "string \<Rightarrow> (string \<times> bool) list"

definition push_gap :: "finders \<Rightarrow> inline list \<Rightarrow> string \<times> bool \<Rightarrow> inline list" where
  "push_gap fd out = (\<lambda>(words, found).
     if found \<and> 4 \<le> length words \<and> eq_ignore_ascii_case (take 4 words) ''www.'' \<and> \<not> has_bidi_control words
     then push_link out (''https://'' @ words) words
     else push_text (fi_alnum fd) out words)"

definition push_span :: "finders \<Rightarrow> inline list \<Rightarrow> string \<times> link_kind option \<Rightarrow> inline list" where
  "push_span fd out = (\<lambda>(found, kind).
     case kind of
       None \<Rightarrow> foldl (push_gap fd) out (fi_www fd found)
     | Some Url \<Rightarrow>
         (if allowed_url found [''http'', ''https''] \<and> \<not> has_bidi_control found then push_link out found found
          else push_text (fi_alnum fd) out found)
     | Some Email \<Rightarrow>
         (case mailto found of Some url \<Rightarrow> push_link out url found | None \<Rightarrow> push_text (fi_alnum fd) out found))"

definition split_links :: "finders \<Rightarrow> string \<Rightarrow> inline list \<Rightarrow> inline list" where
  "split_links fd t out = foldl (push_span fd) out (fi_links fd t)"

fun autolink_inlines :: "finders \<Rightarrow> nat \<Rightarrow> inline list \<Rightarrow> inline list \<Rightarrow> inline list" where
  "autolink_inlines fd depth [] out = out"
| "autolink_inlines fd depth (In_Text t # rest) out =
     autolink_inlines fd depth rest (if depth < MAX_DEPTH then split_links fd t out else out @ [In_Text t])"
| "autolink_inlines fd depth (In_Emphasis c # rest) out =
     autolink_inlines fd depth rest (out @ [In_Emphasis (autolink_inlines fd (depth + 1) c [])])"
| "autolink_inlines fd depth (In_Strong c # rest) out =
     autolink_inlines fd depth rest (out @ [In_Strong (autolink_inlines fd (depth + 1) c [])])"
| "autolink_inlines fd depth (In_Strike c # rest) out =
     autolink_inlines fd depth rest (out @ [In_Strike (autolink_inlines fd (depth + 1) c [])])"
| "autolink_inlines fd depth (i # rest) out = autolink_inlines fd depth rest (out @ [i])"

abbreviation autolinked :: "finders \<Rightarrow> inline list \<Rightarrow> inline list" where
  "autolinked fd content \<equiv> autolink_inlines fd 0 content []"

fun autolink_block :: "finders \<Rightarrow> block \<Rightarrow> block"
  and autolink_item :: "finders \<Rightarrow> list_item \<Rightarrow> list_item" where
  "autolink_block fd (Bl_Paragraph c) = Bl_Paragraph (autolinked fd c)"
| "autolink_block fd (Bl_Plain c) = Bl_Plain (autolinked fd c)"
| "autolink_block fd (Bl_Heading level c) = Bl_Heading level (autolinked fd c)"
| "autolink_block fd (Bl_Quote inner) = Bl_Quote (map (autolink_block fd) inner)"
| "autolink_block fd (Bl_List start items) = Bl_List start (map (autolink_item fd) items)"
| "autolink_block fd (Bl_Table head rows) = Bl_Table (map (autolinked fd) head) (map (map (autolinked fd)) rows)"
| "autolink_block fd (Bl_Code lang t closed) = Bl_Code lang t closed"
| "autolink_block fd Bl_Rule = Bl_Rule"
| "autolink_block fd (Bl_Html t) = Bl_Html t"
| "autolink_item fd (List_item task blocks) = List_item task (map (autolink_block fd) blocks)"

section \<open>Code blocks\<close>

definition quote_or_blank :: "char \<Rightarrow> bool" where
  "quote_or_blank c \<longleftrightarrow> c = CHR ''>'' \<or> c = CHR '' '' \<or> c = CHR 0x09"

definition fence_closed :: "string \<Rightarrow> string \<Rightarrow> bool \<Rightarrow> bool" where
  "fence_closed raw t at_end =
     (if \<not> at_end then True
      else
        (let raw_lines = filter (\<lambda>l. str_trim (dropWhile quote_or_blank l) \<noteq> []) (str_lines raw)
         in if length raw_lines < 2 then False
            else
              (case List.find (\<lambda>l. str_trim l \<noteq> []) (map trim_end (rev (str_lines t))) of
                 None \<Rightarrow> True
               | Some last_text \<Rightarrow>
                   (case strip_suffix last_text (trim_end (last raw_lines)) of
                      None \<Rightarrow> True
                    | Some prefix \<Rightarrow> \<not> list_all quote_or_blank prefix))))"

end
