(* ===== verification/Markdown_Builder.thy ===== *)
theory Markdown_Builder
  imports Markdown
begin

text \<open>
  \<open>src/markdown.rs\<close>, the \<open>Builder\<close> that makes the tree from pulldown-cmark's events, and \<open>parse\<close>. It is run over any
  list of events with their source ranges, balanced or not: the events are pulldown-cmark's, a parameter. The stack is
  a list with its top first.
\<close>

section \<open>The builder\<close>

datatype container =
    Root "block list"
  | Quote "block list"
  | List_of "u64 option" "list_item list"
  | Item "bool option" "block list"
  | Plain "inline list"
  | Paragraph "inline list"
  | Heading nat "inline list"
  | Code "string option" string bool string bool
  | Html string
  | Table "inline list list" "inline list list list"
  | Head "inline list list"
  | Row "inline list list"
  | Cell "inline list"
  | Emphasis "inline list"
  | Strong "inline list"
  | Strike "inline list"
  | Link "string option" "inline list"
  | Image "string option" string
  | Transparent bool

record builder =
  bd_stack :: "container list"
  bd_depth :: nat
  bd_inline_depth :: nat

text \<open>Adding a block to the innermost container that holds blocks.\<close>

fun add_block :: "block \<Rightarrow> container list \<Rightarrow> container list" where
  "add_block b [] = []"
| "add_block b (Root blocks # cs) = Root (blocks @ [b]) # cs"
| "add_block b (Quote blocks # cs) = Quote (blocks @ [b]) # cs"
| "add_block b (Item task blocks # cs) = Item task (blocks @ [b]) # cs"
| "add_block b (c # cs) = c # add_block b cs"

definition close_plain :: "container list \<Rightarrow> container list" where
  "close_plain cs = (case cs of Plain content # rest \<Rightarrow> add_block (Bl_Plain content) rest | _ \<Rightarrow> cs)"

fun needs_plain :: "container list \<Rightarrow> bool" where
  "needs_plain [] = True"
| "needs_plain (Plain _ # cs) = False"
| "needs_plain (Paragraph _ # cs) = False"
| "needs_plain (Heading _ _ # cs) = False"
| "needs_plain (Cell _ # cs) = False"
| "needs_plain (Emphasis _ # cs) = False"
| "needs_plain (Strong _ # cs) = False"
| "needs_plain (Strike _ # cs) = False"
| "needs_plain (Link _ _ # cs) = False"
| "needs_plain (Transparent blk # cs) = (if blk then True else needs_plain cs)"
| "needs_plain (_ # cs) = True"

text \<open>Adding an inline to the innermost container that holds inlines.\<close>

fun add_inline :: "inline \<Rightarrow> container list \<Rightarrow> container list" where
  "add_inline i [] = []"
| "add_inline i (Plain v # cs) = Plain (push_inline v i) # cs"
| "add_inline i (Paragraph v # cs) = Paragraph (push_inline v i) # cs"
| "add_inline i (Heading level v # cs) = Heading level (push_inline v i) # cs"
| "add_inline i (Cell v # cs) = Cell (push_inline v i) # cs"
| "add_inline i (Emphasis v # cs) = Emphasis (push_inline v i) # cs"
| "add_inline i (Strong v # cs) = Strong (push_inline v i) # cs"
| "add_inline i (Strike v # cs) = Strike (push_inline v i) # cs"
| "add_inline i (Link url v # cs) = Link url (push_inline v i) # cs"
| "add_inline i (c # cs) = c # add_inline i cs"

definition inline_at :: "inline \<Rightarrow> container list \<Rightarrow> container list" where
  "inline_at i cs =
     (case cs of
        Image url alt # rest \<Rightarrow> Image url (alt @ plain_text i) # rest
      | _ \<Rightarrow> if needs_plain cs then Plain (push_inline [] i) # cs else add_inline i cs)"

definition text_at :: "string \<Rightarrow> container list \<Rightarrow> container list" where
  "text_at t cs =
     (case cs of
        Code lang code fenced raw at_end # rest \<Rightarrow> Code lang (code @ t) fenced raw at_end # rest
      | Html html # rest \<Rightarrow> Html (html @ t) # rest
      | Image url alt # rest \<Rightarrow> Image url (alt @ t) # rest
      | _ \<Rightarrow> inline_at (In_Text t) cs)"

fun set_task :: "bool \<Rightarrow> container list \<Rightarrow> container list" where
  "set_task checked [] = []"
| "set_task checked (Item task blocks # cs) = Item (Some checked) blocks # cs"
| "set_task checked (c # cs) = c # set_task checked cs"

section \<open>Events\<close>

datatype link_type = Email_link | Autolink | Other_link

datatype md_tag =
    T_Paragraph | T_Heading nat | T_BlockQuote | T_Fenced string | T_Indented | T_HtmlBlock | T_List "u64 option" | T_Item
  | T_Table | T_TableHead | T_TableRow | T_TableCell | T_Emphasis | T_Strong | T_Strikethrough | T_Link link_type string
  | T_Image string | T_FootnoteDefinition | T_DefinitionList | T_DefinitionListTitle | T_DefinitionListDefinition
  | T_MetadataBlock | T_Superscript | T_Subscript

datatype tag_end =
    E_Paragraph | E_Heading | E_BlockQuote | E_CodeBlock | E_HtmlBlock | E_List | E_Item | E_Table | E_TableHead
  | E_TableRow | E_TableCell | E_Emphasis | E_Strong | E_Strikethrough | E_Link | E_Image | E_FootnoteDefinition
  | E_DefinitionList | E_DefinitionListTitle | E_DefinitionListDefinition | E_MetadataBlock | E_Superscript | E_Subscript

datatype md_event =
    Ev_Start md_tag | Ev_End tag_end | Ev_Text string | Ev_Code string | Ev_Html string | Ev_InlineHtml string
  | Ev_InlineMath string | Ev_DisplayMath string | Ev_FootnoteReference string | Ev_SoftBreak | Ev_HardBreak | Ev_Rule
  | Ev_TaskListMarker bool

text \<open>A string's first word (\<open>split_whitespace().next()\<close>), and a link's destination when smelt may follow it.\<close>

fun until_space :: "string \<Rightarrow> string" where
  "until_space [] = []"
| "until_space (c # cs) = (if ws_len (c # cs) = 0 then c # until_space cs else [])"

definition first_word :: "string \<Rightarrow> string option" where
  "first_word s = (case trim_start s of [] \<Rightarrow> None | c # cs \<Rightarrow> Some (until_space (c # cs)))"

definition link_destination :: "link_type \<Rightarrow> string \<Rightarrow> string option" where
  "link_destination kind dest =
     (case kind of
        Email_link \<Rightarrow> mailto dest
      | Autolink \<Rightarrow>
          (if has_bidi_control dest then None
           else if 7 \<le> length dest \<and> eq_ignore_ascii_case (take 7 dest) ''mailto:'' then mailto (drop 7 dest)
           else Some dest)
      | Other_link \<Rightarrow> Some dest)"

definition filter_option :: "('a \<Rightarrow> bool) \<Rightarrow> 'a option \<Rightarrow> 'a option" where
  "filter_option P x = (case x of Some y \<Rightarrow> if P y then Some y else None | None \<Rightarrow> None)"

text \<open>The container a tag opens, once the depths count it; \<open>Tag::Link\<close> and the spans past \<open>MAX_DEPTH\<close> are flattened.\<close>

fun opened :: "md_tag \<Rightarrow> string \<Rightarrow> bool \<Rightarrow> builder \<Rightarrow> container" where
  "opened T_Paragraph raw at_end b = Paragraph []"
| "opened (T_Heading level) raw at_end b = Heading level []"
| "opened T_BlockQuote raw at_end b = (if MAX_DEPTH < bd_depth b then Transparent True else Quote [])"
| "opened (T_Fenced info) raw at_end b = Code (first_word info) [] True raw at_end"
| "opened T_Indented raw at_end b = Code None [] False [] at_end"
| "opened T_HtmlBlock raw at_end b = Html []"
| "opened (T_List start) raw at_end b = (if MAX_DEPTH < bd_depth b then Transparent True else List_of start [])"
| "opened T_Item raw at_end b = (case bd_stack b of List_of _ _ # _ \<Rightarrow> Item None [] | _ \<Rightarrow> Transparent True)"
| "opened T_Table raw at_end b = Table [] []"
| "opened T_TableHead raw at_end b = Head []"
| "opened T_TableRow raw at_end b = Row []"
| "opened T_TableCell raw at_end b = Cell []"
| "opened T_Emphasis raw at_end b = (if MAX_DEPTH < bd_inline_depth b then Transparent False else Emphasis [])"
| "opened T_Strong raw at_end b = (if MAX_DEPTH < bd_inline_depth b then Transparent False else Strong [])"
| "opened T_Strikethrough raw at_end b = (if MAX_DEPTH < bd_inline_depth b then Transparent False else Strike [])"
| "opened (T_Link kind dest) raw at_end b =
     (if MAX_DEPTH < bd_inline_depth b then Transparent False
      else Link (filter_option (\<lambda>url. allowed_url url [''http'', ''https'', ''mailto'']) (link_destination kind dest)) [])"
| "opened (T_Image dest) raw at_end b = Image (if allowed_url dest [''http'', ''https''] then Some dest else None) []"
| "opened T_Superscript raw at_end b = Transparent False"
| "opened T_Subscript raw at_end b = Transparent False"
| "opened T_FootnoteDefinition raw at_end b = Transparent True"
| "opened T_DefinitionList raw at_end b = Transparent True"
| "opened T_DefinitionListTitle raw at_end b = Transparent True"
| "opened T_DefinitionListDefinition raw at_end b = Transparent True"
| "opened T_MetadataBlock raw at_end b = Transparent True"

fun is_block :: "container \<Rightarrow> bool" where
  "is_block (Emphasis _) = False"
| "is_block (Strong _) = False"
| "is_block (Strike _) = False"
| "is_block (Link _ _) = False"
| "is_block (Image _ _) = False"
| "is_block (Transparent blk) = blk"
| "is_block (Cell _) = False"
| "is_block (Row _) = False"
| "is_block (Head _) = False"
| "is_block _ = True"

fun count_tag :: "md_tag \<Rightarrow> builder \<Rightarrow> builder" where
  "count_tag T_BlockQuote b = b\<lparr>bd_depth := bd_depth b + 1\<rparr>"
| "count_tag (T_List _) b = b\<lparr>bd_depth := bd_depth b + 1\<rparr>"
| "count_tag T_Emphasis b = b\<lparr>bd_inline_depth := bd_inline_depth b + 1\<rparr>"
| "count_tag T_Strong b = b\<lparr>bd_inline_depth := bd_inline_depth b + 1\<rparr>"
| "count_tag T_Strikethrough b = b\<lparr>bd_inline_depth := bd_inline_depth b + 1\<rparr>"
| "count_tag (T_Link _ _) b = b\<lparr>bd_inline_depth := bd_inline_depth b + 1\<rparr>"
| "count_tag _ b = b"

definition start_tag :: "md_tag \<Rightarrow> string \<Rightarrow> bool \<Rightarrow> builder \<Rightarrow> builder" where
  "start_tag tag raw at_end b =
     (let b = count_tag tag b;
          container = opened tag raw at_end b;
          cs = (if is_block container then close_plain (bd_stack b) else bd_stack b)
      in b\<lparr>bd_stack := container # cs\<rparr>)"

text \<open>Where a popped container goes.\<close>

definition blocks_at :: "block list \<Rightarrow> container list \<Rightarrow> container list" where
  "blocks_at bs cs = foldl (\<lambda>cs b. add_block b cs) cs bs"

definition inlines_at :: "inline list \<Rightarrow> container list \<Rightarrow> container list" where
  "inlines_at is cs = foldl (\<lambda>cs i. inline_at i cs) cs is"

fun place :: "container \<Rightarrow> container list \<Rightarrow> container list" where
  "place (Root blocks) cs = Root blocks # cs"
| "place (Quote blocks) cs = add_block (Bl_Quote blocks) cs"
| "place (List_of start items) cs = add_block (Bl_List start items) cs"
| "place (Item task blocks) cs =
     (case cs of
        List_of start items # rest \<Rightarrow> List_of start (items @ [List_item task blocks]) # rest
      | _ \<Rightarrow> blocks_at blocks cs)"
| "place (Plain content) cs = add_block (Bl_Plain content) cs"
| "place (Paragraph content) cs = add_block (Bl_Paragraph content) cs"
| "place (Heading level content) cs = add_block (Bl_Heading level content) cs"
| "place (Code lang t fenced raw at_end) cs = add_block (Bl_Code lang t (\<not> fenced \<or> fence_closed raw t at_end)) cs"
| "place (Html html) cs = add_block (Bl_Html html) cs"
| "place (Table head rows) cs = add_block (Bl_Table head rows) cs"
| "place (Head cells) cs = (case cs of Table _ rows # rest \<Rightarrow> Table cells rows # rest | _ \<Rightarrow> cs)"
| "place (Row cells) cs = (case cs of Table head rows # rest \<Rightarrow> Table head (rows @ [cells]) # rest | _ \<Rightarrow> cs)"
| "place (Cell content) cs =
     (case cs of
        Head cells # rest \<Rightarrow> Head (cells @ [content]) # rest
      | Row cells # rest \<Rightarrow> Row (cells @ [content]) # rest
      | _ \<Rightarrow> inlines_at content cs)"
| "place (Emphasis content) cs = inline_at (In_Emphasis content) cs"
| "place (Strong content) cs = inline_at (In_Strong content) cs"
| "place (Strike content) cs = inline_at (In_Strike content) cs"
| "place (Link (Some url) content) cs = inline_at (In_Link url content) cs"
| "place (Link None content) cs = inlines_at content cs"
| "place (Image (Some url) alt) cs = inline_at (In_Image url alt) cs"
| "place (Image None alt) cs = text_at alt cs"
| "place (Transparent _) cs = cs"

definition pop_placed :: "container list \<Rightarrow> container list" where
  "pop_placed cs = (case cs of c # d # rest \<Rightarrow> place c (d # rest) | _ \<Rightarrow> cs)"

definition end_tag :: "tag_end \<Rightarrow> builder \<Rightarrow> builder" where
  "end_tag tag b =
     \<lparr>bd_stack = pop_placed (if tag \<in> {E_Item, E_BlockQuote, E_List} then close_plain (bd_stack b) else bd_stack b),
      bd_depth = (if tag \<in> {E_BlockQuote, E_List} then bd_depth b - 1 else bd_depth b),
      bd_inline_depth =
        (if tag \<in> {E_Emphasis, E_Strong, E_Strikethrough, E_Link} then bd_inline_depth b - 1 else bd_inline_depth b)\<rparr>"

fun event :: "md_event \<Rightarrow> string \<Rightarrow> bool \<Rightarrow> builder \<Rightarrow> builder" where
  "event (Ev_Start tag) raw at_end b = start_tag tag raw at_end b"
| "event (Ev_End tag) raw at_end b = end_tag tag b"
| "event (Ev_Text t) raw at_end b = b\<lparr>bd_stack := text_at t (bd_stack b)\<rparr>"
| "event (Ev_Code t) raw at_end b = b\<lparr>bd_stack := inline_at (In_Code t) (bd_stack b)\<rparr>"
| "event (Ev_Html t) raw at_end b =
     b\<lparr>bd_stack := (case bd_stack b of Html html # rest \<Rightarrow> Html (html @ t) # rest | cs \<Rightarrow> text_at t cs)\<rparr>"
| "event (Ev_InlineHtml t) raw at_end b = b\<lparr>bd_stack := text_at t (bd_stack b)\<rparr>"
| "event (Ev_InlineMath t) raw at_end b = b\<lparr>bd_stack := text_at t (bd_stack b)\<rparr>"
| "event (Ev_DisplayMath t) raw at_end b = b\<lparr>bd_stack := text_at t (bd_stack b)\<rparr>"
| "event (Ev_FootnoteReference t) raw at_end b = b\<lparr>bd_stack := text_at t (bd_stack b)\<rparr>"
| "event Ev_SoftBreak raw at_end b = b\<lparr>bd_stack := inline_at In_SoftBreak (bd_stack b)\<rparr>"
| "event Ev_HardBreak raw at_end b = b\<lparr>bd_stack := inline_at In_HardBreak (bd_stack b)\<rparr>"
| "event Ev_Rule raw at_end b = b\<lparr>bd_stack := add_block Bl_Rule (close_plain (bd_stack b))\<rparr>"
| "event (Ev_TaskListMarker checked) raw at_end b = b\<lparr>bd_stack := set_task checked (bd_stack b)\<rparr>"

section \<open>The whole reply\<close>

text \<open>Closing what the events left open: \<open>finish\<close>'s loop pops the stack until one container is left.\<close>

definition finish_step :: "container list \<Rightarrow> container list" where
  "finish_step cs =
     (let cs = close_plain cs
      in if 1 < length cs then pop_placed cs else cs)"

partial_function (option) finish_stack :: "container list \<Rightarrow> container list option" where
  "finish_stack cs = (if 1 < length cs then finish_stack (finish_step cs) else Some cs)"

definition finish :: "builder \<Rightarrow> block list option" where
  "finish b = map_option (\<lambda>cs. case cs of Root blocks # _ \<Rightarrow> blocks | _ \<Rightarrow> []) (finish_stack (bd_stack b))"

text \<open>A byte range of the source as \<open>str::get\<close> reads it.\<close>

definition get_range :: "string \<Rightarrow> nat \<Rightarrow> nat \<Rightarrow> string option" where
  "get_range s a b = (if a \<le> b \<and> is_char_boundary s a \<and> is_char_boundary s b then Some (drop a (take b s)) else None)"

definition new_builder :: builder where
  "new_builder = \<lparr>bd_stack = [Root []], bd_depth = 0, bd_inline_depth = 0\<rparr>"

definition build :: "string \<Rightarrow> (md_event \<times> nat \<times> nat) list \<Rightarrow> builder \<Rightarrow> builder" where
  "build source evs b =
     foldl (\<lambda>b (ev, start, stop).
              event ev (case get_range source start stop of Some raw \<Rightarrow> raw | None \<Rightarrow> [])
                (length (trim_end source) \<le> stop) b) b evs"

definition parse_markdown :: "finders \<Rightarrow> (string \<Rightarrow> (md_event \<times> nat \<times> nat) list) \<Rightarrow> string \<Rightarrow> block list option" where
  "parse_markdown fd events source =
     map_option (map (autolink_block fd)) (finish (build source (events source) new_builder))"

end
