(* ===== verification/Markdown_Safety.thy ===== *)
theory Markdown_Safety
  imports Markdown_Builder
begin

text \<open>
  What \<open>parse\<close> promises of any reply and any events: it returns, every link and image left in the tree goes to a
  scheme smelt follows, the links \<open>autolink\<close> finds go where their words say, and the words stay the same.
\<close>

section \<open>The shape of the stack\<close>

text \<open>A container without what it has gathered. Adding blocks and inlines keeps the shape of the stack.\<close>

fun hollow :: "container \<Rightarrow> container" where
  "hollow (Root _) = Root []"
| "hollow (Quote _) = Quote []"
| "hollow (List_of _ _) = List_of None []"
| "hollow (Item _ _) = Item None []"
| "hollow (Plain _) = Plain []"
| "hollow (Paragraph _) = Paragraph []"
| "hollow (Heading _ _) = Heading 0 []"
| "hollow (Code _ _ _ _ _) = Code None [] False [] False"
| "hollow (Html _) = Html []"
| "hollow (Table _ _) = Table [] []"
| "hollow (Head _) = Head []"
| "hollow (Row _) = Row []"
| "hollow (Cell _) = Cell []"
| "hollow (Emphasis _) = Emphasis []"
| "hollow (Strong _) = Strong []"
| "hollow (Strike _) = Strike []"
| "hollow (Link _ _) = Link None []"
| "hollow (Image _ _) = Image None []"
| "hollow (Transparent blk) = Transparent blk"

abbreviation shape :: "container list \<Rightarrow> container list" where
  "shape \<equiv> map hollow"

lemma shape_add_block [simp]: "shape (add_block b cs) = shape cs"
  by (induction b cs rule: add_block.induct) auto

lemma shape_add_inline [simp]: "shape (add_inline i cs) = shape cs"
  by (induction i cs rule: add_inline.induct) auto

lemma shape_set_task [simp]: "shape (set_task checked cs) = shape cs"
  by (induction checked cs rule: set_task.induct) auto

lemma shape_blocks_at [simp]: "shape (blocks_at bs cs) = shape cs"
  unfolding blocks_at_def by (induction bs arbitrary: cs) auto

lemma needs_plain_shape: "needs_plain (shape cs) = needs_plain cs"
  by (induction cs rule: needs_plain.induct) auto

definition on_image :: "container list \<Rightarrow> bool" where
  "on_image cs \<longleftrightarrow> (case cs of Image _ _ # _ \<Rightarrow> True | _ \<Rightarrow> False)"

definition takes_inlines :: "container list \<Rightarrow> bool" where
  "takes_inlines cs \<longleftrightarrow> on_image cs \<or> \<not> needs_plain cs"

definition on_raw :: "container list \<Rightarrow> bool" where
  "on_raw cs \<longleftrightarrow> (case cs of Code _ _ _ _ _ # _ \<Rightarrow> True | Html _ # _ \<Rightarrow> True | _ \<Rightarrow> False)"

lemma on_image_shape: "on_image (shape cs) = on_image cs"
  by (auto simp: on_image_def split: list.splits container.splits elim!: hollow.elims)

lemma on_raw_shape: "on_raw (shape cs) = on_raw cs"
  by (auto simp: on_raw_def split: list.splits container.splits elim!: hollow.elims)

lemma takes_inlines_shape: "takes_inlines (shape cs) = takes_inlines cs"
  by (simp add: takes_inlines_def on_image_shape needs_plain_shape)

lemma takes_inlines_cong: "shape cs = shape ds \<Longrightarrow> takes_inlines cs = takes_inlines ds"
  by (metis takes_inlines_shape)

lemma shape_inline_at:
  "shape (inline_at i cs) = (if takes_inlines cs then shape cs else Plain [] # shape cs)"
  by (auto simp: inline_at_def takes_inlines_def on_image_def split: list.split container.split)

lemma takes_inline_at: "takes_inlines (inline_at i cs)"
proof (cases "takes_inlines cs")
  case True
  then show ?thesis using takes_inlines_cong [of "inline_at i cs" cs] by (simp add: shape_inline_at)
next
  case False
  have "takes_inlines (Plain [] # cs)" by (simp add: takes_inlines_def)
  then show ?thesis using False takes_inlines_cong [of "inline_at i cs" "Plain [] # cs"] by (simp add: shape_inline_at)
qed

lemma shape_inlines_at:
  "shape (inlines_at is cs) = (if is = [] \<or> takes_inlines cs then shape cs else Plain [] # shape cs)"
proof -
  have stay: "shape (foldl (\<lambda>cs i. inline_at i cs) cs is) = shape cs" if "takes_inlines cs" for "is" cs
    using that
  proof (induction "is" arbitrary: cs)
    case (Cons i "is")
    then show ?case using takes_inline_at [of i cs] by (simp add: shape_inline_at)
  qed simp
  show ?thesis
  proof (cases "is")
    case (Cons i rest)
    then show ?thesis using stay [OF takes_inline_at] by (simp add: inlines_at_def shape_inline_at)
  qed (simp add: inlines_at_def)
qed

lemma shape_text_at:
  "shape (text_at t cs) = (if on_raw cs \<or> takes_inlines cs then shape cs else Plain [] # shape cs)"
  by (auto simp: text_at_def on_raw_def takes_inlines_def on_image_def shape_inline_at split: list.split container.split)

section \<open>Closing what is open\<close>

definition is_root :: "container \<Rightarrow> bool" where
  "is_root c \<longleftrightarrow> hollow c = Root []"

text \<open>The root stays at the bottom and nowhere else.\<close>

definition rooted :: "container list \<Rightarrow> bool" where
  "rooted cs \<longleftrightarrow> cs \<noteq> [] \<and> is_root (last cs) \<and> list_all (\<lambda>c. \<not> is_root c) (butlast cs)"

lemma hollow_hollow [simp]: "hollow (hollow c) = hollow c"
  by (cases c) auto

lemma rooted_shape: "rooted (shape cs) = rooted cs"
proof (cases "cs = []")
  case False
  then have "is_root (last (shape cs)) = is_root (last cs)" by (simp add: is_root_def last_map)
  moreover have "list_all (\<lambda>c. \<not> is_root c) (butlast (shape cs)) = list_all (\<lambda>c. \<not> is_root c) (butlast cs)"
    by (simp add: is_root_def map_butlast [symmetric] list_all_iff)
  ultimately show ?thesis using False by (simp add: rooted_def)
qed (simp add: rooted_def)

lemma rooted_cong: "shape cs = shape ds \<Longrightarrow> rooted cs = rooted ds"
  by (metis rooted_shape)

lemma rooted_push: "rooted cs \<Longrightarrow> \<not> is_root c \<Longrightarrow> rooted (c # cs)"
  by (simp add: rooted_def)

lemma rooted_pop: "rooted (c # d # cs) \<Longrightarrow> rooted (d # cs) \<and> \<not> is_root c"
  by (simp add: rooted_def)

lemma rooted_single: "rooted [c] \<Longrightarrow> \<exists>blocks. c = Root blocks"
  by (cases c) (auto simp: rooted_def is_root_def)

lemma is_root_simps [simp]:
  "\<not> is_root (Plain v)" "is_root (hollow c) = is_root c"
  by (auto simp: is_root_def)

lemma rooted_weight_cases:
  assumes "shape ds = shape cs \<or> shape ds = Plain [] # shape cs" and "rooted cs"
  shows "rooted ds"
  using assms rooted_push [of "shape cs" "Plain []"] rooted_shape [of ds] rooted_shape [of cs] by auto

text \<open>An open container's part of what is left to close: a \<open>Plain\<close> closes at once, any other may leave a \<open>Plain\<close>.\<close>

definition weight :: "container list \<Rightarrow> nat" where
  "weight cs = sum_list (map (\<lambda>c. if c = Plain [] then 1 else 2) (shape cs))"

lemma weight_Cons: "weight (c # cs) = (if hollow c = Plain [] then 1 else 2) + weight cs"
  by (simp add: weight_def)

lemma place_shape:
  assumes "\<not> is_root c"
  shows "shape (place c cs) = shape cs \<or> hollow c \<noteq> Plain [] \<and> shape (place c cs) = Plain [] # shape cs"
  using assms
  by (cases "(c, cs)" rule: place.cases)
     (auto simp: is_root_def shape_inline_at shape_inlines_at shape_text_at split: list.split container.split)

lemma weight_shape: "shape cs = shape ds \<Longrightarrow> weight cs = weight ds"
  by (simp add: weight_def)

lemma pop_placed_ok:
  assumes "rooted cs"
  shows "rooted (pop_placed cs) \<and> (1 < length cs \<longrightarrow> weight (pop_placed cs) < weight cs)"
proof (cases cs rule: remdups_adj.cases)
  case (3 c d rest)
  then have c: "\<not> is_root c" "rooted (d # rest)" using rooted_pop assms by auto
  let ?placed = "place c (d # rest)"
  have "rooted ?placed \<and> weight ?placed < weight (c # d # rest)"
    using place_shape [OF c(1), of "d # rest"]
  proof (elim disjE conjE)
    assume same: "shape ?placed = shape (d # rest)"
    show ?thesis using weight_shape [OF same] rooted_cong [OF same] weight_Cons [of c "d # rest"] c(2) by simp
  next
    assume left: "hollow c \<noteq> Plain []" "shape ?placed = Plain [] # shape (d # rest)"
    then have same: "shape ?placed = shape (Plain [] # d # rest)" by simp
    have "rooted (Plain [] # d # rest)" using rooted_push [OF c(2), of "Plain []"] by simp
    then show ?thesis
      using left(1) weight_shape [OF same] rooted_cong [OF same] weight_Cons [of c "d # rest"]
        weight_Cons [of "Plain []" "d # rest"] by simp
  qed
  then show ?thesis using 3 by (simp add: pop_placed_def)
qed (use assms in \<open>auto simp: pop_placed_def\<close>)

lemma shape_close_plain:
  "shape (close_plain cs) = (case cs of Plain _ # rest \<Rightarrow> shape rest | _ \<Rightarrow> shape cs)"
  by (auto simp: close_plain_def split: list.split container.split)

lemma close_plain_ok:
  assumes "rooted cs"
  shows "rooted (close_plain cs) \<and> weight (close_plain cs) \<le> weight cs
    \<and> (length (close_plain cs) = length cs \<or> weight (close_plain cs) < weight cs)"
proof (cases "\<exists>v rest. cs = Plain v # rest")
  case True
  then obtain v rest where cs: "cs = Plain v # rest" by blast
  then have "rooted rest" using assms by (auto simp: rooted_def is_root_def split: if_splits)
  moreover have "shape (close_plain cs) = shape rest" by (simp add: cs shape_close_plain)
  ultimately show ?thesis
    using rooted_cong [of "close_plain cs" rest] weight_shape [of "close_plain cs" rest] by (simp add: cs weight_Cons)
next
  case False
  then have "close_plain cs = cs" by (auto simp: close_plain_def split: list.split container.split)
  then show ?thesis using assms by simp
qed

lemma finish_step_ok:
  assumes "rooted cs" "1 < length cs"
  shows "rooted (finish_step cs) \<and> weight (finish_step cs) < weight cs"
  using close_plain_ok [OF assms(1)] pop_placed_ok [of "close_plain cs"] assms(2)
  by (fastforce simp: finish_step_def Let_def)

lemma finish_stack_returns: "rooted cs \<Longrightarrow> \<exists>blocks. finish_stack cs = Some [Root blocks]"
proof (induction "weight cs" arbitrary: cs rule: less_induct)
  case less
  show ?case
  proof (cases "1 < length cs")
    case True
    then show ?thesis
      using less finish_step_ok [OF less.prems True] by (subst finish_stack.simps) auto
  next
    case False
    then obtain c where "cs = [c]" using less.prems by (cases cs rule: remdups_adj.cases) (auto simp: rooted_def)
    then show ?thesis using rooted_single less.prems by (subst finish_stack.simps) auto
  qed
qed

lemma rooted_text_at [simp]: "rooted cs \<Longrightarrow> rooted (text_at t cs)"
  by (rule rooted_weight_cases) (auto simp: shape_text_at)

lemma rooted_inline_at [simp]: "rooted cs \<Longrightarrow> rooted (inline_at i cs)"
  by (rule rooted_weight_cases) (auto simp: shape_inline_at)

lemma rooted_close_plain [simp]: "rooted cs \<Longrightarrow> rooted (close_plain cs)"
  by (simp add: close_plain_ok)

lemma rooted_pop_placed [simp]: "rooted cs \<Longrightarrow> rooted (pop_placed cs)"
  by (simp add: pop_placed_ok)

lemma opened_not_root [simp]: "\<not> is_root (opened tag raw at_end b)"
  by (cases tag) (auto simp: is_root_def split: list.split container.split)

lemma count_tag_stack [simp]: "bd_stack (count_tag tag b) = bd_stack b"
  by (cases tag) auto

lemma start_tag_stack:
  "bd_stack (start_tag tag raw at_end b) =
     opened tag raw at_end (count_tag tag b) #
       (if is_block (opened tag raw at_end (count_tag tag b)) then close_plain (bd_stack b) else bd_stack b)"
  by (simp add: start_tag_def Let_def)

lemma html_stack: "(case cs of Html html # rest \<Rightarrow> Html (html @ t) # rest | cs \<Rightarrow> text_at t cs) = text_at t cs"
  by (auto simp: text_at_def split: list.split container.split)

lemma rooted_event:
  assumes "rooted (bd_stack b)" shows "rooted (bd_stack (event ev raw at_end b))"
proof (cases ev)
  case (Ev_Start tag)
  then show ?thesis using assms by (auto simp: start_tag_stack intro: rooted_push)
next
  case Ev_Rule
  then show ?thesis using assms rooted_cong [of "add_block Bl_Rule (close_plain (bd_stack b))"] by simp
next
  case (Ev_TaskListMarker checked)
  then show ?thesis using assms rooted_cong [of "set_task checked (bd_stack b)"] by simp
qed (use assms in \<open>auto simp: end_tag_def html_stack\<close>)

lemma rooted_build: "rooted (bd_stack b) \<Longrightarrow> rooted (bd_stack (build source evs b))"
  by (induction evs arbitrary: b) (auto simp: build_def rooted_event split: prod.splits)

section \<open>Which destinations are left\<close>

fun followed :: "inline \<Rightarrow> bool" where
  "followed (In_Text _) = True"
| "followed (In_Code _) = True"
| "followed (In_Emphasis c) = list_all followed c"
| "followed (In_Strong c) = list_all followed c"
| "followed (In_Strike c) = list_all followed c"
| "followed (In_Link url c) = (allowed_url url [''http'', ''https'', ''mailto''] \<and> list_all followed c)"
| "followed (In_Image url _) = allowed_url url [''http'', ''https'']"
| "followed (In_ConversationRef _ _) = True"
| "followed In_SoftBreak = True"
| "followed In_HardBreak = True"

fun followed_block :: "block \<Rightarrow> bool" and followed_item :: "list_item \<Rightarrow> bool" where
  "followed_block (Bl_Paragraph c) = list_all followed c"
| "followed_block (Bl_Plain c) = list_all followed c"
| "followed_block (Bl_Heading _ c) = list_all followed c"
| "followed_block (Bl_Quote inner) = list_all followed_block inner"
| "followed_block (Bl_List _ items) = list_all followed_item items"
| "followed_block (Bl_Code _ _ _) = True"
| "followed_block (Bl_Table head rows) = (list_all (list_all followed) head \<and> list_all (list_all (list_all followed)) rows)"
| "followed_block Bl_Rule = True"
| "followed_block (Bl_Html _) = True"
| "followed_item (List_item _ blocks) = list_all followed_block blocks"

fun followed_in :: "container \<Rightarrow> bool" where
  "followed_in (Root blocks) = list_all followed_block blocks"
| "followed_in (Quote blocks) = list_all followed_block blocks"
| "followed_in (List_of _ items) = list_all followed_item items"
| "followed_in (Item _ blocks) = list_all followed_block blocks"
| "followed_in (Plain v) = list_all followed v"
| "followed_in (Paragraph v) = list_all followed v"
| "followed_in (Heading _ v) = list_all followed v"
| "followed_in (Table head rows) = (list_all (list_all followed) head \<and> list_all (list_all (list_all followed)) rows)"
| "followed_in (Head cells) = list_all (list_all followed) cells"
| "followed_in (Row cells) = list_all (list_all followed) cells"
| "followed_in (Cell v) = list_all followed v"
| "followed_in (Emphasis v) = list_all followed v"
| "followed_in (Strong v) = list_all followed v"
| "followed_in (Strike v) = list_all followed v"
| "followed_in (Link (Some url) v) = (allowed_url url [''http'', ''https'', ''mailto''] \<and> list_all followed v)"
| "followed_in (Link None v) = list_all followed v"
| "followed_in (Image (Some url) _) = allowed_url url [''http'', ''https'']"
| "followed_in _ = True"

abbreviation all_followed :: "container list \<Rightarrow> bool" where
  "all_followed \<equiv> list_all followed_in"

lemma push_inline_followed [simp]: "list_all followed (push_inline v i) = (list_all followed v \<and> followed i)"
proof (cases "\<exists>new t before. i = In_Text new \<and> rev v = In_Text t # before")
  case True
  then obtain new t before where i: "i = In_Text new" and v: "v = rev before @ [In_Text t]"
    by (metis rev_rev_ident rev.simps(2))
  show ?thesis by (simp add: i v push_inline_def)
next
  case False
  then have "push_inline v i = v @ [i]" by (auto simp: push_inline_def split: inline.split list.split)
  then show ?thesis by simp
qed

lemma add_block_followed: "followed_block b \<Longrightarrow> all_followed cs \<Longrightarrow> all_followed (add_block b cs)"
  by (induction b cs rule: add_block.induct) auto

lemma followed_in_optional [simp]:
  "followed_in (Link url v) = (pred_option (\<lambda>u. allowed_url u [''http'', ''https'', ''mailto'']) url \<and> list_all followed v)"
  "followed_in (Image url alt) = pred_option (\<lambda>u. allowed_url u [''http'', ''https'']) url"
  by (cases url; simp)+

lemma add_inline_followed: "followed i \<Longrightarrow> all_followed cs \<Longrightarrow> all_followed (add_inline i cs)"
  by (induction i cs rule: add_inline.induct) auto

lemma set_task_followed [simp]: "all_followed (set_task checked cs) = all_followed cs"
  by (induction checked cs rule: set_task.induct) auto

lemma inline_at_followed: "followed i \<Longrightarrow> all_followed cs \<Longrightarrow> all_followed (inline_at i cs)"
  by (auto simp: inline_at_def add_inline_followed split: list.split container.split)

lemma text_at_followed: "all_followed cs \<Longrightarrow> all_followed (text_at t cs)"
  by (auto simp: text_at_def inline_at_followed split: list.split container.split)

lemma blocks_at_followed: "list_all followed_block bs \<Longrightarrow> all_followed cs \<Longrightarrow> all_followed (blocks_at bs cs)"
  unfolding blocks_at_def by (induction bs arbitrary: cs) (auto simp: add_block_followed)

lemma inlines_at_followed: "list_all followed is \<Longrightarrow> all_followed cs \<Longrightarrow> all_followed (inlines_at is cs)"
  unfolding inlines_at_def by (induction "is" arbitrary: cs) (auto simp: inline_at_followed)

lemma close_plain_followed: "all_followed cs \<Longrightarrow> all_followed (close_plain cs)"
  by (auto simp: close_plain_def add_block_followed split: list.split container.split)

lemmas followed_steps = add_block_followed inline_at_followed text_at_followed blocks_at_followed inlines_at_followed
  close_plain_followed

lemma place_followed: "followed_in c \<Longrightarrow> all_followed cs \<Longrightarrow> all_followed (place c cs)"
  by (cases "(c, cs)" rule: place.cases)
     (auto simp: followed_steps split: list.split container.split)

lemma pop_placed_followed: "all_followed cs \<Longrightarrow> all_followed (pop_placed cs)"
  by (auto simp: pop_placed_def place_followed split: list.split)

lemma opened_followed: "followed_in (opened tag raw at_end b)"
  by (cases tag) (auto simp: filter_option_def split: list.split container.split option.split)

lemma event_followed: "all_followed (bd_stack b) \<Longrightarrow> all_followed (bd_stack (event ev raw at_end b))"
  by (cases ev)
     (auto simp: start_tag_stack end_tag_def html_stack opened_followed followed_steps pop_placed_followed)

lemma build_followed: "all_followed (bd_stack b) \<Longrightarrow> all_followed (bd_stack (build source evs b))"
  by (induction evs arbitrary: b) (auto simp: build_def event_followed split: prod.splits)

lemma finish_step_followed: "all_followed cs \<Longrightarrow> all_followed (finish_step cs)"
  by (simp add: finish_step_def Let_def close_plain_followed pop_placed_followed)

lemma finish_stack_followed:
  "rooted cs \<Longrightarrow> all_followed cs \<Longrightarrow> \<exists>blocks. finish_stack cs = Some [Root blocks] \<and> list_all followed_block blocks"
proof (induction "weight cs" arbitrary: cs rule: less_induct)
  case less
  show ?case
  proof (cases "1 < length cs")
    case True
    then show ?thesis
      using less.hyps [of "finish_step cs"] less.prems finish_step_ok [OF less.prems(1) True]
        finish_step_followed [OF less.prems(2)]
      by (subst finish_stack.simps) auto
  next
    case False
    then obtain c where "cs = [c]" using less.prems by (cases cs rule: remdups_adj.cases) (auto simp: rooted_def)
    then show ?thesis using rooted_single [of c] less.prems by (subst finish_stack.simps) auto
  qed
qed

section \<open>What autolink adds\<close>

definition found_link :: "inline \<Rightarrow> bool" where
  "found_link i \<longleftrightarrow>
     (\<exists>url words. i = In_Link url [In_Text words] \<and> \<not> has_bidi_control words \<and>
        (url = words \<and> allowed_url words [''http'', ''https''] \<or> url = ''https://'' @ words \<or> url = ''mailto:'' @ words))"

text \<open>What \<open>split_links\<close> puts in the place of a text: texts, references, and links that go where their words say.\<close>

fun split_piece :: "inline \<Rightarrow> bool" where
  "split_piece (In_Text _) = True"
| "split_piece (In_ConversationRef _ _) = True"
| "split_piece i = found_link i"

lemma allowed_url_http: "allowed_url (''https://'' @ words) [''http'', ''https'']"
  using split_once_char [of "CHR '':''" "''https''" "''//'' @ words"] by (simp add: allowed_url_def)

lemma allowed_url_mailto: "allowed_url (''mailto:'' @ words) [''http'', ''https'', ''mailto'']"
  using split_once_char [of "CHR '':''" "''mailto''" words] by (simp add: allowed_url_def)

lemma allowed_url_more: "allowed_url url [''http'', ''https''] \<Longrightarrow> allowed_url url [''http'', ''https'', ''mailto'']"
  by (auto simp: allowed_url_def split: option.splits)

lemma found_link_followed: "found_link i \<Longrightarrow> followed i"
  using allowed_url_http allowed_url_mailto allowed_url_more by (auto simp: found_link_def)

lemma split_piece_followed: "split_piece i \<Longrightarrow> followed i"
  by (cases i) (auto dest: found_link_followed)

abbreviation words_of :: "inline list \<Rightarrow> string" where
  "words_of v \<equiv> concat (map plain_text v)"

text \<open>A piece pushed is split text, and its words are the text's.\<close>

definition adds_text :: "inline list \<Rightarrow> inline list \<Rightarrow> string \<Rightarrow> bool" where
  "adds_text before after t \<longleftrightarrow>
     words_of after = words_of before @ t \<and> (\<forall>i\<in>set after. split_piece i \<or> i \<in> set before)"

lemma adds_text_trans: "adds_text a b s \<Longrightarrow> adds_text b c t \<Longrightarrow> adds_text a c (s @ t)"
  by (auto simp: adds_text_def)

lemma adds_text_fold:
  assumes "\<And>out x. adds_text out (f out x) (w x)"
  shows "adds_text out (foldl f out xs) (concat (map w xs))"
proof (induction xs arbitrary: out)
  case (Cons x xs)
  from adds_text_trans [OF assms Cons.IH] show ?case by simp
qed (simp add: adds_text_def)

lemma push_inline_text:
  assumes "split_piece i" shows "adds_text v (push_inline v i) (plain_text i)"
proof (cases "\<exists>new t before. i = In_Text new \<and> rev v = In_Text t # before")
  case True
  then obtain new t before where i: "i = In_Text new" and v: "v = rev before @ [In_Text t]"
    by (metis rev_rev_ident rev.simps(2))
  show ?thesis by (auto simp: i v push_inline_def adds_text_def)
next
  case False
  then have "push_inline v i = v @ [i]" by (auto simp: push_inline_def split: inline.split list.split)
  then show ?thesis using assms by (auto simp: adds_text_def)
qed

lemma push_text_text: "adds_text out (push_text alnum out t) t"
proof -
  have "adds_text out (push_inline out (segment_inline s)) (segment_words s)" for out s
    using push_inline_text [of "segment_inline s" out] by (cases s) (auto simp: segment_inline_def)
  from adds_text_fold [where f = "\<lambda>out s. push_inline out (segment_inline s)", OF this, of out "find_refs alnum t"]
  show ?thesis unfolding push_text_def find_refs_words .
qed

lemma push_link_text: "found_link (In_Link url [In_Text words]) \<Longrightarrow> adds_text out (push_link out url words) words"
  by (auto simp: push_link_def adds_text_def)

lemma push_gap_text: "adds_text out (push_gap fd out gap) (fst gap)"
  by (cases gap)
     (auto simp: push_gap_def found_link_def intro!: push_text_text push_link_text)

definition span_words :: "finders \<Rightarrow> string \<times> link_kind option \<Rightarrow> string" where
  "span_words fd = (\<lambda>(found, kind). if kind = None then concat (map fst (fi_www fd found)) else found)"

lemma mailto_parts: "mailto address = Some url \<Longrightarrow> url = ''mailto:'' @ address \<and> \<not> has_bidi_control address"
  by (auto simp: mailto_def split: if_splits)

lemma push_span_text: "adds_text out (push_span fd out span) (span_words fd span)"
proof (cases span)
  case (Pair found kind)
  show ?thesis
  proof (cases kind)
    case None
    then show ?thesis
      using adds_text_fold [where f = "push_gap fd" and w = fst, OF push_gap_text] by (simp add: Pair push_span_def span_words_def)
  next
    case (Some k)
    then show ?thesis
      by (cases k)
         (auto simp: Pair push_span_def span_words_def found_link_def dest: mailto_parts
           intro!: push_text_text push_link_text split: option.split)
  qed
qed

lemma split_links_text: "adds_text out (split_links fd t out) (concat (map (span_words fd) (fi_links fd t)))"
  unfolding split_links_def by (rule adds_text_fold) (rule push_span_text)

lemma split_links_followed: "list_all followed out \<Longrightarrow> list_all followed (split_links fd t out)"
  using split_links_text [of out fd t] split_piece_followed by (auto simp: adds_text_def list_all_iff)

lemma autolink_inlines_followed:
  "list_all followed v \<Longrightarrow> list_all followed out \<Longrightarrow> list_all followed (autolink_inlines fd depth v out)"
  by (induction fd depth v out rule: autolink_inlines.induct) (auto simp: split_links_followed)

lemma autolinked_followed: "\<forall>i\<in>set v. followed i \<Longrightarrow> i \<in> set (autolinked fd v) \<Longrightarrow> followed i"
  using autolink_inlines_followed [of v "[]" fd 0] by (simp add: list_all_iff)

lemma autolink_block_followed:
  "followed_block b \<Longrightarrow> followed_block (autolink_block fd b)"
  "followed_item it \<Longrightarrow> followed_item (autolink_item fd it)"
  by (induction fd b and fd it rule: autolink_block_autolink_item.induct)
     (auto simp: list_all_iff elim: autolinked_followed [rotated])

text \<open>The finders give every text back in pieces, as linkify's \<open>spans\<close> do.\<close>

definition finds_all :: "finders \<Rightarrow> bool" where
  "finds_all fd \<longleftrightarrow> (\<forall>t. concat (map fst (fi_links fd t)) = t) \<and> (\<forall>t. concat (map fst (fi_www fd t)) = t)"

lemma split_links_words: "finds_all fd \<Longrightarrow> words_of (split_links fd t out) = words_of out @ t"
proof -
  assume fd: "finds_all fd"
  then have "span_words fd = fst" by (auto simp: fun_eq_iff span_words_def finds_all_def)
  then show ?thesis using split_links_text [of out fd t] fd by (simp add: adds_text_def finds_all_def)
qed

lemma autolink_inlines_words:
  "finds_all fd \<Longrightarrow> words_of (autolink_inlines fd depth v out) = words_of out @ words_of v"
  by (induction fd depth v out rule: autolink_inlines.induct) (auto simp: split_links_words)

fun block_words :: "block \<Rightarrow> string list" and item_words :: "list_item \<Rightarrow> string list" where
  "block_words (Bl_Paragraph c) = [words_of c]"
| "block_words (Bl_Plain c) = [words_of c]"
| "block_words (Bl_Heading _ c) = [words_of c]"
| "block_words (Bl_Quote inner) = concat (map block_words inner)"
| "block_words (Bl_List _ items) = concat (map item_words items)"
| "block_words (Bl_Code _ t _) = [t]"
| "block_words (Bl_Table head rows) = map words_of (head @ concat rows)"
| "block_words Bl_Rule = []"
| "block_words (Bl_Html t) = [t]"
| "item_words (List_item _ blocks) = concat (map block_words blocks)"

lemma autolink_block_words:
  "finds_all fd \<Longrightarrow> block_words (autolink_block fd b) = block_words b"
  "finds_all fd \<Longrightarrow> item_words (autolink_item fd it) = item_words it"
  by (induction fd b and fd it rule: autolink_block_autolink_item.induct)
     (auto simp: autolink_inlines_words map_concat comp_def cong: map_cong)

text \<open>
  Whatever events the parser gives for a reply, well nested or not, and whatever spans linkify finds,
  \<open>parse\<close> returns, and every link left in the tree goes to an http, https or mailto destination and every image
  to an http or https one.
\<close>

theorem destinations_are_followed:
  "\<exists>blocks. parse_markdown fd events source = Some blocks \<and> list_all followed_block blocks"
proof -
  let ?b = "build source (events source) new_builder"
  have "rooted (bd_stack ?b)" by (rule rooted_build) (simp add: new_builder_def rooted_def is_root_def)
  moreover have "all_followed (bd_stack ?b)" by (rule build_followed) (simp add: new_builder_def)
  ultimately obtain blocks where "finish_stack (bd_stack ?b) = Some [Root blocks]" "list_all followed_block blocks"
    using finish_stack_followed by blast
  then show ?thesis
    by (auto simp: parse_markdown_def finish_def list_all_iff intro: autolink_block_followed)
qed

text \<open>
  \<open>autolink\<close> says what it does: where linkify gives back every text in pieces, a tree's words are the same
  with its links as without, and what a text is split into is text, conversation references and links whose words
  hold no bidi control and whose destination is those words, alone or after \<open>https://\<close> or \<open>mailto:\<close>.
\<close>

theorem autolink_keeps_the_words:
  assumes "finds_all fd"
  shows "concat (map block_words (map (autolink_block fd) blocks)) = concat (map block_words blocks)
    \<and> list_all split_piece (split_links fd t [])"
  using autolink_block_words(1) [OF assms] split_links_text [of "[]" fd t]
  by (simp add: comp_def adds_text_def list_all_iff)

definition sample_finders :: finders where
  "sample_finders =
     \<lparr>fi_alnum = (\<lambda>c. list_all (\<lambda>b. is_ascii_digit b) c),
      fi_links = (\<lambda>t. [(takeWhile (\<lambda>c. c \<noteq> CHR '' '') t, Some Url), (dropWhile (\<lambda>c. c \<noteq> CHR '' '') t, None)]),
      fi_www = (\<lambda>t. [(t, False)])\<rparr>"

theorem autolink_keeps_the_words_witness:
  "concat (map block_words (map (autolink_block sample_finders) [Bl_Paragraph [In_Text ''http://a.b of agent #12'']]))
     = [''http://a.b of agent #12'']
   \<and> split_links sample_finders ''http://a.b of agent #12'' []
     = [In_Link ''http://a.b'' [In_Text ''http://a.b''], In_Text '' of '', In_ConversationRef 12 ''agent #12'']
   \<and> list_all split_piece (split_links sample_finders ''http://a.b of agent #12'' [])"
proof -
  have fd: "finds_all sample_finders"
    by (simp add: finds_all_def sample_finders_def)
  have "split_links sample_finders ''http://a.b of agent #12'' []
     = [In_Link ''http://a.b'' [In_Text ''http://a.b''], In_Text '' of '', In_ConversationRef 12 ''agent #12'']"
    by code_simp
  then show ?thesis
    using autolink_keeps_the_words [OF fd, of "[Bl_Paragraph [In_Text ''http://a.b of agent #12'']]"
        "''http://a.b of agent #12''"] by simp
qed

end
