(* ===== verification/Markdown_Nesting.thy ===== *)
theory Markdown_Nesting
  imports Markdown_Safety
begin

text \<open>
  How deep \<open>Builder\<close> lets quotes and lists nest (\<open>src/markdown.rs\<close>, \<open>MAX_DEPTH\<close>): never past \<open>MAX_DEPTH\<close> for the events
  of a well-nested document whose images open no formatting past \<open>MAX_DEPTH\<close>, and without bound when one does.
\<close>

section \<open>The nesting of a tree\<close>

fun nesting :: "block \<Rightarrow> nat" and item_nesting :: "list_item \<Rightarrow> nat" where
  "nesting (Bl_Quote inner) = Suc (foldr max (map nesting inner) 0)"
| "nesting (Bl_List _ items) = Suc (foldr max (map item_nesting items) 0)"
| "nesting _ = 0"
| "item_nesting (List_item _ blocks) = foldr max (map nesting blocks) 0"

lemma foldr_max_le: "foldr max ns (0::nat) \<le> n \<longleftrightarrow> list_all (\<lambda>m. m \<le> n) ns"
  by (induction ns) auto

lemma nesting_of_links [simp]:
  "nesting (autolink_block fd b) = nesting b"
  "item_nesting (autolink_item fd it) = item_nesting it"
  by (induction fd b and fd it rule: autolink_block_autolink_item.induct) (auto simp: comp_def cong: map_cong)

definition nests :: "container \<Rightarrow> bool" where
  "nests c \<longleftrightarrow> hollow c = Quote [] \<or> hollow c = List_of None []"

definition level :: "container list \<Rightarrow> nat" where
  "level cs = length (filter nests cs)"

lemma nests_hollow [simp]: "nests (hollow c) = nests c"
  by (simp add: nests_def)

lemma level_simps [simp]: "level [] = 0" "level (c # cs) = (if nests c then Suc (level cs) else level cs)"
  by (simp_all add: level_def)

lemma level_shape: "level (shape cs) = level cs"
  by (induction cs) auto

lemma level_cong: "shape cs = shape ds \<Longrightarrow> level cs = level ds"
  by (metis level_shape)

lemma nests_simps [simp]:
  "nests (Quote b)" "nests (List_of s items)" "\<not> nests (Root b)" "\<not> nests (Item t b)" "\<not> nests (Plain v)"
  "\<not> nests (Transparent k)" "\<not> nests (Image u a)" "\<not> nests (Head h)" "\<not> nests (Row h)" "\<not> nests (Table h r)"
  "\<not> nests (Code l c f raw e)" "\<not> nests (Html c)" "\<not> nests (Paragraph v)" "\<not> nests (Heading n v)" "\<not> nests (Cell v)"
  "\<not> nests (Emphasis v)" "\<not> nests (Strong v)" "\<not> nests (Strike v)" "\<not> nests (Link u' v)"
  by (auto simp: nests_def)

text \<open>A container's blocks leave the room its quotes and lists take.\<close>

fun room_for :: "nat \<Rightarrow> container \<Rightarrow> bool" where
  "room_for n (Root blocks) = list_all (\<lambda>b. nesting b \<le> n) blocks"
| "room_for n (Quote blocks) = list_all (\<lambda>b. nesting b \<le> n) blocks"
| "room_for n (Item _ blocks) = list_all (\<lambda>b. nesting b \<le> n) blocks"
| "room_for n (List_of _ items) = list_all (\<lambda>it. item_nesting it \<le> n) items"
| "room_for n _ = True"

fun stack_fits :: "container list \<Rightarrow> bool" where
  "stack_fits [] = True"
| "stack_fits (c # cs) = (room_for (MAX_DEPTH - level (c # cs)) c \<and> stack_fits cs)"

lemma level_add [simp]:
  "level (add_block b cs) = level cs" "level (add_inline i cs) = level cs" "level (set_task k cs) = level cs"
  by (rule level_cong, simp)+

lemma add_block_fits: "stack_fits cs \<Longrightarrow> nesting b \<le> MAX_DEPTH - level cs \<Longrightarrow> stack_fits (add_block b cs)"
  by (induction b cs rule: add_block.induct) (auto split: if_splits)

lemma blocks_at_fits:
  "stack_fits cs \<Longrightarrow> list_all (\<lambda>b. nesting b \<le> MAX_DEPTH - level cs) bs \<Longrightarrow> stack_fits (blocks_at bs cs)"
  unfolding blocks_at_def by (induction bs arbitrary: cs) (auto simp: add_block_fits)

lemma add_inline_fits [simp]: "stack_fits (add_inline i cs) = stack_fits cs"
  by (induction i cs rule: add_inline.induct) auto

lemma set_task_fits [simp]: "stack_fits (set_task k cs) = stack_fits cs"
  by (induction k cs rule: set_task.induct) auto

lemma inline_at_fits: "stack_fits cs \<Longrightarrow> stack_fits (inline_at i cs)"
  by (auto simp: inline_at_def split: list.split container.split)

lemma text_at_fits: "stack_fits cs \<Longrightarrow> stack_fits (text_at t cs)"
  by (auto simp: text_at_def inline_at_fits split: list.split container.split)

lemma inlines_at_fits: "stack_fits cs \<Longrightarrow> stack_fits (inlines_at is cs)"
  unfolding inlines_at_def by (induction "is" arbitrary: cs) (auto simp: inline_at_fits)

lemma level_inline_at: "level (inline_at i cs) = level cs"
  using shape_inline_at [of i cs] level_cong [of "inline_at i cs" cs] level_cong [of "inline_at i cs" "Plain [] # cs"]
  by (auto split: if_splits)

lemma close_plain_fits: "stack_fits cs \<Longrightarrow> stack_fits (close_plain cs)"
  by (auto simp: close_plain_def add_block_fits split: list.split container.split)

lemma level_close_plain [simp]: "level (close_plain cs) = level cs"
  by (auto simp: close_plain_def split: list.split container.split)

lemma foldr_max_room:
  "Suc k \<le> m \<Longrightarrow> \<forall>n\<in>set ns. Suc (n + k) \<le> m \<Longrightarrow> Suc (foldr max ns 0 + k) \<le> m"
  using foldr_max_le [of ns "m - Suc k"] by (fastforce simp: list_all_iff)

lemma place_fits:
  assumes "stack_fits (c # cs)" "level (c # cs) \<le> MAX_DEPTH" shows "stack_fits (place c cs)"
  using assms
  by (cases "(c, cs)" rule: place.cases)
     (auto simp: blocks_at_fits inline_at_fits inlines_at_fits text_at_fits foldr_max_le list_all_iff
       le_diff_conv2 split: list.split container.split intro!: add_block_fits foldr_max_room)

lemma place_level: "\<not> is_root c \<Longrightarrow> level (place c cs) = level cs"
  using place_shape [of c cs] level_cong [of "place c cs" cs] level_cong [of "place c cs" "Plain [] # cs"] by auto

lemma pop_placed_fits:
  "stack_fits cs \<Longrightarrow> level cs \<le> MAX_DEPTH \<Longrightarrow> stack_fits (pop_placed cs)"
  by (auto simp: pop_placed_def place_fits simp del: level_simps split: list.split)

lemma pop_placed_level: "rooted cs \<Longrightarrow> level (pop_placed cs) \<le> level cs"
  using rooted_pop by (fastforce simp: pop_placed_def place_level split: list.split)

section \<open>Well-nested events\<close>

text \<open>
  A document as the parser's events describe it: a tag and what is inside it, or another event. The events of a document
  are its tags' starts and ends around those of what is inside.
\<close>

datatype md_doc = Leaf md_event | Node md_tag "md_doc list"

fun end_of :: "md_tag \<Rightarrow> tag_end" where
  "end_of T_Paragraph = E_Paragraph"
| "end_of (T_Heading _) = E_Heading"
| "end_of T_BlockQuote = E_BlockQuote"
| "end_of (T_Fenced _) = E_CodeBlock"
| "end_of T_Indented = E_CodeBlock"
| "end_of T_HtmlBlock = E_HtmlBlock"
| "end_of (T_List _) = E_List"
| "end_of T_Item = E_Item"
| "end_of T_Table = E_Table"
| "end_of T_TableHead = E_TableHead"
| "end_of T_TableRow = E_TableRow"
| "end_of T_TableCell = E_TableCell"
| "end_of T_Emphasis = E_Emphasis"
| "end_of T_Strong = E_Strong"
| "end_of T_Strikethrough = E_Strikethrough"
| "end_of (T_Link _ _) = E_Link"
| "end_of (T_Image _) = E_Image"
| "end_of T_FootnoteDefinition = E_FootnoteDefinition"
| "end_of T_DefinitionList = E_DefinitionList"
| "end_of T_DefinitionListTitle = E_DefinitionListTitle"
| "end_of T_DefinitionListDefinition = E_DefinitionListDefinition"
| "end_of T_MetadataBlock = E_MetadataBlock"
| "end_of T_Superscript = E_Superscript"
| "end_of T_Subscript = E_Subscript"

fun events_of :: "md_doc \<Rightarrow> md_event list" where
  "events_of (Leaf ev) = [ev]"
| "events_of (Node tag docs) = Ev_Start tag # concat (map events_of docs) @ [Ev_End (end_of tag)]"

fun inline_event :: "md_event \<Rightarrow> bool" where
  "inline_event (Ev_Text _) = True"
| "inline_event (Ev_Code _) = True"
| "inline_event (Ev_InlineHtml _) = True"
| "inline_event (Ev_InlineMath _) = True"
| "inline_event (Ev_DisplayMath _) = True"
| "inline_event (Ev_FootnoteReference _) = True"
| "inline_event Ev_SoftBreak = True"
| "inline_event Ev_HardBreak = True"
| "inline_event _ = False"

definition is_span :: "md_tag \<Rightarrow> bool" where
  "is_span tag \<longleftrightarrow> (case tag of T_Emphasis \<Rightarrow> True | T_Strong \<Rightarrow> True | T_Strikethrough \<Rightarrow> True | T_Link _ _ \<Rightarrow> True | _ \<Rightarrow> False)"

definition is_image :: "md_tag \<Rightarrow> bool" where
  "is_image tag \<longleftrightarrow> (case tag of T_Image _ \<Rightarrow> True | _ \<Rightarrow> False)"

text \<open>Inline content inside a number of spans, in an image or not: an image holds no span that would be flattened.\<close>

fun inline_doc :: "nat \<Rightarrow> bool \<Rightarrow> md_doc \<Rightarrow> bool" where
  "inline_doc spans alt (Leaf ev) = inline_event ev"
| "inline_doc spans alt (Node tag docs) =
     (if is_span tag then (alt \<longrightarrow> spans < MAX_DEPTH) \<and> list_all (inline_doc (Suc spans) alt) docs
      else is_image tag \<and> list_all (inline_doc spans True) docs)"

fun raw_leaf :: "md_doc \<Rightarrow> bool" where
  "raw_leaf (Leaf (Ev_Text _)) = True"
| "raw_leaf (Leaf (Ev_Html _)) = True"
| "raw_leaf _ = False"

text \<open>Blocks, and what is inside a list (items of blocks, inline content and task markers) and a table (rows of cells).\<close>

fun cell_doc :: "md_doc \<Rightarrow> bool" where
  "cell_doc (Leaf ev) = False"
| "cell_doc (Node tag docs) = (tag = T_TableCell \<and> list_all (inline_doc 0 False) docs)"

fun row_doc :: "md_doc \<Rightarrow> bool" where
  "row_doc (Leaf ev) = False"
| "row_doc (Node tag docs) = ((tag = T_TableHead \<or> tag = T_TableRow) \<and> list_all cell_doc docs)"

definition task_marker :: "md_doc \<Rightarrow> bool" where
  "task_marker d \<longleftrightarrow> d = Leaf (Ev_TaskListMarker True) \<or> d = Leaf (Ev_TaskListMarker False)"

fun block_doc :: "md_doc \<Rightarrow> bool" and item_doc :: "md_doc \<Rightarrow> bool" where
  "block_doc (Leaf ev) = (ev = Ev_Rule)"
| "block_doc (Node tag docs) =
     (case tag of
        T_Paragraph \<Rightarrow> list_all (inline_doc 0 False) docs
      | T_Heading _ \<Rightarrow> list_all (inline_doc 0 False) docs
      | T_BlockQuote \<Rightarrow> list_all block_doc docs
      | T_Fenced _ \<Rightarrow> list_all raw_leaf docs
      | T_Indented \<Rightarrow> list_all raw_leaf docs
      | T_HtmlBlock \<Rightarrow> list_all raw_leaf docs
      | T_List _ \<Rightarrow> list_all item_doc docs
      | T_Table \<Rightarrow> list_all row_doc docs
      | _ \<Rightarrow> False)"
| "item_doc (Leaf ev) = False"
| "item_doc (Node tag docs) =
     (tag = T_Item \<and> list_all (\<lambda>e. block_doc e \<or> inline_doc 0 False e \<or> task_marker e) docs)"

text \<open>Running events from one builder to another, over ranges of some source.\<close>

definition runs :: "builder \<Rightarrow> md_event list \<Rightarrow> builder \<Rightarrow> bool" where
  "runs b evs b' \<longleftrightarrow> (\<exists>source ranged. map fst ranged = evs \<and> b' = build source ranged b)"

lemma runs_Nil [simp]: "runs b [] b' \<longleftrightarrow> b' = b"
  by (auto simp: runs_def build_def)

lemma runs_Cons: "runs b (ev # evs) b' \<Longrightarrow> \<exists>raw at_end. runs (event ev raw at_end b) evs b'"
  by (auto simp: runs_def build_def map_eq_Cons_conv) blast

lemma runs_append: "runs b (xs @ ys) b' \<Longrightarrow> \<exists>c. runs b xs c \<and> runs c ys b'"
proof -
  assume "runs b (xs @ ys) b'"
  then obtain source as bs where "map fst as = xs" "map fst bs = ys" "b' = build source (as @ bs) b"
    by (auto simp: runs_def map_eq_append_conv)
  then show ?thesis by (intro exI [of _ "build source as b"]) (auto simp: runs_def build_def)
qed

lemma runs_single: "runs b [ev] b' \<Longrightarrow> \<exists>raw at_end. b' = event ev raw at_end b"
  using runs_Cons by fastforce

lemma runs_Node:
  assumes "runs b (events_of (Node tag docs)) b'"
  shows "\<exists>raw at_end c. runs (start_tag tag raw at_end b) (concat (map events_of docs)) c \<and> b' = end_tag (end_of tag) c"
  using runs_Cons [OF assms [unfolded events_of.simps]] runs_append runs_single by fastforce

lemma runs_keep:
  assumes "P b" and "runs b (concat (map events_of docs)) c"
    and "\<And>d b c. d \<in> set docs \<Longrightarrow> P b \<Longrightarrow> runs b (events_of d) c \<Longrightarrow> P c"
  shows "P c"
  using assms
proof (induction docs arbitrary: b)
  case (Cons d docs)
  then obtain m where m: "runs b (events_of d) m" "runs m (concat (map events_of docs)) c"
    using runs_append [of b "events_of d" "concat (map events_of docs)" c] by auto
  show ?case
  proof (rule Cons.IH [OF _ m(2)])
    show "P m" using Cons.prems(3) [of d b m] Cons.prems(1) m(1) by simp
  qed (use Cons.prems(3) in auto)
qed (simp add: runs_def build_def)

section \<open>The stack over a base\<close>

text \<open>
  While a document runs, the stack is a fixed base, or the base under a \<open>Plain\<close> where the base takes no inline itself. The base's
  quotes and lists are counted.
\<close>

definition over :: "container list \<Rightarrow> nat \<Rightarrow> nat \<Rightarrow> builder \<Rightarrow> bool" where
  "over base depth spans b \<longleftrightarrow>
     rooted base \<and> level base \<le> MAX_DEPTH \<and> level base \<le> depth \<and> shape base = base
     \<and> stack_fits (bd_stack b) \<and> bd_depth b = depth \<and> bd_inline_depth b = spans
     \<and> (shape (bd_stack b) = base \<or> \<not> takes_inlines base \<and> shape (bd_stack b) = Plain [] # base)"

lemma over_level: "over base depth spans b \<Longrightarrow> level (bd_stack b) = level base"
  using level_shape [of "bd_stack b"] by (auto simp: over_def)

lemma over_rooted:
  assumes "over base depth spans b" shows "rooted (bd_stack b)"
  using assms rooted_weight_cases [of "bd_stack b" base] by (auto simp: over_def)

lemma over_step:
  assumes b: "over base depth spans b" and fits: "stack_fits cs"
    and cs: "shape cs = shape (bd_stack b) \<or> \<not> takes_inlines (bd_stack b) \<and> shape cs = Plain [] # shape (bd_stack b)"
  shows "over base depth spans (b\<lparr>bd_stack := cs\<rparr>)"
proof -
  have "takes_inlines (bd_stack b)" if "shape (bd_stack b) = Plain [] # base"
    using takes_inlines_shape [of "bd_stack b"] that by (simp add: takes_inlines_def)
  moreover have "takes_inlines (bd_stack b) = takes_inlines base" if "shape (bd_stack b) = base"
    using takes_inlines_shape [of "bd_stack b"] that by simp
  ultimately show ?thesis using b fits cs by (auto simp: over_def)
qed

lemma over_inline: "over base depth spans b \<Longrightarrow> over base depth spans (b\<lparr>bd_stack := inline_at i (bd_stack b)\<rparr>)"
  by (rule over_step) (auto simp: inline_at_fits shape_inline_at over_def)

lemma over_text: "over base depth spans b \<Longrightarrow> over base depth spans (b\<lparr>bd_stack := text_at t (bd_stack b)\<rparr>)"
  by (rule over_step) (auto simp: text_at_fits shape_text_at over_def)

lemma over_leaf:
  "inline_event ev \<Longrightarrow> over base depth spans b \<Longrightarrow> over base depth spans (event ev raw at_end b)"
  by (cases ev) (auto simp: over_inline over_text)

lemma place_pushes:
  assumes "\<not> is_root c"
  shows "shape (place c cs) = shape cs
    \<or> \<not> is_block c \<and> \<not> takes_inlines cs \<and> shape (place c cs) = Plain [] # shape cs"
  using assms
  by (cases "(c, cs)" rule: place.cases)
     (auto simp: is_root_def shape_inline_at shape_inlines_at shape_text_at split: list.split container.split)

text \<open>Pushing a container makes a new base; ending it, once what is inside has run, leaves the old one.\<close>

lemma over_push:
  assumes "over base depth spans b" and "\<not> is_root c" and "room_for 0 c"
    and "nests c \<Longrightarrow> level base < MAX_DEPTH \<and> level base < depth'" and "depth \<le> depth'"
  shows "over (hollow c # shape (bd_stack b)) depth' spans' \<lparr>bd_stack = c # bd_stack b, bd_depth = depth', bd_inline_depth = spans'\<rparr>"
proof -
  have "rooted (shape (bd_stack b))" using over_rooted [OF assms(1)] by (simp add: rooted_shape)
  then have "rooted (hollow c # shape (bd_stack b))" using assms(2) by (intro rooted_push) auto
  moreover have room: "room_for n c" for n using assms(3) by (cases c) (auto simp: list_all_iff)
  have base: "level base \<le> MAX_DEPTH" "level base \<le> depth" "level (bd_stack b) = level base"
    using assms(1) over_level [OF assms(1)] by (simp_all add: over_def)
  have "level (hollow c # shape (bd_stack b)) \<le> MAX_DEPTH"
    "level (hollow c # shape (bd_stack b)) \<le> depth'"
    using base assms(4,5) by (auto simp: level_shape)
  moreover have "stack_fits (bd_stack b)" using assms(1) by (simp add: over_def)
  ultimately show ?thesis by (simp add: over_def comp_def room)
qed

lemma over_pop:
  assumes inside: "over (hollow c # shape cs) depth' spans' b'" and open_ones: "over base depth spans b" "bd_stack b = cs"
    and stack: "stack = bd_stack b' \<or> stack = close_plain (bd_stack b')" "shape stack = hollow c # shape cs"
    and c: "\<not> is_root c"
  shows "over base depth spans \<lparr>bd_stack = pop_placed stack, bd_depth = depth, bd_inline_depth = spans\<rparr>"
proof -
  obtain x xs where s: "stack = x # xs" "hollow x = hollow c" "shape xs = shape cs" using stack(2) by auto
  have "cs \<noteq> []" using over_rooted [OF open_ones(1)] open_ones(2) by (auto simp: rooted_def)
  then have pop: "pop_placed stack = place x xs" using s by (cases xs) (auto simp: pop_placed_def)
  have x: "\<not> is_root x" using c s(2) by (simp add: is_root_def)
  have "stack_fits stack" using stack(1) inside close_plain_fits by (auto simp: over_def)
  moreover have "level stack \<le> MAX_DEPTH" using inside level_shape [of stack] stack(2) by (simp add: over_def)
  ultimately have "stack_fits (pop_placed stack)" by (rule pop_placed_fits)
  moreover have "takes_inlines xs = takes_inlines cs" using takes_inlines_cong s(3) by blast
  ultimately show ?thesis
    using over_step [OF open_ones(1), of "pop_placed stack"] place_pushes [OF x, of xs] pop s(3) open_ones
    by (auto simp: over_def)
qed


lemma close_plain_over:
  assumes "over base depth spans b" "\<not> takes_inlines base"
  shows "shape (close_plain (bd_stack b)) = base"
    and "over base depth spans (b\<lparr>bd_stack := close_plain (bd_stack b)\<rparr>)"
proof -
  have "\<not> (\<exists>rest. base = Plain [] # rest)" using assms(2) by (auto simp: takes_inlines_def)
  then show s: "shape (close_plain (bd_stack b)) = base"
    using assms(1) shape_close_plain [of "bd_stack b"] shape_close_plain [of base]
    by (auto simp: over_def close_plain_def split: list.splits container.splits)
  then show "over base depth spans (b\<lparr>bd_stack := close_plain (bd_stack b)\<rparr>)"
    using assms(1) close_plain_fits [of "bd_stack b"] by (simp add: over_def)
qed

section \<open>Documents run over their base\<close>

lemma span_opened:
  assumes "is_span tag"
  shows "start_tag tag raw at_end b =
      \<lparr>bd_stack = opened tag raw at_end (count_tag tag b) # bd_stack b, bd_depth = bd_depth b,
       bd_inline_depth = Suc (bd_inline_depth b)\<rparr>"
    and "end_tag (end_of tag) c =
      \<lparr>bd_stack = pop_placed (bd_stack c), bd_depth = bd_depth c, bd_inline_depth = bd_inline_depth c - 1\<rparr>"
    and "room_for 0 (opened tag raw at_end (count_tag tag b))" "\<not> nests (opened tag raw at_end (count_tag tag b))"
    and "bd_inline_depth b < MAX_DEPTH \<or> \<not> needs_plain cs \<Longrightarrow>
      \<not> needs_plain (hollow (opened tag raw at_end (count_tag tag b)) # cs)"
  using assms by (cases tag; auto simp: is_span_def start_tag_def end_tag_def)+

lemma image_opened:
  assumes "is_image tag"
  shows "start_tag tag raw at_end b =
      \<lparr>bd_stack = opened tag raw at_end (count_tag tag b) # bd_stack b, bd_depth = bd_depth b,
       bd_inline_depth = bd_inline_depth b\<rparr>"
    and "end_tag (end_of tag) c =
      \<lparr>bd_stack = pop_placed (bd_stack c), bd_depth = bd_depth c, bd_inline_depth = bd_inline_depth c\<rparr>"
    and "room_for 0 (opened tag raw at_end (count_tag tag b))" "\<not> nests (opened tag raw at_end (count_tag tag b))"
    and "takes_inlines (hollow (opened tag raw at_end (count_tag tag b)) # cs)"
  using assms by (cases tag; auto simp: is_image_def start_tag_def end_tag_def takes_inlines_def on_image_def)+

definition inline_base :: "container list \<Rightarrow> nat \<Rightarrow> bool \<Rightarrow> bool" where
  "inline_base base spans alt \<longleftrightarrow> (if alt then takes_inlines base else 0 < spans \<longrightarrow> \<not> needs_plain base)"

lemma over_base: "over base depth spans b \<Longrightarrow> takes_inlines base \<Longrightarrow> shape (bd_stack b) = base"
  by (simp add: over_def)

lemma over_counts: "over base depth spans b \<Longrightarrow> bd_depth b = depth \<and> bd_inline_depth b = spans"
  by (simp add: over_def)

lemma takes_if: "\<not> needs_plain cs \<Longrightarrow> takes_inlines cs"
  by (simp add: takes_inlines_def)

lemma inline_runs:
  "over base depth spans b \<Longrightarrow> inline_base base spans alt \<Longrightarrow> inline_doc spans alt d \<Longrightarrow> runs b (events_of d) b' \<Longrightarrow>
   over base depth spans b'"
proof (induction d arbitrary: base spans alt b b')
  case (Leaf ev)
  then show ?case using runs_single over_leaf by fastforce
next
  case (Node tag docs)
  obtain raw at_end c where
    run: "runs (start_tag tag raw at_end b) (concat (map events_of docs)) c" and b': "b' = end_tag (end_of tag) c"
    using runs_Node [OF Node.prems(4)] by blast
  let ?k = "opened tag raw at_end (count_tag tag b)"
  let ?base = "hollow ?k # shape (bd_stack b)"
  have counts: "bd_depth b = depth" "bd_inline_depth b = spans" using over_counts [OF Node.prems(1)] by auto
  show ?case
  proof (cases "is_span tag")
    case True
    note span = span_opened [OF True]
    have docs: "alt \<longrightarrow> spans < MAX_DEPTH" "list_all (inline_doc (Suc spans) alt) docs" using Node.prems(3) True by auto
    have started: "over ?base depth (Suc spans) (start_tag tag raw at_end b)"
      using over_push [OF Node.prems(1), of ?k depth "Suc spans"] span counts by simp
    have plain: "\<not> needs_plain ?base"
    proof (cases "spans < MAX_DEPTH")
      case False
      then have "\<not> alt" "\<not> needs_plain base" using docs(1) Node.prems(2) by (auto simp: inline_base_def MAX_DEPTH_def)
      then show ?thesis using over_base [OF Node.prems(1) takes_if] by (intro span(5)) simp
    qed (use span(5) counts in simp)
    have ended: "over ?base depth (Suc spans) c"
      using started run
    proof (rule runs_keep)
      fix d m n
      assume "d \<in> set docs" "over ?base depth (Suc spans) m" "runs m (events_of d) n"
      then show "over ?base depth (Suc spans) n"
        using Node.IH [of d ?base "Suc spans" m alt n] docs(2) plain takes_if [OF plain]
        by (auto simp: inline_base_def list_all_iff)
    qed
    show ?thesis
      using over_pop [OF ended Node.prems(1) refl, of "bd_stack c"] over_base [OF ended takes_if [OF plain]]
        over_counts [OF ended]
      by (simp add: b' span(2))
  next
    case False
    then have image: "is_image tag" "list_all (inline_doc spans True) docs" using Node.prems(3) by auto
    note img = image_opened [OF image(1)]
    have started: "over ?base depth spans (start_tag tag raw at_end b)"
      using over_push [OF Node.prems(1), of ?k depth spans] img counts by simp
    have ended: "over ?base depth spans c"
      using started run
    proof (rule runs_keep)
      fix d m n
      assume "d \<in> set docs" "over ?base depth spans m" "runs m (events_of d) n"
      then show "over ?base depth spans n"
        using Node.IH [of d ?base spans m True n] image(2) img(5) by (auto simp: inline_base_def list_all_iff)
    qed
    show ?thesis
      using over_pop [OF ended Node.prems(1) refl, of "bd_stack c"] over_base [OF ended img(5)] over_counts [OF ended]
      by (simp add: b' img(2))
  qed
qed

text \<open>A container that takes its place without a \<open>Plain\<close>, so that the stack is exactly what it was before.\<close>

definition exactly :: "container list \<Rightarrow> nat \<Rightarrow> builder \<Rightarrow> bool" where
  "exactly base depth b \<longleftrightarrow> over base depth 0 b \<and> shape (bd_stack b) = base"

definition leaves_none :: "container \<Rightarrow> container list \<Rightarrow> bool" where
  "leaves_none c base \<longleftrightarrow>
     is_block c \<or> c \<in> {Head [], Row []} \<or> c = Cell [] \<and> (\<exists>rest. base = Head [] # rest \<or> base = Row [] # rest)"

lemma is_block_hollow [simp]: "is_block (hollow c) = is_block c"
  by (cases c) auto

lemma place_exactly:
  assumes "\<not> is_root c" "leaves_none (hollow c) (shape cs)"
  shows "shape (place c cs) = shape cs"
  using assms place_pushes [OF assms(1), of cs]
  by (cases "(c, cs)" rule: place.cases)
     (auto simp: leaves_none_def split: list.split container.split elim!: hollow.elims)

lemma exactly_push:
  assumes "exactly base depth b" and "\<not> is_root c" and "room_for 0 c"
    and "nests c \<Longrightarrow> level base < MAX_DEPTH \<and> level base < depth'" and "depth \<le> depth'"
  shows "exactly (hollow c # base) depth' \<lparr>bd_stack = c # bd_stack b, bd_depth = depth', bd_inline_depth = 0\<rparr>"
  using over_push [of base depth 0 b c depth' 0] assms by (simp add: exactly_def)

lemma exactly_pop:
  assumes inside: "over (hollow c # base) depth' 0 b'" and open_ones: "exactly base depth b"
    and stack: "stack = bd_stack b' \<or> stack = close_plain (bd_stack b')" "shape stack = hollow c # base"
    and c: "\<not> is_root c" "leaves_none (hollow c) base"
  shows "exactly base depth \<lparr>bd_stack = pop_placed stack, bd_depth = depth, bd_inline_depth = 0\<rparr>"
proof -
  have base: "shape (bd_stack b) = base" "over base depth 0 b" using open_ones by (auto simp: exactly_def)
  obtain x xs where s: "stack = x # xs" "hollow x = hollow c" "shape xs = base" using stack(2) by auto
  have "base \<noteq> []" using base(2) by (auto simp: over_def rooted_def)
  then have pop: "pop_placed stack = place x xs" using s by (cases xs) (auto simp: pop_placed_def)
  have "\<not> is_root x" using c(1) s(2) by (simp add: is_root_def)
  then have "shape (place x xs) = base" using place_exactly [of x xs] s c(2) by simp
  moreover have "over base depth 0 \<lparr>bd_stack = pop_placed stack, bd_depth = depth, bd_inline_depth = 0\<rparr>"
    using over_pop [of c "bd_stack b" depth' 0 b' base depth 0 b stack] assms base by simp
  ultimately show ?thesis by (simp add: exactly_def pop)
qed

lemma exactly_closed:
  assumes "over base depth 0 b" "\<not> takes_inlines base"
  shows "exactly base depth (b\<lparr>bd_stack := close_plain (bd_stack b)\<rparr>)"
  using close_plain_over [OF assms] by (simp add: exactly_def)

text \<open>The tags that open blocks: what they count, and the container each opens.\<close>

definition counted :: "md_tag \<Rightarrow> bool" where
  "counted tag \<longleftrightarrow> (case tag of T_BlockQuote \<Rightarrow> True | T_List _ \<Rightarrow> True | _ \<Rightarrow> False)"

definition block_tag :: "md_tag \<Rightarrow> bool" where
  "block_tag tag \<longleftrightarrow>
     (case tag of
        T_Paragraph \<Rightarrow> True | T_Heading _ \<Rightarrow> True | T_BlockQuote \<Rightarrow> True | T_Fenced _ \<Rightarrow> True | T_Indented \<Rightarrow> True
      | T_HtmlBlock \<Rightarrow> True | T_List _ \<Rightarrow> True | T_Item \<Rightarrow> True | T_Table \<Rightarrow> True | _ \<Rightarrow> False)"

lemma opened_item: "opened T_Item raw at_end b = Item None [] \<or> opened T_Item raw at_end b = Transparent True"
  by (auto split: list.split container.split)

lemma opened_block:
  assumes "block_tag tag"
  shows "room_for 0 (opened tag raw at_end b) \<and> is_block (opened tag raw at_end b)
    \<and> (nests (opened tag raw at_end b) \<longrightarrow> counted tag \<and> bd_depth b \<le> MAX_DEPTH)"
proof (cases "tag = T_Item")
  case True
  then show ?thesis using opened_item [of raw at_end b] by auto
next
  case False
  then show ?thesis using assms by (cases tag) (simp_all add: block_tag_def counted_def)
qed

lemma count_block:
  "block_tag tag \<Longrightarrow> count_tag tag b = (if counted tag then b\<lparr>bd_depth := Suc (bd_depth b)\<rparr> else b)"
  by (cases tag) (simp_all add: block_tag_def counted_def)

lemma block_opened:
  assumes "block_tag tag" "bd_depth b = depth" "bd_inline_depth b = 0" "level base \<le> depth"
  shows "start_tag tag raw at_end b =
      \<lparr>bd_stack = opened tag raw at_end (count_tag tag b) # close_plain (bd_stack b),
       bd_depth = (if counted tag then Suc depth else depth), bd_inline_depth = 0\<rparr>"
    and "room_for 0 (opened tag raw at_end (count_tag tag b))" "is_block (opened tag raw at_end (count_tag tag b))"
    and "nests (opened tag raw at_end (count_tag tag b)) \<Longrightarrow> counted tag \<and> level base < MAX_DEPTH"
proof -
  note opened = opened_block [OF assms(1), of raw at_end "count_tag tag b"]
  show "start_tag tag raw at_end b =
      \<lparr>bd_stack = opened tag raw at_end (count_tag tag b) # close_plain (bd_stack b),
       bd_depth = (if counted tag then Suc depth else depth), bd_inline_depth = 0\<rparr>"
    using opened assms(2,3) by (simp add: start_tag_def Let_def count_block [OF assms(1)])
  show "room_for 0 (opened tag raw at_end (count_tag tag b))" "is_block (opened tag raw at_end (count_tag tag b))"
    using opened by auto
  assume "nests (opened tag raw at_end (count_tag tag b))"
  then have c: "counted tag" "bd_depth (count_tag tag b) \<le> MAX_DEPTH" using opened by blast+
  have "bd_depth (count_tag tag b) = Suc depth" using c(1) assms(2) by (simp add: count_block [OF assms(1)])
  then show "counted tag \<and> level base < MAX_DEPTH" using c assms(4) by linarith
qed

lemma block_ended:
  assumes "block_tag tag" "bd_inline_depth c = 0" "bd_depth c = (if counted tag then Suc depth else depth)"
  shows "end_tag (end_of tag) c =
      \<lparr>bd_stack = pop_placed (if tag = T_Item \<or> counted tag then close_plain (bd_stack c) else bd_stack c),
       bd_depth = depth, bd_inline_depth = 0\<rparr>"
  using assms by (cases tag) (simp_all add: block_tag_def counted_def end_tag_def)

abbreviation opens :: "md_tag \<Rightarrow> builder \<Rightarrow> string \<Rightarrow> bool \<Rightarrow> container" where
  "opens tag b raw at_end \<equiv> opened tag raw at_end (count_tag tag b)"

lemma block_node:
  fixes b :: builder and tag depth
  defines "inner \<equiv> if counted tag then Suc depth else depth"
  assumes b: "over base depth 0 b" "\<not> takes_inlines base" and tag: "block_tag tag"
    and run: "runs b (events_of (Node tag docs)) b'"
    and inside: "\<And>raw at_end m c. exactly (hollow (opens tag b raw at_end) # base) inner m \<Longrightarrow>
      runs m (concat (map events_of docs)) c \<Longrightarrow>
      if tag = T_Item \<or> counted tag
      then over (hollow (opens tag b raw at_end) # base) inner 0 c \<and> \<not> takes_inlines (hollow (opens tag b raw at_end) # base)
      else exactly (hollow (opens tag b raw at_end) # base) inner c"
  shows "exactly base depth b'"
proof -
  obtain raw at_end c where
    run: "runs (start_tag tag raw at_end b) (concat (map events_of docs)) c" and b': "b' = end_tag (end_of tag) c"
    using runs_Node [OF run] by blast
  let ?b = "b\<lparr>bd_stack := close_plain (bd_stack b)\<rparr>" and ?k = "opens tag b raw at_end"
  have base: "level base \<le> depth" using b(1) by (simp add: over_def)
  have counts: "bd_depth b = depth" "bd_inline_depth b = 0" using over_counts [OF b(1)] by auto
  note k = block_opened [OF tag counts base, of raw at_end, folded inner_def]
  have closed: "exactly base depth ?b" by (rule exactly_closed [OF b])
  have root: "\<not> is_root ?k" by simp
  have "exactly (hollow ?k # base) inner (start_tag tag raw at_end b)"
    using exactly_push [OF closed root k(2), of inner] k(1,4) base by (auto simp: inner_def)
  from inside [OF this run] have c: "over (hollow ?k # base) inner 0 c"
    "shape (if tag = T_Item \<or> counted tag then close_plain (bd_stack c) else bd_stack c) = hollow ?k # base"
    using close_plain_over [of "hollow ?k # base" inner 0 c] by (auto simp: exactly_def split: if_splits)
  have "exactly base depth \<lparr>bd_stack = pop_placed (if tag = T_Item \<or> counted tag then close_plain (bd_stack c) else bd_stack c),
       bd_depth = depth, bd_inline_depth = 0\<rparr>"
    by (rule exactly_pop [OF c(1) closed _ c(2) root]) (use k(3) in \<open>auto simp: leaves_none_def\<close>)
  then show ?thesis
    using block_ended [OF tag, of c depth] over_counts [OF c(1)] by (simp add: b' inner_def)
qed

lemma raw_runs:
  assumes "exactly base depth b" "on_raw base" "raw_leaf d" "runs b (events_of d) b'"
  shows "exactly base depth b'"
proof -
  obtain ev t where d: "d = Leaf ev" "ev = Ev_Text t \<or> ev = Ev_Html t" using assms(3) by (cases d rule: raw_leaf.cases) auto
  obtain raw at_end where "b' = event ev raw at_end b" using assms(4) d(1) runs_single by fastforce
  then have b': "b' = b\<lparr>bd_stack := text_at t (bd_stack b)\<rparr>" using d(2) by (auto simp: html_stack)
  have "on_raw (bd_stack b)" using assms(1,2) on_raw_shape [of "bd_stack b"] by (simp add: exactly_def)
  then have "shape (text_at t (bd_stack b)) = base" using assms(1) by (simp add: shape_text_at exactly_def)
  then show ?thesis using over_text [of base depth 0 b t] assms(1) by (simp add: exactly_def b')
qed

lemma inlines_run:
  assumes "exactly base depth b" "\<not> needs_plain base" "list_all (inline_doc 0 False) docs"
    and "runs b (concat (map events_of docs)) c"
  shows "exactly base depth c"
proof -
  have "over base depth 0 b" using assms(1) by (simp add: exactly_def)
  then have "over base depth 0 c"
    using assms(4)
  proof (rule runs_keep)
    fix d m n
    assume "d \<in> set docs" "over base depth 0 m" "runs m (events_of d) n"
    then show "over base depth 0 n"
      using inline_runs [of base depth 0 m False d n] assms(3) by (simp add: inline_base_def list_all_iff)
  qed
  then show ?thesis using over_base [OF _ takes_if [OF assms(2)]] by (simp add: exactly_def)
qed

text \<open>A row of a table, or a cell of a row: a tag that counts nothing and closes no \<open>Plain\<close>.\<close>

lemma cell_node:
  assumes b: "exactly base depth b" and run: "runs b (events_of (Node tag docs)) b'"
    and tag: "tag \<in> {T_TableHead, T_TableRow, T_TableCell}" "leaves_none (opened tag [] False b) base"
    and inside: "\<And>m c. exactly (opened tag [] False b # base) depth m \<Longrightarrow> runs m (concat (map events_of docs)) c \<Longrightarrow>
      exactly (opened tag [] False b # base) depth c"
  shows "exactly base depth b'"
proof -
  obtain raw at_end c where
    run: "runs (start_tag tag raw at_end b) (concat (map events_of docs)) c" and b': "b' = end_tag (end_of tag) c"
    using runs_Node [OF run] by blast
  let ?k = "opened tag [] False b"
  have counts: "bd_depth b = depth" "bd_inline_depth b = 0" using b over_counts by (auto simp: exactly_def)
  have k: "start_tag tag raw at_end b = \<lparr>bd_stack = ?k # bd_stack b, bd_depth = depth, bd_inline_depth = 0\<rparr>"
    "room_for 0 ?k" "\<not> nests ?k" "hollow ?k = ?k"
    using tag(1) counts by (auto simp: start_tag_def)
  have "exactly (?k # base) depth (start_tag tag raw at_end b)"
    using exactly_push [OF b _ k(2), of depth] k by simp
  from inside [OF this run] have c: "over (hollow ?k # base) depth 0 c" "shape (bd_stack c) = hollow ?k # base"
    using k(4) by (auto simp: exactly_def)
  have "exactly base depth \<lparr>bd_stack = pop_placed (bd_stack c), bd_depth = depth, bd_inline_depth = 0\<rparr>"
    by (rule exactly_pop [OF c(1) b _ c(2)]) (use k(4) tag(2) in simp_all)
  then show ?thesis using tag(1) over_counts [OF c(1)] by (auto simp: b' end_tag_def)
qed

lemma row_runs:
  assumes "exactly (Table [] [] # base) depth b" "runs b (events_of d) b'"
    and d: "d = Node row cells" "row = T_TableHead \<or> row = T_TableRow"
      "list_all cell_doc cells"
  shows "exactly (Table [] [] # base) depth b'"
  using assms(1,2) [unfolded d(1)]
proof (rule cell_node)
  let ?row = "opened row [] False b"
  show "row \<in> {T_TableHead, T_TableRow, T_TableCell}" "leaves_none ?row (Table [] [] # base)"
    using d(2) by (auto simp: leaves_none_def)
  fix m c
  assume m: "exactly (?row # Table [] [] # base) depth m" "runs m (concat (map events_of cells)) c"
  then show "exactly (?row # Table [] [] # base) depth c"
  proof (rule runs_keep)
    fix e m n
    assume e: "e \<in> set cells" "exactly (?row # Table [] [] # base) depth m" "runs m (events_of e) n"
    then have "cell_doc e" using d(3) by (simp add: list_all_iff)
    then obtain es where es: "e = Node T_TableCell es" "list_all (inline_doc 0 False) es" by (cases e) auto
    from e(2,3) [unfolded es(1)] show "exactly (?row # Table [] [] # base) depth n"
    proof (rule cell_node)
      show "T_TableCell \<in> {T_TableHead, T_TableRow, T_TableCell}"
        "leaves_none (opened T_TableCell [] False m) (?row # Table [] [] # base)"
        using d(2) by (auto simp: leaves_none_def)
    qed (use es(2) in \<open>auto intro: inlines_run\<close>)
  qed
qed

lemma block_runs:
  assumes "over base depth 0 b" "\<not> takes_inlines base" "block_doc d \<or> item_doc d" "runs b (events_of d) b'"
  shows "over base depth 0 b'"
  using assms
proof (induction d arbitrary: base depth b b')
  case (Leaf ev)
  then obtain raw at_end where ev: "ev = Ev_Rule" "b' = event ev raw at_end b"
    using runs_single by fastforce
  have "over base depth 0 (b\<lparr>bd_stack := close_plain (bd_stack b)\<rparr>)" using close_plain_over Leaf.prems by blast
  from over_step [OF this, of "add_block Bl_Rule (close_plain (bd_stack b))"] show ?case
    using Leaf.prems(1) by (simp add: ev add_block_fits close_plain_fits over_def)
next
  case (Node tag docs)
  note node = block_node [OF Node.prems(1,2) _ Node.prems(4)]
  have blocks: "over inner depth' 0 n"
    if d: "over inner depth' 0 m" "\<not> takes_inlines inner" "runs m (events_of d) n" "d \<in> set docs"
      "block_doc d \<or> item_doc d \<or> inline_doc 0 False d \<or> task_marker d"
    for inner depth' m n d
  proof (cases "block_doc d \<or> item_doc d")
    case True
    then show ?thesis using Node.IH [OF d(4,1,2) _ d(3)] by blast
  next
    case False
    then consider "inline_doc 0 False d" | k where "d = Leaf (Ev_TaskListMarker k)"
      using d(5) by (auto simp: task_marker_def)
    then show ?thesis
    proof cases
      case 1
      then show ?thesis using inline_runs [OF d(1), of False d n] d(3) by (simp add: inline_base_def)
    next
      case 2
      then obtain raw at_end where n: "n = event (Ev_TaskListMarker k) raw at_end m" using runs_single d(3) by fastforce
      show ?thesis using over_step [OF d(1), of "set_task k (bd_stack m)"] d(1) by (simp add: n over_def)
    qed
  qed
  have keep: "over inner depth' 0 c"
    if "over inner depth' 0 m" "runs m (concat (map events_of docs)) c" "\<not> takes_inlines inner"
      "\<forall>d\<in>set docs. block_doc d \<or> item_doc d \<or> inline_doc 0 False d \<or> task_marker d"
    for inner depth' m c
    using that(1,2) by (rule runs_keep) (use that(3,4) blocks in blast)
  have "exactly base depth b'"
  proof (cases "block_doc (Node tag docs)")
    case False
    then have item: "tag = T_Item"
      "\<forall>d\<in>set docs. block_doc d \<or> inline_doc 0 False d \<or> task_marker d"
      using Node.prems(3) by (auto simp: list_all_iff)
    show ?thesis
    proof (rule node)
      show "block_tag tag" by (simp add: item block_tag_def)
    next
      fix raw at_end m c
      let ?inner = "hollow (opens tag b raw at_end) # base"
      assume m: "exactly ?inner (if counted tag then Suc depth else depth) m" "runs m (concat (map events_of docs)) c"
      have none: "\<not> takes_inlines ?inner"
        using opened_item [of raw at_end "count_tag tag b"] by (auto simp: item takes_inlines_def on_image_def)
      have "over ?inner (if counted tag then Suc depth else depth) 0 c"
        by (rule keep [OF _ m(2) none]) (use m(1) item(2) in \<open>auto simp: exactly_def\<close>)
      then show "if tag = T_Item \<or> counted tag
          then over ?inner (if counted tag then Suc depth else depth) 0 c \<and> \<not> takes_inlines ?inner
          else exactly ?inner (if counted tag then Suc depth else depth) c"
        using none item(1) by (simp only: simp_thms if_True)
    qed
  next
    case True
    let ?depth = "if counted tag then Suc depth else depth"
    show ?thesis
    proof (rule node)
      show tag: "block_tag tag" using True by (auto simp: block_tag_def split: md_tag.splits)
      fix raw at_end m c
      let ?inner = "hollow (opens tag b raw at_end) # base"
      assume m: "exactly ?inner ?depth m" "runs m (concat (map events_of docs)) c"
      consider (inlines) "list_all (inline_doc 0 False) docs" "\<not> counted tag" "\<not> needs_plain ?inner"
        | (leaves) "list_all raw_leaf docs" "\<not> counted tag" "on_raw ?inner" "tag \<noteq> T_Item"
        | (nested) "counted tag" "\<forall>d\<in>set docs. block_doc d \<or> item_doc d" "\<not> takes_inlines ?inner"
        | (table) "tag = T_Table" "list_all row_doc docs"
        using True
        by (cases tag) (auto simp: counted_def on_raw_def takes_inlines_def on_image_def list_all_iff)
      then show "if tag = T_Item \<or> counted tag then over ?inner ?depth 0 c \<and> \<not> takes_inlines ?inner else exactly ?inner ?depth c"
      proof cases
        case inlines
        have "tag \<noteq> T_Item" using True by auto
        then show ?thesis using inlines_run [OF m(1) inlines(3,1) m(2)] inlines(2) by simp
      next
        case leaves
        have "exactly ?inner ?depth c"
          using m by (rule runs_keep) (use leaves raw_runs in \<open>auto simp: list_all_iff\<close>)
        then show ?thesis using leaves by simp
      next
        case nested
        have "over ?inner ?depth 0 c"
          by (rule keep [OF _ m(2) nested(3)]) (use m(1) nested(2) in \<open>auto simp: exactly_def\<close>)
        then show ?thesis using nested(1,3) by (simp only: simp_thms if_True)
      next
        case table
        have "exactly ?inner ?depth c"
          using m
        proof (rule runs_keep)
          fix d m n
          assume d: "d \<in> set docs" "exactly ?inner ?depth m" "runs m (events_of d) n"
          then have "row_doc d" using table(2) by (simp add: list_all_iff)
          then obtain row cells where "d = Node row cells" "row = T_TableHead \<or> row = T_TableRow" "list_all cell_doc cells"
            by (cases d) auto
          then show "exactly ?inner ?depth n" using row_runs d(2,3) table(1) by simp
        qed
        then show ?thesis using table by (simp add: counted_def)
      qed
    qed
  qed
  then show ?case by (simp add: exactly_def)
qed

section \<open>The bound\<close>

lemma finish_step_fits:
  "rooted cs \<Longrightarrow> stack_fits cs \<Longrightarrow> level cs \<le> MAX_DEPTH \<Longrightarrow>
   stack_fits (finish_step cs) \<and> level (finish_step cs) \<le> MAX_DEPTH"
  using pop_placed_level [of "close_plain cs"] close_plain_fits [of cs] pop_placed_fits [of "close_plain cs"]
  by (auto simp: finish_step_def Let_def)

lemma finish_stack_fits:
  "rooted cs \<Longrightarrow> stack_fits cs \<Longrightarrow> level cs \<le> MAX_DEPTH \<Longrightarrow>
   \<exists>blocks. finish_stack cs = Some [Root blocks] \<and> list_all (\<lambda>b. nesting b \<le> MAX_DEPTH) blocks"
proof (induction "weight cs" arbitrary: cs rule: less_induct)
  case less
  show ?case
  proof (cases "1 < length cs")
    case True
    then show ?thesis
      using less.hyps [of "finish_step cs"] finish_step_ok [OF less.prems(1) True] finish_step_fits [OF less.prems]
      by (subst finish_stack.simps) auto
  next
    case False
    then obtain c where c: "cs = [c]" using less.prems by (cases cs rule: remdups_adj.cases) (auto simp: rooted_def)
    then show ?thesis using rooted_single [of c] less.prems by (subst finish_stack.simps) auto
  qed
qed

text \<open>
  (C30) \<open>MAX_DEPTH\<close> holds: for the events of a well-nested document, however deep its own quotes and lists go and
  however deep its spans, \<open>parse\<close> returns a tree in which quotes and lists nest at most \<open>MAX_DEPTH\<close> deep. The
  document's images may hold formatting, as long as no span in one is past \<open>MAX_DEPTH\<close> itself.
\<close>

theorem nesting_is_bounded:
  assumes "list_all block_doc docs" and "map fst (events source) = concat (map events_of docs)"
  shows "\<exists>blocks. parse_markdown fd events source = Some blocks \<and> list_all (\<lambda>b. nesting b \<le> MAX_DEPTH) blocks"
proof -
  let ?b = "build source (events source) new_builder"
  have "over [Root []] 0 0 new_builder"
    by (simp add: over_def new_builder_def rooted_def is_root_def)
  moreover have "runs new_builder (concat (map events_of docs)) ?b" using assms(2) by (auto simp: runs_def)
  ultimately have b: "over [Root []] 0 0 ?b"
  proof (rule runs_keep)
    fix d m n
    assume "d \<in> set docs" "over [Root []] 0 0 m" "runs m (events_of d) n"
    then show "over [Root []] 0 0 n"
      using block_runs [of "[Root []]" 0 m d n] assms(1) by (simp add: takes_inlines_def on_image_def list_all_iff)
  qed
  have "level (bd_stack ?b) \<le> MAX_DEPTH" "stack_fits (bd_stack ?b)"
    using over_level [OF b] b by (simp_all add: over_def)
  then obtain blocks where "finish_stack (bd_stack ?b) = Some [Root blocks]" "list_all (\<lambda>b. nesting b \<le> MAX_DEPTH) blocks"
    using finish_stack_fits [OF over_rooted [OF b]] by blast
  then show ?thesis by (auto simp: parse_markdown_def finish_def list_all_iff)
qed

section \<open>A span past the bound in an image\<close>

text \<open>Sixteen spans around something, and a quote of one paragraph with an image in them that holds one span more.\<close>

definition wrapped :: "nat \<Rightarrow> md_doc \<Rightarrow> md_doc" where
  "wrapped n d = ((\<lambda>d. Node T_Emphasis [d]) ^^ n) d"

definition over_deep_quote :: md_doc where
  "over_deep_quote =
     Node T_BlockQuote [Node T_Paragraph
       [wrapped MAX_DEPTH (Node (T_Image ''https://a.b/c'') [Node T_Strong [Leaf (Ev_Text ''x'')]])]]"

definition deep_quote :: md_doc where
  "deep_quote =
     Node T_BlockQuote [Node T_Paragraph
       [wrapped (MAX_DEPTH + 4) (Leaf (Ev_Text ''x''))]]"

definition unranged :: "md_event list \<Rightarrow> (md_event \<times> nat \<times> nat) list" where
  "unranged evs = map (\<lambda>ev. (ev, 0, 0)) evs"

theorem nesting_is_bounded_witness:
  "list_all block_doc [((\<lambda>d. Node T_BlockQuote [d]) ^^ 20) deep_quote]
   \<and> (\<exists>blocks. parse_markdown sample_finders
        (\<lambda>_. unranged (events_of (((\<lambda>d. Node T_BlockQuote [d]) ^^ 20) deep_quote))) [] = Some blocks
      \<and> list_all (\<lambda>b. nesting b \<le> MAX_DEPTH) blocks)"
proof -
  have "list_all block_doc [((\<lambda>d. Node T_BlockQuote [d]) ^^ 20) deep_quote]" by code_simp
  then show ?thesis
    using nesting_is_bounded [of "[((\<lambda>d. Node T_BlockQuote [d]) ^^ 20) deep_quote]"
        "\<lambda>_. unranged (events_of (((\<lambda>d. Node T_BlockQuote [d]) ^^ 20) deep_quote))" "[]" sample_finders]
    by (simp add: unranged_def comp_def del: funpow.simps)
qed

text \<open>What one such quote leaves: its blocks, in a quote that stays open though its depth is given back.\<close>

definition left_in_quote :: "block list" where
  "left_in_quote =
     [Bl_Plain [In_Text ''x''], Bl_Paragraph [((\<lambda>i. In_Emphasis [i]) ^^ MAX_DEPTH) (In_Image ''https://a.b/c'' [])]]"

lemma build_append: "build source (xs @ ys) b = build source ys (build source xs b)"
  by (simp add: build_def)

lemma one_over_deep_quote:
  "build [] (unranged (events_of over_deep_quote)) \<lparr>bd_stack = Root bs # cs, bd_depth = 0, bd_inline_depth = 0\<rparr>
     = \<lparr>bd_stack = Quote left_in_quote # Root bs # cs, bd_depth = 0, bd_inline_depth = 0\<rparr>"
  "build [] (unranged (events_of over_deep_quote)) \<lparr>bd_stack = Quote bs # cs, bd_depth = 0, bd_inline_depth = 0\<rparr>
     = \<lparr>bd_stack = Quote left_in_quote # Quote bs # cs, bd_depth = 0, bd_inline_depth = 0\<rparr>"
  by code_simp+

lemma many_over_deep_quotes:
  "build [] (unranged (concat (replicate n (events_of over_deep_quote)))) new_builder
     = \<lparr>bd_stack = replicate n (Quote left_in_quote) @ [Root []], bd_depth = 0, bd_inline_depth = 0\<rparr>"
proof (induction n)
  case (Suc n)
  let ?evs = "events_of over_deep_quote"
  have "concat (replicate (Suc n) ?evs) = concat (replicate n ?evs) @ ?evs"
    by (simp only: replicate_Suc replicate_append_same [symmetric] concat_append concat.simps append_Nil2)
  then have "unranged (concat (replicate (Suc n) ?evs)) = unranged (concat (replicate n ?evs)) @ unranged ?evs"
    by (simp only: unranged_def map_append)
  then have step: "build [] (unranged (concat (replicate (Suc n) ?evs))) new_builder
      = build [] (unranged ?evs) \<lparr>bd_stack = replicate n (Quote left_in_quote) @ [Root []], bd_depth = 0, bd_inline_depth = 0\<rparr>"
    by (simp only: build_append Suc.IH)
  show ?case unfolding step by (cases n) (simp_all add: one_over_deep_quote)
qed (simp add: unranged_def build_def new_builder_def)

lemma foldr_max_ge: "n \<in> set ns \<Longrightarrow> n \<le> foldr max ns (0::nat)"
  by (induction ns) auto

lemma finish_open_quotes:
  "\<exists>b. finish_stack (Quote bs # replicate n (Quote q) @ [Root []]) = Some [Root [b]] \<and> Suc n \<le> nesting b
     \<and> n + nesting (Bl_Quote bs) \<le> nesting b"
proof (induction n arbitrary: bs)
  case 0
  show ?case by (simp add: finish_stack.simps finish_step_def close_plain_def pop_placed_def)
next
  case (Suc n)
  let ?bs = "q @ [Bl_Quote bs]"
  have "finish_stack (Quote bs # replicate (Suc n) (Quote q) @ [Root []])
      = finish_stack (Quote ?bs # replicate n (Quote q) @ [Root []])"
    by (subst finish_stack.simps) (simp add: finish_step_def close_plain_def pop_placed_def)
  moreover have "Suc (nesting (Bl_Quote bs)) \<le> nesting (Bl_Quote ?bs)"
    using foldr_max_ge [of "nesting (Bl_Quote bs)" "map nesting ?bs"] by simp
  ultimately show ?case using Suc.IH [of ?bs] by fastforce
qed

text \<open>
  (C31) An image around a span past \<open>MAX_DEPTH\<close> breaks the bound: for a document of \<open>n\<close> quotes one after the other, each
  of one paragraph in which sixteen spans hold an image with one more span in its words, \<open>parse\<close> gives quotes
  nested \<open>n\<close> deep, whatever \<open>n\<close> is.
\<close>

theorem image_spans_break_the_bound:
  "\<exists>blocks. parse_markdown fd (\<lambda>_. unranged (concat (map events_of (replicate (Suc n) over_deep_quote)))) [] = Some blocks
     \<and> (\<exists>b\<in>set blocks. Suc n \<le> nesting b)"
proof -
  have "build [] (unranged (concat (map events_of (replicate (Suc n) over_deep_quote)))) new_builder
      = \<lparr>bd_stack = Quote left_in_quote # replicate n (Quote left_in_quote) @ [Root []], bd_depth = 0, bd_inline_depth = 0\<rparr>"
    using many_over_deep_quotes [of "Suc n"] by simp
  then show ?thesis
    using finish_open_quotes [of left_in_quote n left_in_quote] by (auto simp: parse_markdown_def finish_def)
qed

end
