(* ===== verification/Chat_Page.thy ===== *)
theory Chat_Page
  imports Turn_State Stream_Blocks Window_Budget
begin

text \<open>
  \<open>src/frontend/pages/chat/state.rs\<close>: what the chat page keeps of the conversation that is open, the live events
  applied to it (\<open>apply_event\<close>), the merges of what a connection pulls (\<open>src/frontend/pages/chat/live.rs\<close>), and the page's
  error lines (\<open>ChatErrors\<close>). The record has the fields events and pulls write; forms and the address bar are left
  out. serde_json's reading of a message's blocks is a parameter (\<open>read\<close>).
\<close>

section \<open>Messages\<close>

record message =
  ms_id :: i64
  ms_conversation :: i64
  ms_role :: string
  ms_content :: string
  ms_created_at :: int

definition apply_loaded_messages :: "message list \<Rightarrow> message list \<Rightarrow> i64 \<Rightarrow> message list" where
  "apply_loaded_messages current loaded c =
     loaded @ filter (\<lambda>m. ms_conversation m = c \<and> 0 < ms_id m \<and> \<not> list_ex (\<lambda>l. ms_id l = ms_id m) loaded) current"

text \<open>What the user sent in a message: its blocks but the tool results, or the whole content when it doesn't parse.\<close>

definition is_tool_result :: "content_block \<Rightarrow> bool" where
  "is_tool_result b \<longleftrightarrow> (case b of ToolResult _ _ _ \<Rightarrow> True | _ \<Rightarrow> False)"

definition sent_part :: "(string \<Rightarrow> content_block list option) \<Rightarrow> message \<Rightarrow> content_block list + string" where
  "sent_part read m =
     (case read (ms_content m) of
        Some blocks \<Rightarrow> Inl (filter (\<lambda>b. \<not> is_tool_result b) blocks)
      | None \<Rightarrow> Inr (ms_content m))"

definition merge_messages_by_id :: "message list \<Rightarrow> message list \<Rightarrow> message list" where
  "merge_messages_by_id existing incoming =
     foldl (\<lambda>ms m. if list_ex (\<lambda>e. ms_id e = ms_id m) ms then ms else ms @ [m]) existing incoming"

text \<open>\<open>Vec::remove\<close> at the first place a test holds.\<close>

fun remove_first :: "('a \<Rightarrow> bool) \<Rightarrow> 'a list \<Rightarrow> 'a list" where
  "remove_first P [] = []"
| "remove_first P (x # xs) = (if P x then xs else x # remove_first P xs)"

definition is_copy_of :: "(string \<Rightarrow> content_block list option) \<Rightarrow> message \<Rightarrow> message \<Rightarrow> bool" where
  "is_copy_of read saved m \<longleftrightarrow> ms_id m < 0 \<and> ms_role m = ms_role saved \<and> sent_part read m = sent_part read saved"

definition drop_copy :: "(string \<Rightarrow> content_block list option) \<Rightarrow> message list \<Rightarrow> message \<Rightarrow> message list" where
  "drop_copy read existing saved =
     (if ms_role saved \<noteq> ''user'' \<or> list_ex (\<lambda>m. ms_id m = ms_id saved) existing then existing
      else remove_first (is_copy_of read saved) existing)"

definition accept_saved_messages ::
  "(string \<Rightarrow> content_block list option) \<Rightarrow> message list \<Rightarrow> message list \<Rightarrow> message list" where
  "accept_saved_messages read existing incoming =
     merge_messages_by_id (foldl (drop_copy read) existing incoming) incoming"

section \<open>The streaming reply\<close>

text \<open>A delta that starts \<open>off\<close> bytes in: the part past what is there is added, cut at a character's start only.\<close>

definition apply_reply_delta :: "string option \<Rightarrow> nat \<Rightarrow> string \<Rightarrow> string option" where
  "apply_reply_delta reply off t =
     (let current = (case reply of Some s \<Rightarrow> s | None \<Rightarrow> []);
          have_len = length current
      in if have_len \<le> off then Some (current @ t)
         else (let already = have_len - off
               in if already < length t \<and> is_char_boundary t already then Some (current @ drop already t)
                  else Some current))"

section \<open>The sandbox panel\<close>

record preview =
  pv_port :: nat
  pv_host :: "string option"
  pv_url :: string

record mcp_call_summary =
  mc_calls :: i64
  mc_tools :: "(string \<times> i64) list"
  mc_refused :: i64
  mc_tool_errors :: i64
  mc_failed :: i64
  mc_unknown :: i64
  mc_limited :: i64

record pod_entry =
  pe_pod :: i64
  pe_status :: string
  pe_node :: "string option"
  pe_previews :: "preview list"

record output_line =
  ol_stream :: string
  ol_data :: string
  ol_seq :: "i64 option"

record command_entry =
  ce_id :: string
  ce_command :: string
  ce_status :: string
  ce_exit_code :: "int option"
  ce_output :: "output_line list"
  ce_mcp_calls :: "mcp_call_summary option"

record terminal_entry =
  te_terminal :: i64
  te_pod :: i64
  te_status :: string
  te_commands :: "command_entry list"

text \<open>\<open>iter_mut().find(..)\<close> and a change to what it finds.\<close>

fun change_first :: "('a \<Rightarrow> bool) \<Rightarrow> ('a \<Rightarrow> 'a) \<Rightarrow> 'a list \<Rightarrow> 'a list" where
  "change_first P f [] = []"
| "change_first P f (x # xs) = (if P x then f x # xs else x # change_first P f xs)"

definition upsert :: "('a \<Rightarrow> bool) \<Rightarrow> ('a \<Rightarrow> 'a) \<Rightarrow> 'a \<Rightarrow> 'a list \<Rightarrow> 'a list" where
  "upsert P f new xs = (if list_ex P xs then change_first P f xs else xs @ [new])"

definition apply_sandbox_pod_update ::
  "i64 \<Rightarrow> string \<Rightarrow> string option \<Rightarrow> bool \<Rightarrow> pod_entry list \<times> terminal_entry list \<Rightarrow> pod_entry list \<times> terminal_entry list" where
  "apply_sandbox_pod_update pod status node terminated = (\<lambda>(pods, terminals).
     if terminated then (filter (\<lambda>p. pe_pod p \<noteq> pod) pods, filter (\<lambda>t. te_pod t \<noteq> pod) terminals)
     else (upsert (\<lambda>p. pe_pod p = pod)
             (\<lambda>p. p\<lparr>pe_status := status, pe_node := (if node = None then pe_node p else node)\<rparr>)
             \<lparr>pe_pod = pod, pe_status = status, pe_node = node, pe_previews = []\<rparr> pods,
           terminals))"

definition apply_sandbox_preview_update :: "i64 \<Rightarrow> preview list \<Rightarrow> pod_entry list \<Rightarrow> pod_entry list" where
  "apply_sandbox_preview_update pod previews pods = change_first (\<lambda>p. pe_pod p = pod) (\<lambda>p. p\<lparr>pe_previews := previews\<rparr>) pods"

definition apply_sandbox_terminal_update ::
  "i64 \<Rightarrow> i64 \<Rightarrow> string \<Rightarrow> bool \<Rightarrow> terminal_entry list \<Rightarrow> terminal_entry list" where
  "apply_sandbox_terminal_update pod terminal status terminated terminals =
     (if terminated then filter (\<lambda>t. te_terminal t \<noteq> terminal) terminals
      else upsert (\<lambda>t. te_terminal t = terminal) (\<lambda>t. t\<lparr>te_pod := pod, te_status := status\<rparr>)
             \<lparr>te_terminal = terminal, te_pod = pod, te_status = status, te_commands = []\<rparr> terminals)"

text \<open>The first command with an id, in whichever terminal.\<close>

fun apply_sandbox_mcp_calls :: "string \<Rightarrow> mcp_call_summary \<Rightarrow> terminal_entry list \<Rightarrow> terminal_entry list" where
  "apply_sandbox_mcp_calls c summary [] = []"
| "apply_sandbox_mcp_calls c summary (t # ts) =
     (if list_ex (\<lambda>e. ce_id e = c) (te_commands t)
      then t\<lparr>te_commands := change_first (\<lambda>e. ce_id e = c) (\<lambda>e. e\<lparr>ce_mcp_calls := Some summary\<rparr>) (te_commands t)\<rparr> # ts
      else t # apply_sandbox_mcp_calls c summary ts)"

definition last_seq :: "output_line list \<Rightarrow> i64 option" where
  "last_seq lines = (case List.map_filter ol_seq lines of [] \<Rightarrow> None | s # ss \<Rightarrow> Some (foldl max s ss))"

text \<open>An update of a known command: a line of output, unless it is known already, or a new status.\<close>

record command_update =
  cu_terminal :: i64
  cu_command_id :: string
  cu_command :: "string option"
  cu_status :: string
  cu_exit_code :: "int option"
  cu_stream :: "string option"
  cu_output :: "string option"
  cu_position :: "i64 option"

definition update_command :: "command_update \<Rightarrow> command_entry \<Rightarrow> command_entry" where
  "update_command u e =
     (case (cu_stream u, cu_output u) of
        (Some stream, Some data) \<Rightarrow>
          (case (cu_position u, last_seq (ce_output e)) of
             (Some seq, Some latest) \<Rightarrow>
               if seq \<le> latest then e
               else e\<lparr>ce_output := ce_output e @ [\<lparr>ol_stream = stream, ol_data = data, ol_seq = cu_position u\<rparr>]\<rparr>
           | _ \<Rightarrow> e\<lparr>ce_output := ce_output e @ [\<lparr>ol_stream = stream, ol_data = data, ol_seq = cu_position u\<rparr>]\<rparr>)
      | _ \<Rightarrow> e\<lparr>ce_status := cu_status u, ce_exit_code := cu_exit_code u\<rparr>)"

definition update_terminal :: "command_update \<Rightarrow> terminal_entry \<Rightarrow> terminal_entry" where
  "update_terminal u t =
     (case cu_command u of
        Some command \<Rightarrow>
          (if list_ex (\<lambda>e. ce_id e = cu_command_id u) (te_commands t) then t
           else t\<lparr>te_commands := te_commands t @
                    [\<lparr>ce_id = cu_command_id u, ce_command = command, ce_status = cu_status u,
                      ce_exit_code = cu_exit_code u, ce_output = [], ce_mcp_calls = None\<rparr>]\<rparr>)
      | None \<Rightarrow>
          t\<lparr>te_commands := rev (change_first (\<lambda>e. ce_id e = cu_command_id u) (update_command u) (rev (te_commands t)))\<rparr>)"

definition apply_sandbox_command_update :: "command_update \<Rightarrow> terminal_entry list \<Rightarrow> terminal_entry list" where
  "apply_sandbox_command_update u terminals =
     change_first (\<lambda>t. te_terminal t = cu_terminal u) (update_terminal u) terminals"

text \<open>The server's snapshot (\<open>src/api/sandbox.rs\<close>), which says what there is: what it leaves out is gone.\<close>

record line_summary =
  ls_stream :: string
  ls_data :: string
  ls_seq :: i64

record command_summary =
  cs_id :: string
  cs_command :: string
  cs_status :: string
  cs_exit_code :: "int option"
  cs_output :: "line_summary list"
  cs_mcp_calls :: "mcp_call_summary option"

record terminal_summary =
  ts_terminal :: i64
  ts_pod :: i64
  ts_status :: string
  ts_commands :: "command_summary list"

record pod_summary =
  ps_pod :: i64
  ps_status :: string
  ps_node :: "string option"
  ps_terminals :: "terminal_summary list"
  ps_previews :: "preview list"

definition command_of :: "command_summary \<Rightarrow> command_entry" where
  "command_of c =
     \<lparr>ce_id = cs_id c, ce_command = cs_command c, ce_status = cs_status c, ce_exit_code = cs_exit_code c,
      ce_output = map (\<lambda>l. \<lparr>ol_stream = ls_stream l, ol_data = ls_data l, ol_seq = Some (ls_seq l)\<rparr>) (cs_output c),
      ce_mcp_calls = cs_mcp_calls c\<rparr>"

definition terminal_of :: "terminal_summary \<Rightarrow> terminal_entry" where
  "terminal_of t =
     \<lparr>te_terminal = ts_terminal t, te_pod = ts_pod t, te_status = ts_status t, te_commands = map command_of (ts_commands t)\<rparr>"

definition merge_terminal :: "terminal_entry list \<Rightarrow> terminal_summary \<Rightarrow> terminal_entry list" where
  "merge_terminal terminals t =
     upsert (\<lambda>e. te_terminal e = ts_terminal t)
       (\<lambda>e. e\<lparr>te_pod := ts_pod t, te_status := ts_status t, te_commands := map command_of (ts_commands t)\<rparr>)
       (terminal_of t) terminals"

definition merge_pod :: "pod_entry list \<Rightarrow> pod_summary \<Rightarrow> pod_entry list" where
  "merge_pod pods p =
     upsert (\<lambda>e. pe_pod e = ps_pod p)
       (\<lambda>e. e\<lparr>pe_status := ps_status p, pe_node := ps_node p, pe_previews := ps_previews p\<rparr>)
       \<lparr>pe_pod = ps_pod p, pe_status = ps_status p, pe_node = ps_node p, pe_previews = ps_previews p\<rparr> pods"

definition merge_sandbox_snapshot ::
  "pod_summary list \<Rightarrow> pod_entry list \<times> terminal_entry list \<Rightarrow> pod_entry list \<times> terminal_entry list" where
  "merge_sandbox_snapshot snapshot = (\<lambda>(pods, terminals).
     foldl (\<lambda>(pods, terminals) p. (merge_pod pods p, foldl merge_terminal terminals (ps_terminals p)))
       (filter (\<lambda>e. list_ex (\<lambda>p. ps_pod p = pe_pod e) snapshot) pods,
        filter (\<lambda>e. list_ex (\<lambda>t. ts_terminal t = te_terminal e) (concat (map ps_terminals snapshot))) terminals)
       snapshot)"

section \<open>The page and its events\<close>

datatype todo_status = Pending | InProgress | Completed

record todo_item =
  ti_content :: string
  ti_status :: todo_status

record question_option =
  qo_label :: string
  qo_description :: "string option"

record question =
  qu_question :: string
  qu_header :: string
  qu_options :: "question_option list"
  qu_multi_select :: bool

record pending_question =
  pq_tool_use_id :: string
  pq_questions :: "question list"

datatype repo_status = Cloning | Ready | Repo_failed

record trust_request =
  tq_id :: i64
  tq_path :: string
  tq_content :: string
  tq_hash :: string
  tq_is_repo :: bool

record repo_summary =
  rp_id :: i64
  rp_url :: string
  rp_path :: string
  rp_requested_branch :: "string option"
  rp_branch :: "string option"
  rp_commit :: "string option"
  rp_status :: repo_status
  rp_error :: "string option"
  rp_agents_files :: "string list"
  rp_loaded_instructions :: "string list"
  rp_trust_requests :: "trust_request list"

record context_usage_snapshot =
  cx_usage :: "token_usage option"
  cx_window :: u32

record page =
  pg_conversation :: "i64 option"
  pg_messages :: "message list"
  pg_load_error :: "string option"
  pg_streaming_reply :: "string option"
  pg_turn_running :: bool
  pg_turn_state_known :: bool
  pg_turn_elapsed :: u64
  pg_delivery_error :: "string option"
  pg_todos :: "todo_item list"
  pg_question :: "pending_question option"
  pg_repos :: "repo_summary list"
  pg_pods :: "pod_entry list"
  pg_terminals :: "terminal_entry list"
  pg_browsing_open :: bool
  pg_browsing_url :: "string option"
  pg_browsing_frame :: "string option"
  pg_context_usage :: "context_usage_snapshot option"
  pg_live :: "(i64 \<times> u32) option"

definition default_page :: page where
  "default_page =
     \<lparr>pg_conversation = None, pg_messages = [], pg_load_error = None, pg_streaming_reply = None,
      pg_turn_running = False, pg_turn_state_known = False, pg_turn_elapsed = 0, pg_delivery_error = None,
      pg_todos = [], pg_question = None, pg_repos = [], pg_pods = [], pg_terminals = [],
      pg_browsing_open = False, pg_browsing_url = None, pg_browsing_frame = None, pg_context_usage = None,
      pg_live = None\<rparr>"

datatype conversation_event =
    Ev_MessagesAppended "message list"
  | Ev_SandboxPodUpdate i64 string "string option" bool
  | Ev_SandboxPreviewUpdate i64 "preview list"
  | Ev_SandboxTerminalUpdate i64 i64 string bool
  | Ev_SandboxCommandUpdate command_update
  | Ev_SandboxMcpCalls string mcp_call_summary
  | Ev_NotificationDeliveryFailed string
  | Ev_ContextUsageUpdate token_usage u32
  | Ev_TodoListUpdate "todo_item list"
  | Ev_BrowsingSessionUpdate bool
  | Ev_BrowsingUrlUpdate string
  | Ev_ReposUpdate "repo_summary list"
  | Ev_PodsChanged
  | Ev_TurnsChanged
  | Ev_QuestionUpdate "pending_question option"
  | Ev_QuestionsChanged
  | Ev_NeedsUser i64 attention u64
  | Ev_ConversationsChanged
  | Ev_ModelChanged
  | Ev_ProvidersChanged
  | Ev_TurnState bool u64
  | Ev_ReplyReset
  | Ev_ReplyDelta string nat
  | Ev_TurnError string
  | Ev_Unknown

datatype event_effect =
    Fx_None | Fx_ConversationsChanged | Fx_PodsChanged | Fx_TurnsChanged | Fx_QuestionsChanged | Fx_ModelChanged
  | Fx_TurnError string | Fx_TurnStarted | Fx_NeedsUser i64 attention u64 | Fx_StaleBundle

definition TURN_STOPPED :: string where
  "TURN_STOPPED = ''stopped by the user''"

definition TURN_FAILED_NOTED :: string where
  "TURN_FAILED_NOTED = ''the turn failed; the conversation says why''"

definition change_sandbox_panel ::
  "(pod_entry list \<times> terminal_entry list \<Rightarrow> pod_entry list \<times> terminal_entry list) \<Rightarrow> page \<Rightarrow> page" where
  "change_sandbox_panel f s = (let (pods, terminals) = f (pg_pods s, pg_terminals s) in s\<lparr>pg_pods := pods, pg_terminals := terminals\<rparr>)"

fun apply_event :: "(string \<Rightarrow> content_block list option) \<Rightarrow> conversation_event \<Rightarrow> page \<Rightarrow> event_effect \<times> page" where
  "apply_event read (Ev_MessagesAppended rows) s =
     (let s = (if list_ex (\<lambda>m. ms_role m = ''assistant'') rows then s\<lparr>pg_streaming_reply := None\<rparr> else s)
      in (Fx_ConversationsChanged, s\<lparr>pg_messages := accept_saved_messages read (pg_messages s) rows\<rparr>))"
| "apply_event read (Ev_SandboxPodUpdate pod status node terminated) s =
     (Fx_None, change_sandbox_panel (apply_sandbox_pod_update pod status node terminated) s)"
| "apply_event read (Ev_SandboxPreviewUpdate pod previews) s =
     (Fx_None, s\<lparr>pg_pods := apply_sandbox_preview_update pod previews (pg_pods s)\<rparr>)"
| "apply_event read (Ev_SandboxTerminalUpdate pod terminal status terminated) s =
     (Fx_None, s\<lparr>pg_terminals := apply_sandbox_terminal_update pod terminal status terminated (pg_terminals s)\<rparr>)"
| "apply_event read (Ev_SandboxCommandUpdate u) s =
     (Fx_None, s\<lparr>pg_terminals := apply_sandbox_command_update u (pg_terminals s)\<rparr>)"
| "apply_event read (Ev_SandboxMcpCalls c summary) s =
     (Fx_None, s\<lparr>pg_terminals := apply_sandbox_mcp_calls c summary (pg_terminals s)\<rparr>)"
| "apply_event read (Ev_NotificationDeliveryFailed detail) s = (Fx_None, s\<lparr>pg_delivery_error := Some detail\<rparr>)"
| "apply_event read (Ev_ContextUsageUpdate usage window) s =
     (Fx_None, s\<lparr>pg_context_usage := Some \<lparr>cx_usage = Some usage, cx_window = window\<rparr>\<rparr>)"
| "apply_event read (Ev_TodoListUpdate items) s = (Fx_None, s\<lparr>pg_todos := items\<rparr>)"
| "apply_event read (Ev_BrowsingSessionUpdate is_open) s =
     (Fx_None, if is_open then s\<lparr>pg_browsing_open := True\<rparr>
               else s\<lparr>pg_browsing_open := False, pg_browsing_frame := None, pg_browsing_url := None\<rparr>)"
| "apply_event read (Ev_BrowsingUrlUpdate url) s = (Fx_None, s\<lparr>pg_browsing_url := Some url\<rparr>)"
| "apply_event read (Ev_ReposUpdate repos) s = (Fx_None, s\<lparr>pg_repos := repos\<rparr>)"
| "apply_event read (Ev_QuestionUpdate q) s = (Fx_None, s\<lparr>pg_question := q\<rparr>)"
| "apply_event read (Ev_TurnState running elapsed) s =
     (let s = s\<lparr>pg_turn_running := running, pg_turn_state_known := True, pg_turn_elapsed := elapsed\<rparr>
      in if running then (Fx_TurnStarted, s) else (Fx_None, s\<lparr>pg_streaming_reply := None\<rparr>))"
| "apply_event read Ev_ReplyReset s = (Fx_None, s\<lparr>pg_streaming_reply := Some []\<rparr>)"
| "apply_event read (Ev_ReplyDelta t off) s =
     (Fx_None, s\<lparr>pg_streaming_reply := apply_reply_delta (pg_streaming_reply s) off t\<rparr>)"
| "apply_event read (Ev_TurnError message) s =
     (if message \<noteq> TURN_STOPPED \<and> message \<noteq> TURN_FAILED_NOTED then Fx_TurnError message else Fx_None, s)"
| "apply_event read Ev_PodsChanged s = (Fx_PodsChanged, s)"
| "apply_event read Ev_TurnsChanged s = (Fx_TurnsChanged, s)"
| "apply_event read Ev_QuestionsChanged s = (Fx_QuestionsChanged, s)"
| "apply_event read (Ev_NeedsUser c a g) s = (Fx_NeedsUser c a g, s)"
| "apply_event read Ev_ConversationsChanged s = (Fx_ConversationsChanged, s)"
| "apply_event read Ev_ModelChanged s = (Fx_ModelChanged, s)"
| "apply_event read Ev_ProvidersChanged s = (Fx_ModelChanged, s)"
| "apply_event read Ev_Unknown s = (Fx_StaleBundle, s)"

section \<open>The page's error lines\<close>

record chat_errors =
  er_lines :: "i64 \<rightharpoonup> string"
  er_turn :: "i64 set"

definition no_errors :: chat_errors where
  "no_errors = \<lparr>er_lines = Map.empty, er_turn = {}\<rparr>"

definition clear_turn_error :: "i64 \<Rightarrow> chat_errors \<Rightarrow> chat_errors" where
  "clear_turn_error c e =
     (if c \<in> er_turn e then \<lparr>er_lines = (er_lines e)(c := None), er_turn = er_turn e - {c}\<rparr> else e)"

definition set_turn_error :: "i64 \<Rightarrow> string \<Rightarrow> chat_errors \<Rightarrow> chat_errors" where
  "set_turn_error c message e =
     (if message = TURN_FAILED_NOTED then clear_turn_error c e
      else \<lparr>er_lines = (er_lines e)(c \<mapsto> message), er_turn = insert c (er_turn e)\<rparr>)"

definition set_local_error :: "i64 \<Rightarrow> string \<Rightarrow> chat_errors \<Rightarrow> chat_errors" where
  "set_local_error c message e = \<lparr>er_lines = (er_lines e)(c \<mapsto> message), er_turn = er_turn e - {c}\<rparr>"

definition clear_errors :: "i64 \<Rightarrow> chat_errors \<Rightarrow> chat_errors" where
  "clear_errors c e = \<lparr>er_lines = (er_lines e)(c := None), er_turn = er_turn e - {c}\<rparr>"

section \<open>A connection\<close>

text \<open>
  What a connection pulls once it has subscribed, each \<open>None\<close> where the request failed, and the state after it. A turn's error is
  pulled into the error lines.
\<close>

record pulls =
  pl_messages :: "message list option"
  pl_sandbox :: "pod_summary list option"
  pl_context_usage :: "context_usage_snapshot option"
  pl_todos :: "todo_item list option"
  pl_question :: "pending_question option option"
  pl_repos :: "repo_summary list option"
  pl_turn_state :: "(bool \<times> u64) option"
  pl_reply :: "string option option"
  pl_turn_error :: "string option option"
  pl_browsing :: "(bool \<times> string option) option"

definition pulled :: "'a option \<Rightarrow> ('a \<Rightarrow> page \<Rightarrow> page) \<Rightarrow> page \<Rightarrow> page" where
  "pulled x f s = (case x of Some y \<Rightarrow> f y s | None \<Rightarrow> s)"

definition reconcile :: "(string \<Rightarrow> content_block list option) \<Rightarrow> i64 \<Rightarrow> u32 \<Rightarrow> pulls \<Rightarrow> page \<Rightarrow> page" where
  "reconcile read c count p s =
     (let s = pulled (pl_messages p) (\<lambda>rows s. s\<lparr>pg_messages := accept_saved_messages read (pg_messages s) rows\<rparr>) s;
          s = pulled (pl_sandbox p) (\<lambda>snapshot. change_sandbox_panel (merge_sandbox_snapshot snapshot)) s;
          s = pulled (pl_context_usage p) (\<lambda>u s. s\<lparr>pg_context_usage := Some u\<rparr>) s;
          s = pulled (pl_todos p) (\<lambda>items s. s\<lparr>pg_todos := items\<rparr>) s;
          s = pulled (pl_question p) (\<lambda>q s. s\<lparr>pg_question := q\<rparr>) s;
          s = pulled (pl_repos p) (\<lambda>repos s. s\<lparr>pg_repos := repos\<rparr>) s;
          s = pulled (pl_turn_state p)
                (\<lambda>(running, elapsed) s. s\<lparr>pg_turn_running := running, pg_turn_state_known := True, pg_turn_elapsed := elapsed\<rparr>) s;
          s = pulled (pl_reply p) (\<lambda>reply s. s\<lparr>pg_streaming_reply := reply\<rparr>) s;
          s = pulled (pl_browsing p) (\<lambda>(is_open, url) s. s\<lparr>pg_browsing_open := is_open, pg_browsing_url := url\<rparr>) s
      in s\<lparr>pg_live := Some (c, count)\<rparr>)"

definition reconcile_errors :: "i64 \<Rightarrow> pulls \<Rightarrow> chat_errors \<Rightarrow> chat_errors" where
  "reconcile_errors c p e =
     (case pl_turn_error p of
        Some (Some message) \<Rightarrow> set_turn_error c message e
      | Some None \<Rightarrow> clear_turn_error c e
      | None \<Rightarrow> e)"

definition effect_on_errors :: "i64 \<Rightarrow> event_effect \<Rightarrow> chat_errors \<Rightarrow> chat_errors" where
  "effect_on_errors c fx e =
     (case fx of
        Fx_TurnError message \<Rightarrow> set_turn_error c message e
      | Fx_TurnStarted \<Rightarrow> clear_turn_error c e
      | _ \<Rightarrow> e)"

text \<open>Opening a conversation resets the page; the events of its stream are applied in order.\<close>

definition switched_to :: "i64 \<Rightarrow> page" where
  "switched_to c = default_page\<lparr>pg_conversation := Some c\<rparr>"

definition apply_events ::
  "(string \<Rightarrow> content_block list option) \<Rightarrow> i64 \<Rightarrow> conversation_event list \<Rightarrow> page \<times> chat_errors \<Rightarrow> page \<times> chat_errors" where
  "apply_events read c evs =
     (\<lambda>se. foldl (\<lambda>(s, e) ev. let (fx, s') = apply_event read ev s in (s', effect_on_errors c fx e)) se evs)"

end
