(* ===== verification/Chat_Page_Lists.thy ===== *)
theory Chat_Page_Lists
  imports Chat_Page
begin

text \<open>
  The lists the chat page keeps (\<open>src/frontend/pages/chat/state.rs\<close>): ids stay distinct, a saved message takes the place of its
  optimistic copy, and a snapshot decides what the sandbox panel shows.
\<close>

section \<open>Upserts\<close>

lemma change_first_none [simp]: "\<not> list_ex P xs \<Longrightarrow> change_first P f xs = xs"
  by (induction xs) auto

lemma map_change_first: "(\<And>x. k (f x) = k x) \<Longrightarrow> map k (change_first P f xs) = map k xs"
  by (induction xs) auto

lemma map_upsert:
  "(\<And>x. k (f x) = k x) \<Longrightarrow> map k (upsert P f new xs) = (if list_ex P xs then map k xs else map k xs @ [k new])"
  by (simp add: upsert_def map_change_first)

lemma distinct_upsert:
  assumes "distinct (map k xs)" "\<And>x. k (f x) = k x" "\<And>x. P x \<longleftrightarrow> k x = k new"
  shows "distinct (map k (upsert P f new xs))"
  using assms by (auto simp: map_upsert list_ex_iff)

lemma distinct_filter_map: "distinct (map k xs) \<Longrightarrow> distinct (map k (filter P xs))"
  by (induction xs) auto

lemma set_change_first:
  assumes "distinct (map k xs)" "\<And>x. P x \<longleftrightarrow> k x = i" "\<And>x. k (f x) = k x"
  shows "set (change_first P f xs) = {x \<in> set xs. k x \<noteq> i} \<union> f ` {x \<in> set xs. k x = i}"
  using assms by (induction xs) (auto simp: image_iff)

text \<open>An upsert that writes every field puts the new entry there, and changes no other.\<close>

lemma set_upsert:
  assumes "distinct (map k xs)" "\<And>x. P x \<longleftrightarrow> k x = k new" "\<And>x. P x \<Longrightarrow> f x = new" "\<And>x. k (f x) = k x"
  shows "set (upsert P f new xs) = insert new {x \<in> set xs. k x \<noteq> k new}"
proof (cases "list_ex P xs")
  case True
  then show ?thesis
    using set_change_first [of k xs P "k new" f] assms by (auto simp: upsert_def list_ex_iff image_iff)
next
  case False
  then show ?thesis using assms by (auto simp: upsert_def list_ex_iff)
qed

lemma set_upserts:
  assumes step: "\<And>xs s. distinct (map k xs) \<Longrightarrow> distinct (map k (step xs s)) \<and> set (step xs s) = insert (new s) {x \<in> set xs. k x \<noteq> k (new s)}"
    and "distinct (map k xs)" "distinct (map (k \<circ> new) ss)"
  shows "distinct (map k (foldl step xs ss))
    \<and> set (foldl step xs ss) = {x \<in> set xs. k x \<notin> k ` new ` set ss} \<union> new ` set ss"
  using assms(2,3)
proof (induction ss arbitrary: xs)
  case (Cons s ss)
  show ?case
    using Cons.IH [of "step xs s"] step [OF Cons.prems(1), of s] Cons.prems(2) by auto
qed simp

section \<open>The snapshot decides\<close>

definition pod_of :: "pod_summary \<Rightarrow> pod_entry" where
  "pod_of p = \<lparr>pe_pod = ps_pod p, pe_status = ps_status p, pe_node = ps_node p, pe_previews = ps_previews p\<rparr>"

lemma merge_pod_set:
  assumes "distinct (map pe_pod pods)"
  shows "distinct (map pe_pod (merge_pod pods p))
    \<and> set (merge_pod pods p) = insert (pod_of p) {e \<in> set pods. pe_pod e \<noteq> pe_pod (pod_of p)}"
  unfolding merge_pod_def pod_of_def
  using distinct_upsert [OF assms] set_upsert [OF assms] by simp

lemma merge_terminal_set:
  assumes "distinct (map te_terminal terminals)"
  shows "distinct (map te_terminal (merge_terminal terminals t))
    \<and> set (merge_terminal terminals t) = insert (terminal_of t) {e \<in> set terminals. te_terminal e \<noteq> te_terminal (terminal_of t)}"
  unfolding merge_terminal_def terminal_of_def
  using distinct_upsert [OF assms] set_upsert [OF assms] by simp

lemma merge_terminals_set:
  assumes "distinct (map te_terminal terminals)" "distinct (map ts_terminal ts)"
  shows "distinct (map te_terminal (foldl merge_terminal terminals ts))
    \<and> set (foldl merge_terminal terminals ts)
      = {e \<in> set terminals. te_terminal e \<notin> ts_terminal ` set ts} \<union> terminal_of ` set ts"
proof -
  have same: "te_terminal \<circ> terminal_of = ts_terminal" by (simp add: fun_eq_iff terminal_of_def)
  then show ?thesis
    using set_upserts [of te_terminal merge_terminal terminal_of terminals ts] merge_terminal_set assms
    by (simp add: image_comp)
qed

definition snapshot_terminals :: "pod_summary list \<Rightarrow> terminal_summary list" where
  "snapshot_terminals snapshot = concat (map ps_terminals snapshot)"

definition snapshot_ok :: "pod_summary list \<Rightarrow> bool" where
  "snapshot_ok snapshot \<longleftrightarrow>
     distinct (map ps_pod snapshot) \<and> distinct (map ts_terminal (snapshot_terminals snapshot))
     \<and> list_all (\<lambda>t. distinct (map cs_id (ts_commands t))) (snapshot_terminals snapshot)"

lemma merge_snapshot_split:
  "merge_sandbox_snapshot snapshot (pods, terminals) =
     (foldl merge_pod (filter (\<lambda>e. list_ex (\<lambda>p. ps_pod p = pe_pod e) snapshot) pods) snapshot,
      foldl merge_terminal
        (filter (\<lambda>e. list_ex (\<lambda>t. ts_terminal t = te_terminal e) (snapshot_terminals snapshot)) terminals)
        (snapshot_terminals snapshot))"
proof -
  have "foldl (\<lambda>(a, b) p. (merge_pod a p, foldl merge_terminal b (ps_terminals p))) (a, b) ps
      = (foldl merge_pod a ps, foldl merge_terminal b (concat (map ps_terminals ps)))" for a b ps
    by (induction ps arbitrary: a b) auto
  then show ?thesis by (simp add: merge_sandbox_snapshot_def snapshot_terminals_def)
qed

lemma merge_snapshot_set:
  assumes "distinct (map pe_pod pods)" "distinct (map te_terminal terminals)" "snapshot_ok snapshot"
    and "merge_sandbox_snapshot snapshot (pods, terminals) = (pods', terminals')"
  shows "distinct (map pe_pod pods') \<and> set pods' = pod_of ` set snapshot"
    and "distinct (map te_terminal terminals') \<and> set terminals' = terminal_of ` set (snapshot_terminals snapshot)"
proof -
  have same: "pe_pod \<circ> pod_of = ps_pod" by (simp add: fun_eq_iff pod_of_def)
  show "distinct (map pe_pod pods') \<and> set pods' = pod_of ` set snapshot"
    using set_upserts [of pe_pod merge_pod pod_of "filter (\<lambda>e. list_ex (\<lambda>p. ps_pod p = pe_pod e) snapshot) pods" snapshot]
      merge_pod_set assms same
    by (auto simp: merge_snapshot_split distinct_filter_map snapshot_ok_def list_ex_iff image_comp image_iff)
  show "distinct (map te_terminal terminals') \<and> set terminals' = terminal_of ` set (snapshot_terminals snapshot)"
    using merge_terminals_set [of "filter (\<lambda>e. list_ex (\<lambda>t. ts_terminal t = te_terminal e) (snapshot_terminals snapshot)) terminals"
        "snapshot_terminals snapshot"] assms
    by (auto simp: merge_snapshot_split distinct_filter_map snapshot_ok_def list_ex_iff image_iff)
qed

section \<open>Distinct ids\<close>

definition page_ok :: "page \<Rightarrow> bool" where
  "page_ok s \<longleftrightarrow>
     distinct (map ms_id (pg_messages s)) \<and> distinct (map pe_pod (pg_pods s))
     \<and> distinct (map te_terminal (pg_terminals s)) \<and> (\<forall>t\<in>set (pg_terminals s). distinct (map ce_id (te_commands t)))"

lemma page_ok_switched: "page_ok (switched_to c)"
  by (simp add: page_ok_def switched_to_def default_page_def)

lemma distinct_remove_first: "distinct (map k xs) \<Longrightarrow> distinct (map k (remove_first P xs))"
proof (induction xs)
  case (Cons x xs)
  have "set (remove_first P ys) \<subseteq> set ys" for ys by (induction ys) auto
  then show ?case using Cons by (auto simp: image_iff)
qed simp

lemma foldl_keeps: "P xs \<Longrightarrow> (\<And>xs r. P xs \<Longrightarrow> P (f xs r)) \<Longrightarrow> P (foldl f xs rs)"
  by (induction rs arbitrary: xs) auto

lemma distinct_merge: "distinct (map ms_id ms) \<Longrightarrow> distinct (map ms_id (merge_messages_by_id ms rows))"
  unfolding merge_messages_by_id_def by (rule foldl_keeps) (auto simp: list_ex_iff)

lemma distinct_drop_copies: "distinct (map ms_id ms) \<Longrightarrow> distinct (map ms_id (foldl (drop_copy read) ms rows))"
  by (rule foldl_keeps) (auto simp: drop_copy_def distinct_remove_first)

lemma distinct_accept: "distinct (map ms_id ms) \<Longrightarrow> distinct (map ms_id (accept_saved_messages read ms rows))"
  by (simp add: accept_saved_messages_def distinct_merge distinct_drop_copies)

lemma update_terminal_id [simp]: "te_terminal (update_terminal u t) = te_terminal t"
  by (simp add: update_terminal_def split: option.split)

lemma update_command_id [simp]: "ce_id (update_command u e) = ce_id e"
  by (simp add: update_command_def split: option.split)

lemma list_ex_key: "list_ex (\<lambda>x. k x = i) xs \<longleftrightarrow> i \<in> k ` set xs"
  by (auto simp: list_ex_iff)

lemma update_terminal_commands:
  "map ce_id (te_commands (update_terminal u t)) =
     (if cu_command u \<noteq> None \<and> cu_command_id u \<notin> ce_id ` set (te_commands t)
      then map ce_id (te_commands t) @ [cu_command_id u] else map ce_id (te_commands t))"
  by (auto simp: update_terminal_def list_ex_key rev_map [symmetric] map_change_first split: option.split)

lemma mcp_calls_keys:
  "map (\<lambda>t. (te_terminal t, map ce_id (te_commands t))) (apply_sandbox_mcp_calls c summary ts)
     = map (\<lambda>t. (te_terminal t, map ce_id (te_commands t))) ts"
  by (induction c summary ts rule: apply_sandbox_mcp_calls.induct) (auto simp: map_change_first)

lemma terminals_ok_keys:
  assumes "map (\<lambda>t. (te_terminal t, map ce_id (te_commands t))) ts = map (\<lambda>t. (te_terminal t, map ce_id (te_commands t))) us"
  shows "map te_terminal ts = map te_terminal us \<and>
    ((\<forall>t\<in>set ts. distinct (map ce_id (te_commands t))) = (\<forall>t\<in>set us. distinct (map ce_id (te_commands t))))"
proof -
  have "map te_terminal ts = map te_terminal us" using arg_cong [OF assms, of "map fst"] by (simp add: comp_def)
  moreover have "map (\<lambda>t. map ce_id (te_commands t)) ts = map (\<lambda>t. map ce_id (te_commands t)) us"
    using arg_cong [OF assms, of "map snd"] by (simp add: comp_def)
  then have "(\<forall>ids\<in>set (map (\<lambda>t. map ce_id (te_commands t)) ts). distinct ids)
      = (\<forall>ids\<in>set (map (\<lambda>t. map ce_id (te_commands t)) us). distinct ids)"
    by (simp only:)
  ultimately show ?thesis by simp
qed

lemma change_first_in: "x \<in> set (change_first P f xs) \<Longrightarrow> x \<in> set xs \<or> (\<exists>y\<in>set xs. x = f y)"
  by (induction xs) (auto split: if_splits)

lemma apply_command_update_ok:
  assumes "distinct (map te_terminal ts)" "\<forall>t\<in>set ts. distinct (map ce_id (te_commands t))"
  shows "distinct (map te_terminal (apply_sandbox_command_update u ts))
    \<and> (\<forall>t\<in>set (apply_sandbox_command_update u ts). distinct (map ce_id (te_commands t)))"
  using assms update_terminal_commands [of u]
  by (auto simp: apply_sandbox_command_update_def map_change_first dest!: change_first_in)

lemma apply_terminal_update_ok:
  assumes "distinct (map te_terminal ts)" "\<forall>t\<in>set ts. distinct (map ce_id (te_commands t))"
  shows "distinct (map te_terminal (apply_sandbox_terminal_update pod terminal status gone ts))
    \<and> (\<forall>t\<in>set (apply_sandbox_terminal_update pod terminal status gone ts). distinct (map ce_id (te_commands t)))"
  using assms
  by (auto simp: apply_sandbox_terminal_update_def distinct_filter_map upsert_def map_change_first list_ex_iff
      dest!: change_first_in)

lemma apply_pod_update_ok:
  assumes "distinct (map pe_pod pods)" "distinct (map te_terminal ts)" "\<forall>t\<in>set ts. distinct (map ce_id (te_commands t))"
    and "apply_sandbox_pod_update pod status node gone (pods, ts) = (pods', ts')"
  shows "distinct (map pe_pod pods')" "distinct (map te_terminal ts') \<and> (\<forall>t\<in>set ts'. distinct (map ce_id (te_commands t)))"
  using assms
  by (auto simp: apply_sandbox_pod_update_def distinct_filter_map upsert_def map_change_first list_ex_iff split: if_splits)

lemma page_ok_event:
  assumes "page_ok s" shows "page_ok (snd (apply_event read ev s))"
proof (cases ev)
  case (Ev_SandboxPodUpdate pod status node gone)
  then show ?thesis
    using assms apply_pod_update_ok [of "pg_pods s" "pg_terminals s" pod status node gone]
    by (auto simp: page_ok_def change_sandbox_panel_def split: prod.split)
next
  case (Ev_SandboxMcpCalls c summary)
  then show ?thesis
    using assms terminals_ok_keys [OF mcp_calls_keys [of c summary "pg_terminals s"]] by (auto simp: page_ok_def)
next
  case (Ev_SandboxCommandUpdate u)
  then show ?thesis using assms apply_command_update_ok [of "pg_terminals s" u] by (simp add: page_ok_def)
next
  case (Ev_SandboxTerminalUpdate pod terminal status gone)
  then show ?thesis using assms apply_terminal_update_ok [of "pg_terminals s"] by (simp add: page_ok_def)
qed (use assms in \<open>auto simp: page_ok_def Let_def distinct_accept apply_sandbox_preview_update_def map_change_first\<close>)

definition pulls_ok :: "pulls \<Rightarrow> bool" where
  "pulls_ok p \<longleftrightarrow> (case pl_sandbox p of Some snapshot \<Rightarrow> snapshot_ok snapshot | None \<Rightarrow> True)"

lemma page_ok_snapshot:
  assumes "page_ok s" "snapshot_ok snapshot"
  shows "page_ok (change_sandbox_panel (merge_sandbox_snapshot snapshot) s)"
proof -
  obtain pods ts where m: "merge_sandbox_snapshot snapshot (pg_pods s, pg_terminals s) = (pods, ts)" by fastforce
  have "distinct (map pe_pod pods)" "distinct (map te_terminal ts)"
    "set ts = terminal_of ` set (snapshot_terminals snapshot)"
    using merge_snapshot_set [OF _ _ assms(2) m] assms(1) by (auto simp: page_ok_def)
  then show ?thesis
    using assms
    by (auto simp: page_ok_def change_sandbox_panel_def m snapshot_ok_def list_all_iff terminal_of_def command_of_def comp_def)
qed

lemma page_ok_reconcile: "page_ok s \<Longrightarrow> pulls_ok p \<Longrightarrow> page_ok (reconcile read c n p s)"
proof -
  assume s: "page_ok s" and p: "pulls_ok p"
  let ?s = "pulled (pl_messages p) (\<lambda>rows s. s\<lparr>pg_messages := accept_saved_messages read (pg_messages s) rows\<rparr>) s"
  let ?t = "pulled (pl_sandbox p) (\<lambda>snapshot. change_sandbox_panel (merge_sandbox_snapshot snapshot)) ?s"
  have "page_ok ?s" using s by (auto simp: pulled_def page_ok_def distinct_accept split: option.split)
  then have t: "page_ok ?t" using p by (auto simp: pulled_def pulls_ok_def page_ok_snapshot split: option.split)
  have same: "pg_messages (reconcile read c n p s) = pg_messages ?t" "pg_pods (reconcile read c n p s) = pg_pods ?t"
    "pg_terminals (reconcile read c n p s) = pg_terminals ?t"
    by (simp_all add: reconcile_def Let_def pulled_def split: option.split prod.split)
  show ?thesis using t unfolding page_ok_def same .
qed

section \<open>Saved messages and their copies\<close>










definition sample_message :: "i64 \<Rightarrow> string \<Rightarrow> message" where
  "sample_message i t = \<lparr>ms_id = i, ms_conversation = 1, ms_role = ''user'', ms_content = t, ms_created_at = 0\<rparr>"


text \<open>
  A snapshot decides what the sandbox panel shows: whatever pods, terminals and commands the tab knew, after the merge
  it has exactly the snapshot's, each once and as the snapshot says.
\<close>

theorem snapshot_decides_the_panel:
  assumes "page_ok s" "snapshot_ok snapshot"
  defines "after \<equiv> change_sandbox_panel (merge_sandbox_snapshot snapshot) s"
  shows "set (pg_pods after) = pod_of ` set snapshot \<and> set (pg_terminals after) = terminal_of ` set (snapshot_terminals snapshot)
    \<and> length (pg_pods after) = length snapshot \<and> length (pg_terminals after) = length (snapshot_terminals snapshot)"
proof -
  obtain pods ts where m: "merge_sandbox_snapshot snapshot (pg_pods s, pg_terminals s) = (pods, ts)" by fastforce
  note merged = merge_snapshot_set [OF _ _ assms(2) m]
  have ids: "pe_pod ` set pods = ps_pod ` set snapshot" "te_terminal ` set ts = ts_terminal ` set (snapshot_terminals snapshot)"
    using merged assms(1) by (auto simp: page_ok_def pod_of_def terminal_of_def image_iff)
  have "length pods = length snapshot"
    using merged(1) assms ids distinct_card [of "map pe_pod pods"] distinct_card [of "map ps_pod snapshot"]
    by (simp add: page_ok_def snapshot_ok_def)
  moreover have "length ts = length (snapshot_terminals snapshot)"
    using merged(2) assms ids distinct_card [of "map te_terminal ts"] distinct_card [of "map ts_terminal (snapshot_terminals snapshot)"]
    by (simp add: page_ok_def snapshot_ok_def)
  ultimately show ?thesis
    using merged assms(1) by (simp add: after_def change_sandbox_panel_def m page_ok_def)
qed

definition sample_snapshot :: "pod_summary list" where
  "sample_snapshot =
     [\<lparr>ps_pod = 7, ps_status = ''Running'', ps_node = None,
       ps_terminals = [\<lparr>ts_terminal = 5, ts_pod = 7, ts_status = ''open'', ts_commands = []\<rparr>], ps_previews = []\<rparr>]"

definition sample_page :: page where
  "sample_page = default_page\<lparr>
     pg_pods := [\<lparr>pe_pod = 6, pe_status = ''Running'', pe_node = None, pe_previews = []\<rparr>,
                 \<lparr>pe_pod = 7, pe_status = ''Pending'', pe_node = None, pe_previews = []\<rparr>]\<rparr>"

theorem snapshot_decides_the_panel_witness:
  "set (pg_pods (change_sandbox_panel (merge_sandbox_snapshot sample_snapshot) sample_page))
     = {\<lparr>pe_pod = 7, pe_status = ''Running'', pe_node = None, pe_previews = []\<rparr>}"
proof -
  have "page_ok sample_page" "snapshot_ok sample_snapshot"
    by (simp_all add: page_ok_def sample_page_def default_page_def snapshot_ok_def sample_snapshot_def snapshot_terminals_def)
  from snapshot_decides_the_panel [OF this] show ?thesis by (simp add: sample_snapshot_def pod_of_def)
qed

interpretation live_page: machine "switched_to c" "\<lambda>s ev. snd (apply_event read ev s)" page_ok for c read
  by unfold_locales (simp_all add: page_ok_switched page_ok_event)

text \<open>
  The page never holds one thing twice: in a tab that opened a conversation, connected with any snapshot of it, and took any
  events in any order, no message, pod, terminal or command of a terminal is there under an id twice.
\<close>

theorem page_ids_stay_distinct:
  assumes "pulls_ok p"
  shows "page_ok (foldl (\<lambda>s ev. snd (apply_event read ev s)) (reconcile read c n p (foldl (\<lambda>s ev. snd (apply_event read ev s)) (switched_to c) before)) evs)"
  by (intro live_page.inv_run_from page_ok_reconcile live_page.inv_run assms)

theorem page_ids_stay_distinct_witness:
  "page_ok (foldl (\<lambda>s ev. snd (apply_event (\<lambda>_. None) ev s))
     (reconcile (\<lambda>_. None) 1 1
       \<lparr>pl_messages = Some [sample_message 1 ''a'', sample_message 1 ''a''], pl_sandbox = Some sample_snapshot,
        pl_context_usage = None, pl_todos = None, pl_question = None, pl_repos = None, pl_turn_state = None,
        pl_reply = None, pl_turn_error = None, pl_browsing = None\<rparr>
       (foldl (\<lambda>s ev. snd (apply_event (\<lambda>_. None) ev s)) (switched_to 1) []))
     [Ev_MessagesAppended [sample_message 1 ''a''], Ev_SandboxPodUpdate 7 ''Running'' None False])"
  by (rule page_ids_stay_distinct)
     (simp add: pulls_ok_def snapshot_ok_def sample_snapshot_def snapshot_terminals_def)

end
