(* ===== verification/Chat_Page_Live.thy ===== *)
theory Chat_Page_Live
  imports Chat_Page_Lists Turn_Properties
begin

text \<open>
  A tab and the server together (\<open>src/frontend/pages/chat/live.rs\<close>, \<open>src/turn/lifecycle.rs\<close>, \<open>src/turn/state.rs\<close>): a tab
  subscribes, pulls the reply in progress, then takes every event since it subscribed, those from before the pull too. It
  shows the reply the server has; and command updates it takes twice change nothing.
\<close>

section \<open>What the server publishes of a reply\<close>



























end
