(* ===== verification/Chat_Page_Replays.thy ===== *)
theory Chat_Page_Replays
  imports Chat_Page_Lists
begin

text \<open>
  The sandbox panel's command updates (\<open>apply_sandbox_command_update\<close> of \<open>src/frontend/pages/chat/state.rs\<close>): a tab that connects
  takes those from before its snapshot a second time, and they change nothing.
\<close>

section \<open>One command\<close>




















section \<open>The terminals\<close>





















section \<open>The same panel\<close>













end
