(* ===== verification/Sidebar_Tree.thy ===== *)
theory Sidebar_Tree
  imports Prelude
begin

text \<open>
  \<open>src/frontend/pages/chat/sidebar/tree.rs\<close> and the folding of \<open>sidebar/mod.rs\<close>: the flat list of conversations the server
  returns, laid out as rows with each agent under its parent. The recursive walks are worklists: the calls still to make, in the
  order the code makes them. A node's own parent, a missing parent and a cycle are what the code makes of them.
\<close>

section \<open>The list\<close>

record conversation_node =
  cn_id :: i64
  cn_title :: string
  cn_created_at :: int
  cn_updated_at :: int
  cn_parent :: "i64 option"
  cn_persona :: "string option"
  cn_status :: "string option"
  cn_busy :: bool
  cn_waiting :: bool

definition node_ids :: "conversation_node list \<Rightarrow> i64 set" where
  "node_ids nodes = cn_id ` set nodes"

text \<open>A node's parent when it is in the list and not the node itself.\<close>

definition parent_in :: "conversation_node list \<Rightarrow> conversation_node \<Rightarrow> i64 option" where
  "parent_in nodes n =
     (case cn_parent n of
        Some p \<Rightarrow> if p \<in> node_ids nodes \<and> p \<noteq> cn_id n then Some p else None
      | None \<Rightarrow> None)"

definition children_of :: "conversation_node list \<Rightarrow> i64 \<Rightarrow> conversation_node list" where
  "children_of nodes p = sort_key cn_id (filter (\<lambda>n. parent_in nodes n = Some p) nodes)"

lemma set_children: "set (children_of nodes p) = {n \<in> set nodes. parent_in nodes n = Some p}"
  by (auto simp: children_of_def)

lemma children_known: "children_of nodes p \<noteq> [] \<Longrightarrow> p \<in> node_ids nodes"
  using set_children [of nodes p] by (cases "children_of nodes p") (auto simp: parent_in_def split: option.splits if_splits)

lemma finite_node_ids [simp]: "finite (node_ids nodes)"
  by (simp add: node_ids_def)

text \<open>Expanding a node takes its id from those still to see, or adds nothing to the work.\<close>

lemma expand_less:
  assumes "i \<notin> seen"
  shows "card (node_ids nodes - insert i seen) < card (node_ids nodes - seen)
    \<or> card (node_ids nodes - insert i seen) = card (node_ids nodes - seen) \<and> children_of nodes i = []"
proof (cases "i \<in> node_ids nodes")
  case True
  then show ?thesis using assms by (intro disjI1 psubset_card_mono) auto
next
  case False
  then have "node_ids nodes - insert i seen = node_ids nodes - seen" by auto
  then show ?thesis using False children_known by auto
qed

section \<open>Who is under a conversation\<close>

function descendants_from :: "conversation_node list \<Rightarrow> i64 set \<Rightarrow> conversation_node list \<Rightarrow> conversation_node list" where
  "descendants_from nodes seen [] = []"
| "descendants_from nodes seen (child # work) =
     child #
       (if cn_id child \<in> seen then descendants_from nodes seen work
        else descendants_from nodes (insert (cn_id child) seen) (children_of nodes (cn_id child) @ work))"
  by pat_completeness auto
termination
  by (relation "(\<lambda>(nodes, seen, work). card (node_ids nodes - seen)) <*mlex*> measure (\<lambda>(nodes, seen, work). length work)")
     (use expand_less in \<open>auto simp: wf_mlex mlex_prod_def\<close>)

definition descendants :: "conversation_node list \<Rightarrow> i64 \<Rightarrow> conversation_node list" where
  "descendants nodes i = descendants_from nodes {i} (children_of nodes i)"

function waiting_from :: "conversation_node list \<Rightarrow> i64 set \<Rightarrow> conversation_node list \<Rightarrow> nat" where
  "waiting_from nodes seen [] = 0"
| "waiting_from nodes seen (child # work) =
     (if cn_waiting child then 1 else 0) +
       (if cn_id child \<in> seen then waiting_from nodes seen work
        else waiting_from nodes (insert (cn_id child) seen) (children_of nodes (cn_id child) @ work))"
  by pat_completeness auto
termination
  by (relation "(\<lambda>(nodes, seen, work). card (node_ids nodes - seen)) <*mlex*> measure (\<lambda>(nodes, seen, work). length work)")
     (use expand_less in \<open>auto simp: wf_mlex mlex_prod_def\<close>)

definition waiting_under :: "conversation_node list \<Rightarrow> i64 \<Rightarrow> nat" where
  "waiting_under nodes i = waiting_from nodes {i} (children_of nodes i)"

section \<open>The rows\<close>

definition MAX_INDENT :: nat where
  "MAX_INDENT = 3"

record tree_row =
  tr_node :: conversation_node
  tr_depth :: nat
  tr_has_children :: bool
  tr_collapsed :: bool
  tr_waiting_under :: nat
  tr_agents_under :: nat
  tr_busy_under :: nat

definition indent :: "tree_row \<Rightarrow> nat" where
  "indent r = min (tr_depth r) MAX_INDENT"

definition row_of :: "conversation_node list \<Rightarrow> i64 set \<Rightarrow> conversation_node \<Rightarrow> nat \<Rightarrow> tree_row" where
  "row_of nodes collapsed n depth =
     (let under = children_of nodes (cn_id n)
      in \<lparr>tr_node = n, tr_depth = depth, tr_has_children = (under \<noteq> []),
          tr_collapsed = (under \<noteq> [] \<and> cn_id n \<in> collapsed),
          tr_waiting_under = waiting_under nodes (cn_id n),
          tr_agents_under = length (descendants nodes (cn_id n)),
          tr_busy_under = length (filter cn_busy (descendants nodes (cn_id n)))\<rparr>)"

function push_subtrees ::
  "conversation_node list \<Rightarrow> i64 set \<Rightarrow> i64 set \<Rightarrow> (conversation_node \<times> nat) list \<Rightarrow> tree_row list" where
  "push_subtrees nodes collapsed placed [] = []"
| "push_subtrees nodes collapsed placed ((n, depth) # work) =
     (if cn_id n \<in> placed then push_subtrees nodes collapsed placed work
      else let row = row_of nodes collapsed n depth
           in row # push_subtrees nodes collapsed (insert (cn_id n) placed)
                ((if tr_collapsed row then [] else map (\<lambda>c. (c, depth + 1)) (children_of nodes (cn_id n))) @ work))"
  by pat_completeness auto
termination
  by (relation "(\<lambda>(nodes, _, placed, _). card (node_ids nodes - placed)) <*mlex*> measure (\<lambda>(_, _, _, work). length work)")
     (use expand_less in \<open>auto simp: wf_mlex mlex_prod_def\<close>)

definition build_tree :: "conversation_node list \<Rightarrow> i64 set \<Rightarrow> tree_row list" where
  "build_tree nodes collapsed =
     push_subtrees nodes collapsed {} (map (\<lambda>n. (n, 0)) (filter (\<lambda>n. parent_in nodes n = None) nodes))"

section \<open>Folding\<close>

text \<open>The parent of an id, in the list or not: the last node of that id says.\<close>

definition parent_of :: "conversation_node list \<Rightarrow> i64 \<Rightarrow> i64 option" where
  "parent_of nodes i = (case map_of (map (\<lambda>n. (cn_id n, cn_parent n)) (rev nodes)) i of Some p \<Rightarrow> p | None \<Rightarrow> None)"

lemma parent_of_unknown: "i \<notin> node_ids nodes \<Longrightarrow> parent_of nodes i = None"
proof -
  assume "i \<notin> node_ids nodes"
  then have "map_of (map (\<lambda>n. (cn_id n, cn_parent n)) (rev nodes)) i = None"
    by (auto simp: map_of_eq_None_iff node_ids_def image_iff)
  then show ?thesis by (simp add: parent_of_def)
qed

definition to_climb :: "conversation_node list \<Rightarrow> i64 set \<Rightarrow> i64 option \<Rightarrow> nat" where
  "to_climb nodes seen x = (case x of None \<Rightarrow> 0 | Some i \<Rightarrow> Suc (card (node_ids nodes - seen)))"

lemma to_climb_Some: "to_climb nodes seen (Some i) = Suc (card (node_ids nodes - seen))"
  by (simp add: to_climb_def)

lemma climb_less_card: "i \<notin> seen \<Longrightarrow> to_climb nodes (insert i seen) (parent_of nodes i) < Suc (card (node_ids nodes - seen))"
proof (cases "i \<in> node_ids nodes")
  case True
  assume "i \<notin> seen"
  with True have "card (node_ids nodes - insert i seen) < card (node_ids nodes - seen)"
    by (intro psubset_card_mono) auto
  then show ?thesis by (auto simp: to_climb_def split: option.split)
qed (simp add: to_climb_def parent_of_unknown)

lemma climb_less: "i \<notin> seen \<Longrightarrow> to_climb nodes (insert i seen) (parent_of nodes i) < to_climb nodes seen (Some i)"
  unfolding to_climb_Some by (rule climb_less_card)

function unfold_from :: "conversation_node list \<Rightarrow> i64 set \<Rightarrow> i64 option \<Rightarrow> i64 set \<Rightarrow> bool \<Rightarrow> i64 set \<times> bool" where
  "unfold_from nodes seen None collapsed unfolded = (collapsed, unfolded)"
| "unfold_from nodes seen (Some i) collapsed unfolded =
     (if i \<in> seen then (collapsed, unfolded)
      else unfold_from nodes (insert i seen) (parent_of nodes i) (collapsed - {i}) (unfolded \<or> i \<in> collapsed))"
  by pat_completeness auto
termination
  by (relation "measure (\<lambda>(nodes, seen, x, _, _). to_climb nodes seen x)") (simp_all add: climb_less)

definition unfold_to :: "i64 set \<Rightarrow> conversation_node list \<Rightarrow> i64 option \<Rightarrow> i64 set \<times> bool" where
  "unfold_to collapsed nodes is_open =
     unfold_from nodes {} (Option.bind is_open (parent_of nodes)) collapsed False"

definition unsettled :: "conversation_node \<Rightarrow> bool" where
  "unsettled n \<longleftrightarrow> cn_busy n \<or> cn_waiting n \<or> cn_status n = Some ''starting'' \<or> cn_status n = Some ''waiting for its parent''"

text \<open>The keys of a hash map, in no order: a set.\<close>

definition settled_parents :: "conversation_node list \<Rightarrow> i64 set" where
  "settled_parents nodes =
     {i \<in> node_ids nodes. children_of nodes i \<noteq> [] \<and> i \<notin> cn_id ` {n \<in> set nodes. cn_busy n}
        \<and> list_all (\<lambda>n. \<not> unsettled n) (descendants nodes i)}"

function keep_open_from :: "conversation_node list \<Rightarrow> i64 set \<Rightarrow> i64 option \<Rightarrow> i64 set" where
  "keep_open_from nodes kept None = kept"
| "keep_open_from nodes kept (Some i) =
     (if i \<in> kept then kept else keep_open_from nodes (insert i kept) (parent_of nodes i))"
  by pat_completeness auto
termination
  by (relation "measure (\<lambda>(nodes, kept, x). to_climb nodes kept x)") (simp_all add: climb_less)

text \<open>\<open>FOLDED\<close> and \<open>FOLD_DECIDED\<close>, before and after.\<close>

definition fold_settled_trees :: "conversation_node list \<Rightarrow> i64 option \<Rightarrow> i64 set \<times> i64 set \<Rightarrow> i64 set \<times> i64 set" where
  "fold_settled_trees nodes is_open = (\<lambda>(folded, decided).
     let keep = keep_open_from nodes (set_option is_open) (Option.bind is_open (parent_of nodes));
         undecided = settled_parents nodes - decided
     in if undecided = {} then (folded, decided) else (folded \<union> (undecided - keep), decided \<union> undecided))"

section \<open>What shows\<close>

text \<open>A conversation shows when it is a root, or a child of one that shows and isn't folded.\<close>

inductive shown :: "conversation_node list \<Rightarrow> i64 set \<Rightarrow> i64 \<Rightarrow> bool" for nodes collapsed where
  shown_root: "n \<in> set nodes \<Longrightarrow> parent_in nodes n = None \<Longrightarrow> shown nodes collapsed (cn_id n)"
| shown_child: "shown nodes collapsed p \<Longrightarrow> p \<notin> collapsed \<Longrightarrow> n \<in> set nodes \<Longrightarrow> parent_in nodes n = Some p \<Longrightarrow>
    shown nodes collapsed (cn_id n)"

abbreviation row_ids :: "tree_row list \<Rightarrow> i64 list" where
  "row_ids rows \<equiv> map (\<lambda>r. cn_id (tr_node r)) rows"

abbreviation work_ids :: "(conversation_node \<times> nat) list \<Rightarrow> i64 set" where
  "work_ids work \<equiv> (\<lambda>(n, _). cn_id n) ` set work"

lemma row_of_simps [simp]:
  "tr_node (row_of nodes collapsed n depth) = n"
  "tr_collapsed (row_of nodes collapsed n depth) \<longleftrightarrow> children_of nodes (cn_id n) \<noteq> [] \<and> cn_id n \<in> collapsed"
  by (simp_all add: row_of_def Let_def)

lemma rows_once:
  "distinct (row_ids (push_subtrees nodes collapsed placed work))
   \<and> set (row_ids (push_subtrees nodes collapsed placed work)) \<inter> placed = {}"
  by (induction nodes collapsed placed work rule: push_subtrees.induct) (auto simp: Let_def)

text \<open>The walk's frontier: what an unfolded node that is placed has under it is placed or still to be.\<close>

definition frontier :: "conversation_node list \<Rightarrow> i64 set \<Rightarrow> i64 set \<Rightarrow> i64 set \<Rightarrow> bool" where
  "frontier nodes collapsed placed todo \<longleftrightarrow>
     (\<forall>n\<in>set nodes. \<forall>p. parent_in nodes n = Some p \<and> p \<in> placed \<and> p \<notin> collapsed \<longrightarrow> cn_id n \<in> placed \<union> todo)"

lemma rows_cover:
  assumes "frontier nodes collapsed placed (work_ids work)"
  defines "final \<equiv> placed \<union> set (row_ids (push_subtrees nodes collapsed placed work))"
  shows "work_ids work \<subseteq> final \<and> frontier nodes collapsed final {}"
  using assms(1) unfolding final_def
proof (induction nodes collapsed placed work rule: push_subtrees.induct)
  case (2 nodes collapsed placed n depth work)
  let ?under = "if tr_collapsed (row_of nodes collapsed n depth) then [] else map (\<lambda>c. (c, depth + 1)) (children_of nodes (cn_id n))"
  show ?case
  proof (cases "cn_id n \<in> placed")
    case True
    then have "frontier nodes collapsed placed (work_ids work)" using 2(3) by (auto simp: frontier_def)
    then show ?thesis using 2(1) True by auto
  next
    case False
    have "work_ids (?under @ work) = (if tr_collapsed (row_of nodes collapsed n depth) then {} else
        cn_id ` {c \<in> set nodes. parent_in nodes c = Some (cn_id n)}) \<union> work_ids work"
      using set_children [of nodes "cn_id n"] by (auto simp: image_Un image_image)
    moreover have "cn_id c \<in> cn_id ` {c \<in> set nodes. parent_in nodes c = Some p}"
      if "c \<in> set nodes" "parent_in nodes c = Some p" for c p
      using that by blast
    moreover have "children_of nodes (cn_id n) \<noteq> []" if "c \<in> set nodes" "parent_in nodes c = Some (cn_id n)" for c
      using that set_children [of nodes "cn_id n"] by auto
    ultimately have "frontier nodes collapsed (insert (cn_id n) placed) (work_ids (?under @ work))"
      using 2(3) unfolding frontier_def by auto
    from 2(2) [OF False refl this] show ?thesis using False by (auto simp: Let_def)
  qed
qed (simp add: frontier_def)

lemma rows_sound:
  assumes "\<forall>(n, d)\<in>set work. n \<in> set nodes \<and> shown nodes collapsed (cn_id n)"
  shows "\<forall>r\<in>set (push_subtrees nodes collapsed placed work). tr_node r \<in> set nodes \<and> shown nodes collapsed (cn_id (tr_node r))"
  using assms
proof (induction nodes collapsed placed work rule: push_subtrees.induct)
  case (2 nodes collapsed placed n depth work)
  show ?case
  proof (cases "cn_id n \<in> placed")
    case False
    have "shown nodes collapsed (cn_id c)" if "cn_id n \<notin> collapsed" "c \<in> set nodes" "parent_in nodes c = Some (cn_id n)" for c
      using that 2(3) by (auto intro: shown_child)
    then have "\<forall>(m, d)\<in>set ((if tr_collapsed (row_of nodes collapsed n depth) then []
        else map (\<lambda>c. (c, depth + 1)) (children_of nodes (cn_id n))) @ work). m \<in> set nodes \<and> shown nodes collapsed (cn_id m)"
      using 2(3) set_children [of nodes "cn_id n"] by auto
    from 2(2) [OF False refl this] show ?thesis using 2(3) False by (simp add: Let_def)
  qed (use 2 in auto)
qed simp

lemma rows_are_shown:
  "distinct (row_ids (build_tree nodes collapsed)) \<and> set (row_ids (build_tree nodes collapsed)) = {i. shown nodes collapsed i}"
proof -
  let ?work = "map (\<lambda>n. (n, 0::nat)) (filter (\<lambda>n. parent_in nodes n = None) nodes)"
  let ?ids = "set (row_ids (build_tree nodes collapsed))"
  have "frontier nodes collapsed {} (work_ids ?work)" by (simp add: frontier_def)
  from rows_cover [OF this] have cover: "work_ids ?work \<subseteq> ?ids" "frontier nodes collapsed ?ids {}"
    by (simp_all add: build_tree_def)
  have "i \<in> ?ids" if "shown nodes collapsed i" for i
    using that
  proof induction
    case (shown_root n)
    then show ?case using cover(1) by (auto simp: image_iff)
  next
    case (shown_child p n)
    then show ?case using cover(2) by (auto simp: frontier_def)
  qed
  moreover have "shown nodes collapsed i" if "i \<in> ?ids" for i
    using that rows_sound [of ?work nodes collapsed "{}"] by (auto simp: build_tree_def intro: shown_root)
  moreover have "distinct (row_ids (build_tree nodes collapsed))"
    using rows_once [of nodes collapsed "{}" ?work] by (simp add: build_tree_def)
  ultimately show ?thesis by blast
qed

text \<open>
  (C35) The rows are the tree that shows: whatever list the server sends, with missing parents, nodes that are their own parents and
  cycles in it, the sidebar has one row for each conversation that is a root or whose ancestors all show and are
  unfolded, and no other.
\<close>

theorem rows_are_what_shows:
  "distinct (row_ids (build_tree nodes collapsed)) \<and> set (row_ids (build_tree nodes collapsed)) = {i. shown nodes collapsed i}"
  by (rule rows_are_shown)

section \<open>The open conversation shows\<close>

text \<open>The ids the climb from a conversation passes.\<close>

inductive chain :: "conversation_node list \<Rightarrow> i64 option \<Rightarrow> i64 \<Rightarrow> bool" for nodes where
  chain_here: "chain nodes (Some i) i"
| chain_up: "chain nodes (parent_of nodes i) j \<Longrightarrow> chain nodes (Some i) j"

inductive_cases chain_NoneE: "chain nodes None j"
inductive_cases chain_SomeE: "chain nodes (Some i) j"

definition climbed :: "conversation_node list \<Rightarrow> i64 set \<Rightarrow> i64 option \<Rightarrow> bool" where
  "climbed nodes seen x \<longleftrightarrow> (\<forall>s\<in>seen. \<forall>j. parent_of nodes s = Some j \<longrightarrow> j \<in> seen \<or> x = Some j)"

lemma chain_closed:
  assumes "chain nodes x j" "climbed nodes seen None" "\<forall>i. x = Some i \<longrightarrow> i \<in> seen" shows "j \<in> seen"
  using assms
proof induction
  case (chain_up i j)
  then show ?case by (auto simp: climbed_def)
qed simp

lemma unfold_keeps: "fst (unfold_from nodes seen x collapsed unfolded) \<subseteq> collapsed"
  by (induction nodes seen x collapsed unfolded rule: unfold_from.induct) auto

lemma unfold_chain:
  assumes "climbed nodes seen x" "seen \<inter> collapsed = {}" "chain nodes x j"
  shows "j \<notin> fst (unfold_from nodes seen x collapsed unfolded)"
proof -
  show ?thesis
    using assms
  proof (induction nodes seen x collapsed unfolded rule: unfold_from.induct)
    case (2 nodes seen i collapsed unfolded)
    show ?case
    proof (cases "i \<in> seen")
      case True
      then have "climbed nodes seen None" using 2(2) by (auto simp: climbed_def)
      then have "j \<in> seen" using chain_closed 2(4) True by blast
      then show ?thesis using 2(3) True by auto
    next
      case False
      have "climbed nodes (insert i seen) (parent_of nodes i)" using 2(2) by (auto simp: climbed_def)
      then have IH: "j \<notin> fst (unfold_from nodes (insert i seen) (parent_of nodes i) (collapsed - {i}) (unfolded \<or> i \<in> collapsed))"
        if "chain nodes (parent_of nodes i) j"
        using 2(1) [OF False _ _ that] 2(3) by auto
      have "j = i \<or> chain nodes (parent_of nodes i) j" using 2(4) by (auto elim: chain_SomeE)
      then show ?thesis
        using unfold_keeps [of nodes "insert i seen" "parent_of nodes i" "collapsed - {i}" "unfolded \<or> i \<in> collapsed"] IH False
        by auto
    qed
  qed (auto elim: chain_NoneE)
qed

lemma keep_open_keeps: "kept \<subseteq> keep_open_from nodes kept x"
  by (induction nodes kept x rule: keep_open_from.induct) auto

lemma keep_open_chain:
  assumes "climbed nodes kept x" "chain nodes x j" shows "j \<in> keep_open_from nodes kept x"
proof -
  show ?thesis
    using assms
  proof (induction nodes kept x rule: keep_open_from.induct)
    case (2 nodes kept i)
    show ?case
    proof (cases "i \<in> kept")
      case True
      then have "climbed nodes kept None" using 2(2) by (auto simp: climbed_def)
      then show ?thesis using chain_closed [OF 2(3)] True by auto
    next
      case False
      have "climbed nodes (insert i kept) (parent_of nodes i)" using 2(2) by (auto simp: climbed_def)
      then have "chain nodes (parent_of nodes i) j \<Longrightarrow> j \<in> keep_open_from nodes (insert i kept) (parent_of nodes i)"
        using 2(1) [OF False] by blast
      moreover have "i \<in> keep_open_from nodes (insert i kept) (parent_of nodes i)"
        using keep_open_keeps [of "insert i kept" nodes "parent_of nodes i"] by simp
      ultimately show ?thesis using 2(3) False by (elim chain_SomeE) simp_all
    qed
  qed (auto elim: chain_NoneE)
qed

lemma parent_of_node:
  assumes "distinct (map cn_id nodes)" "n \<in> set nodes" shows "parent_of nodes (cn_id n) = cn_parent n"
proof -
  have "distinct (map fst (map (\<lambda>n. (cn_id n, cn_parent n)) (rev nodes)))" using assms(1) by (simp add: comp_def distinct_map)
  moreover have "(cn_id n, cn_parent n) \<in> set (map (\<lambda>n. (cn_id n, cn_parent n)) (rev nodes))" using assms(2) by auto
  ultimately have "map_of (map (\<lambda>n. (cn_id n, cn_parent n)) (rev nodes)) (cn_id n) = Some (cn_parent n)"
    by (rule map_of_is_SomeI)
  then show ?thesis by (simp add: parent_of_def)
qed

lemma parent_in_Some: "parent_in nodes n = Some p \<Longrightarrow> cn_parent n = Some p \<and> p \<in> node_ids nodes \<and> p \<noteq> cn_id n"
  by (auto simp: parent_in_def split: option.splits if_splits)

lemma shown_unfolded:
  assumes "distinct (map cn_id nodes)" "shown nodes folded i" "\<And>j. chain nodes (parent_of nodes i) j \<Longrightarrow> j \<in> folded \<or> j \<notin> collapsed"
  shows "shown nodes collapsed i"
  using assms(2,3)
proof induction
  case (shown_child p n)
  have parent: "parent_of nodes (cn_id n) = Some p"
    using parent_of_node [OF assms(1) shown_child(3)] parent_in_Some [OF shown_child(4)] by simp
  then have "p \<notin> collapsed" using shown_child(2) shown_child(6) [of p] by (auto intro: chain_here)
  moreover have "shown nodes collapsed p" using shown_child(5,6) parent by (auto intro: chain_up)
  ultimately show ?case using shown_child(3,4) by (auto intro: shown.shown_child)
qed (rule shown.shown_root)

text \<open>
  The open conversation's row shows: from any folding, after the sidebar unfolds to it and then folds the settled trees, the row
  of a conversation under a root is there. Neither folds above it, and folding settled trees never hides an open row
  that showed.
\<close>

theorem open_row_shows:
  fixes nodes :: "conversation_node list" and collapsed decided :: "i64 set" and i :: i64
  assumes "distinct (map cn_id nodes)" "shown nodes {} i"
  defines "unfolded \<equiv> fst (unfold_to collapsed nodes (Some i))"
  shows "i \<in> set (row_ids (build_tree nodes unfolded))
    \<and> i \<in> set (row_ids (build_tree nodes (fst (fold_settled_trees nodes (Some i) (unfolded, decided)))))"
proof -
  have climb: "climbed nodes {} x" for x by (simp add: climbed_def)
  have "j \<notin> unfolded" if "chain nodes (parent_of nodes i) j" for j
    using unfold_chain [OF climb _ that, of collapsed False] by (simp add: unfolded_def unfold_to_def)
  then have open_now: "shown nodes unfolded i" using shown_unfolded [OF assms(1,2), of unfolded] by blast
  have "climbed nodes {i} (parent_of nodes i)" by (auto simp: climbed_def)
  from keep_open_chain [OF this]
  have "j \<in> unfolded \<or> j \<notin> fst (fold_settled_trees nodes (Some i) (unfolded, decided))"
    if "chain nodes (parent_of nodes i) j" for j
    using that by (auto simp: fold_settled_trees_def Let_def)
  then have "shown nodes (fst (fold_settled_trees nodes (Some i) (unfolded, decided))) i"
    using shown_unfolded [OF assms(1) open_now] by blast
  then show ?thesis using open_now rows_are_shown [of nodes] by auto
qed

text \<open>A list of four: a root with an agent that has one of its own, and a conversation beside it.\<close>

definition sample_node :: "i64 \<Rightarrow> i64 option \<Rightarrow> conversation_node" where
  "sample_node i p = \<lparr>cn_id = i, cn_title = ''c'', cn_created_at = 0, cn_updated_at = 0, cn_parent = p, cn_persona = None,
     cn_status = None, cn_busy = False, cn_waiting = (i = 3)\<rparr>"

definition sample_list :: "conversation_node list" where
  "sample_list = [sample_node 1 None, sample_node 2 (Some 1), sample_node 3 (Some 2), sample_node 4 None]"

lemma sample_simps [simp]:
  "cn_id (sample_node i p) = i" "cn_parent (sample_node i p) = p" "cn_waiting (sample_node i p) = (i = 3)"
  "cn_busy (sample_node i p) = False"
  by (simp_all add: sample_node_def)

lemma sample_ids: "distinct (map cn_id sample_list)" "node_ids sample_list = {1, 2, 3, 4}"
  by (simp_all add: sample_list_def node_ids_def)

lemma sample_shown: "shown sample_list {} 3"
proof -
  have "shown sample_list {} (cn_id (sample_node 1 None))" by (rule shown_root) (auto simp: sample_list_def parent_in_def)
  then have "shown sample_list {} 1" by simp
  then have "shown sample_list {} (cn_id (sample_node 2 (Some 1)))"
    by (rule shown_child) (auto simp: sample_list_def parent_in_def node_ids_def)
  then have "shown sample_list {} 2" by simp
  then have "shown sample_list {} (cn_id (sample_node 3 (Some 2)))"
    by (rule shown_child) (auto simp: sample_list_def parent_in_def node_ids_def)
  then show ?thesis by simp
qed

theorem open_row_shows_witness:
  "3 \<in> set (row_ids (build_tree sample_list (fst (unfold_to {1, 2, 4} sample_list (Some 3)))))"
  using open_row_shows [OF sample_ids(1) sample_shown, of "{1, 2, 4}"] by blast

section \<open>The counts of a row\<close>

inductive under :: "conversation_node list \<Rightarrow> i64 \<Rightarrow> i64 \<Rightarrow> bool" for nodes r where
  under_child: "n \<in> set nodes \<Longrightarrow> parent_in nodes n = Some r \<Longrightarrow> under nodes r (cn_id n)"
| under_deeper: "under nodes r p \<Longrightarrow> n \<in> set nodes \<Longrightarrow> parent_in nodes n = Some p \<Longrightarrow> under nodes r (cn_id n)"

lemma under_trans: "under nodes q i \<Longrightarrow> under nodes p q \<Longrightarrow> under nodes p i"
  by (induction rule: under.induct) (auto intro: under_deeper)

lemma under_parent:
  assumes "under nodes r (cn_id n)" "distinct (map cn_id nodes)" "n \<in> set nodes"
  obtains p where "parent_in nodes n = Some p" "p = r \<or> under nodes r p"
  using assms(1)
proof cases
  case (under_child m)
  then have "m = n" using assms(2,3) by (auto simp: distinct_map inj_on_def)
  then show ?thesis using under_child that by blast
next
  case (under_deeper p m)
  then have "m = n" using assms(2,3) by (auto simp: distinct_map inj_on_def)
  then show ?thesis using under_deeper that by blast
qed

text \<open>A conversation under a root isn't under itself.\<close>

lemma shown_not_under:
  assumes "distinct (map cn_id nodes)" "shown nodes {} r" shows "\<not> under nodes r r"
  using assms(2)
proof induction
  case (shown_root n)
  show ?case
  proof
    assume "under nodes (cn_id n) (cn_id n)"
    then obtain q where "parent_in nodes n = Some q" using assms(1) shown_root(1) by (rule under_parent)
    then show False using shown_root(2) by simp
  qed
next
  case (shown_child p n)
  have below: "under nodes p (cn_id n)" using shown_child(3,4) by (rule under_child)
  show ?case
  proof
    assume "under nodes (cn_id n) (cn_id n)"
    then obtain q where q: "parent_in nodes n = Some q" "q = cn_id n \<or> under nodes (cn_id n) q"
      using assms(1) shown_child(3) by (rule under_parent)
    have "q = p" using q(1) shown_child(4) by simp
    moreover have "p \<noteq> cn_id n" using parent_in_Some [OF shown_child(4)] by simp
    ultimately have "under nodes (cn_id n) p" using q(2) by simp
    then show False using under_trans [OF _ below] shown_child(5) by blast
  qed
qed

definition walking :: "conversation_node list \<Rightarrow> i64 \<Rightarrow> i64 set \<Rightarrow> conversation_node list \<Rightarrow> bool" where
  "walking nodes r seen work \<longleftrightarrow> r \<in> seen \<and> distinct (map cn_id work) \<and>
     (\<forall>n\<in>set work. n \<in> set nodes \<and> cn_id n \<notin> seen \<and> (\<exists>p\<in>seen. parent_in nodes n = Some p)) \<and>
     (\<forall>n\<in>set nodes. \<forall>p\<in>seen. parent_in nodes n = Some p \<longrightarrow> cn_id n \<in> seen \<union> cn_id ` set work) \<and>
     (\<forall>n\<in>set nodes. cn_id n \<in> seen \<and> cn_id n \<noteq> r \<longrightarrow> (\<exists>p\<in>seen. parent_in nodes n = Some p)) \<and>
     (\<forall>s\<in>seen. s = r \<or> under nodes r s)"

lemma walking_work_under: "walking nodes r seen work \<Longrightarrow> n \<in> set work \<Longrightarrow> under nodes r (cn_id n)"
  unfolding walking_def by (metis under_child under_deeper)

lemma walking_step:
  assumes walk: "walking nodes r seen (c # work)" and ids: "distinct (map cn_id nodes)" and top: "\<not> under nodes r r"
  shows "walking nodes r (insert (cn_id c) seen) (children_of nodes (cn_id c) @ work)"
proof -
  let ?kids = "children_of nodes (cn_id c)"
  have c: "c \<in> set nodes" "cn_id c \<notin> seen" "under nodes r (cn_id c)"
    using walk walking_work_under [OF walk, of c] by (auto simp: walking_def)
  have kid: "n \<in> set nodes" "parent_in nodes n = Some (cn_id c)" "cn_id n \<noteq> cn_id c" "cn_id n \<noteq> r" "cn_id n \<notin> seen"
    if "n \<in> set ?kids" for n
  proof -
    show n: "n \<in> set nodes" "parent_in nodes n = Some (cn_id c)" using that by (simp_all add: set_children)
    then show "cn_id n \<noteq> cn_id c" using parent_in_Some by fastforce
    have "under nodes r (cn_id n)" using c(3) n by (rule under_deeper)
    then show "cn_id n \<noteq> r" using top by auto
    then show "cn_id n \<notin> seen" using walk n c(2) by (fastforce simp: walking_def)
  qed
  have "distinct (map cn_id ?kids)"
  proof -
    have "distinct (map cn_id (filter (\<lambda>n. parent_in nodes n = Some (cn_id c)) nodes))" using ids by (rule distinct_map_filter)
    then show ?thesis by (simp add: children_of_def distinct_map)
  qed
  moreover have "cn_id n \<notin> cn_id ` set work" if "n \<in> set ?kids" for n
  proof
    assume "cn_id n \<in> cn_id ` set work"
    then obtain m where m: "m \<in> set work" "cn_id m = cn_id n" by auto
    then have "m \<in> set nodes" using walk by (auto simp: walking_def)
    then have "m = n" using m(2) kid(1) [OF that] ids by (auto simp: distinct_map inj_on_def)
    then have "cn_id c \<in> seen" using walk m(1) kid(2) [OF that] by (fastforce simp: walking_def)
    then show False using c(2) by simp
  qed
  ultimately have "distinct (map cn_id (?kids @ work))" using walk by (auto simp: walking_def)
  moreover have "n \<in> set nodes \<and> cn_id n \<notin> insert (cn_id c) seen \<and> (\<exists>p\<in>insert (cn_id c) seen. parent_in nodes n = Some p)"
    if "n \<in> set (?kids @ work)" for n
  proof (cases "n \<in> set ?kids")
    case True
    then show ?thesis using kid by simp
  next
    case False
    then have n: "n \<in> set work" using that by simp
    have "cn_id c \<notin> cn_id ` set work" using walk by (simp add: walking_def)
    then have "cn_id n \<noteq> cn_id c" using n by (metis imageI)
    then show ?thesis using walk n by (auto simp: walking_def)
  qed
  moreover have "cn_id n \<in> insert (cn_id c) seen \<union> cn_id ` set (?kids @ work)"
    if "n \<in> set nodes" "p \<in> insert (cn_id c) seen" "parent_in nodes n = Some p" for n p
  proof (cases "p = cn_id c")
    case True
    then have "n \<in> set ?kids" using that by (simp add: set_children)
    then show ?thesis by simp
  next
    case False
    then show ?thesis using that walk by (auto simp: walking_def)
  qed
  moreover have "\<exists>p\<in>insert (cn_id c) seen. parent_in nodes n = Some p"
    if "n \<in> set nodes" "cn_id n \<in> insert (cn_id c) seen" "cn_id n \<noteq> r" for n
  proof (cases "cn_id n = cn_id c")
    case True
    then have "n = c" using that(1) c(1) ids by (auto simp: distinct_map inj_on_def)
    then show ?thesis using walk by (auto simp: walking_def)
  next
    case False
    then show ?thesis using that walk by (auto simp: walking_def)
  qed
  moreover have "r \<in> insert (cn_id c) seen" "\<forall>s\<in>insert (cn_id c) seen. s = r \<or> under nodes r s"
    using walk c(3) by (simp_all add: walking_def)
  ultimately show ?thesis unfolding walking_def by blast
qed

lemma descendants_walk:
  assumes "distinct (map cn_id nodes)" "\<not> under nodes r r" "walking nodes r seen work"
  shows "distinct (map cn_id (descendants_from nodes seen work)) \<and> cn_id ` set (descendants_from nodes seen work) \<inter> seen = {}
    \<and> (\<forall>n\<in>set (descendants_from nodes seen work). n \<in> set nodes \<and> under nodes r (cn_id n))
    \<and> (\<forall>n\<in>set nodes. \<forall>p\<in>seen \<union> cn_id ` set (descendants_from nodes seen work).
        parent_in nodes n = Some p \<longrightarrow> cn_id n \<in> seen \<union> cn_id ` set (descendants_from nodes seen work))"
  using assms
proof (induction nodes seen work rule: descendants_from.induct)
  case (1 nodes seen)
  then show ?case by (simp add: walking_def)
next
  case (2 nodes seen c work)
  have c: "c \<in> set nodes" "cn_id c \<notin> seen" "under nodes r (cn_id c)"
    using 2(5) walking_work_under [OF 2(5), of c] by (auto simp: walking_def)
  from 2(2) [OF c(2) 2(3,4) walking_step [OF 2(5,3,4)]]
  show ?case using c by auto
qed

lemma walking_start:
  assumes "distinct (map cn_id nodes)" shows "walking nodes r {r} (children_of nodes r)"
proof -
  have "distinct (map cn_id (filter (\<lambda>n. parent_in nodes n = Some r) nodes))" using assms by (rule distinct_map_filter)
  then have "distinct (map cn_id (children_of nodes r))" by (simp add: children_of_def distinct_map)
  moreover have "cn_id n \<noteq> r" if "parent_in nodes n = Some r" for n using parent_in_Some [OF that] by auto
  ultimately show ?thesis by (auto simp: walking_def set_children)
qed

lemma descendants_are_under:
  assumes "distinct (map cn_id nodes)" "shown nodes {} r"
  shows "distinct (descendants nodes r) \<and> set (descendants nodes r) = {n \<in> set nodes. under nodes r (cn_id n)}"
proof -
  have top: "\<not> under nodes r r" using assms by (rule shown_not_under)
  note walk = descendants_walk [OF assms(1) top walking_start [OF assms(1)]]
  have "i \<in> cn_id ` set (descendants nodes r)" if "under nodes r i" for i
    using that
  proof induction
    case (under_child n)
    then have "cn_id n \<noteq> r" using parent_in_Some by fastforce
    then show ?case using walk under_child by (auto simp: descendants_def)
  next
    case (under_deeper p n)
    have "under nodes r (cn_id n)" using under_deeper(1,2,3) by (rule under.under_deeper)
    then have "cn_id n \<noteq> r" using top by auto
    then show ?case using walk under_deeper(2-4) by (auto simp: descendants_def)
  qed
  moreover have "n = m" if "n \<in> set nodes" "m \<in> set nodes" "cn_id n = cn_id m" for n m
    using that assms(1) by (auto simp: distinct_map inj_on_def)
  ultimately have "n \<in> set (descendants nodes r)" if "n \<in> set nodes" "under nodes r (cn_id n)" for n
    using that walk by (fastforce simp: descendants_def)
  then show ?thesis using walk by (auto simp: descendants_def distinct_map)
qed

lemma waiting_from_counts: "waiting_from nodes seen work = length (filter cn_waiting (descendants_from nodes seen work))"
  by (induction nodes seen work rule: waiting_from.induct) auto

lemma shown_unfold: "shown nodes collapsed i \<Longrightarrow> shown nodes {} i"
  by (induction rule: shown.induct) (auto intro: shown.intros)

lemma rows_are_of_nodes: "row \<in> set (push_subtrees nodes collapsed placed work) \<Longrightarrow> \<exists>n d. row = row_of nodes collapsed n d"
  by (induction nodes collapsed placed work rule: push_subtrees.induct) (auto simp: Let_def split: if_splits)

lemma count_filter: "distinct xs \<Longrightarrow> set xs = A \<Longrightarrow> length (filter P xs) = card {x \<in> A. P x}"
  by (metis distinct_card distinct_filter set_filter)

text \<open>
  A row's counts are the tree's: folded or not, a row says how many conversations it has under it at any depth, how many of them
  are working and how many wait for the user, each counted once.
\<close>

theorem rows_count_what_is_under:
  assumes "distinct (map cn_id nodes)" "row \<in> set (build_tree nodes collapsed)"
  shows "tr_agents_under row = card {n \<in> set nodes. under nodes (cn_id (tr_node row)) (cn_id n)}
    \<and> tr_busy_under row = card {n \<in> set nodes. under nodes (cn_id (tr_node row)) (cn_id n) \<and> cn_busy n}
    \<and> tr_waiting_under row = card {n \<in> set nodes. under nodes (cn_id (tr_node row)) (cn_id n) \<and> cn_waiting n}"
proof -
  let ?r = "cn_id (tr_node row)"
  have "?r \<in> set (row_ids (build_tree nodes collapsed))" using assms(2) by auto
  then have "shown nodes {} ?r" using rows_are_shown [of nodes collapsed] shown_unfold by blast
  note all = descendants_are_under [OF assms(1) this]
  obtain n d where row: "row = row_of nodes collapsed n d"
    using rows_are_of_nodes assms(2) unfolding build_tree_def by blast
  have counts: "length (filter P (descendants nodes ?r)) = card {n \<in> set nodes. under nodes ?r (cn_id n) \<and> P n}" for P
    using count_filter [of "descendants nodes ?r" _ P] all by simp
  show ?thesis
    using counts [of "\<lambda>_. True"] counts [of cn_busy] counts [of cn_waiting] row
    by (simp add: row_of_def Let_def waiting_under_def waiting_from_counts descendants_def)
qed

theorem rows_count_what_is_under_witness:
  "\<exists>row\<in>set (build_tree sample_list {}). cn_id (tr_node row) = 3
     \<and> tr_agents_under row = card {n \<in> set sample_list. under sample_list 3 (cn_id n)}"
proof -
  have "3 \<in> set (row_ids (build_tree sample_list {}))" using rows_are_shown [of sample_list "{}"] sample_shown by blast
  then obtain row where "row \<in> set (build_tree sample_list {})" "cn_id (tr_node row) = 3" by auto
  then show ?thesis using rows_count_what_is_under [OF sample_ids(1), of row "{}"] by auto
qed

end
