(* ===== verification/Notifier.thy ===== *)
theory Notifier
  imports Chat_Page "HOL-Library.AList"
begin

text \<open>
  \<open>src/frontend/notifications.rs\<close>: a tab's desktop notifications and the count in its title. The task that owns them handles
  one message of the page's script at a time, with what its queues hold then; the server's answers
  (\<open>src/api/notifications.rs\<close>) and the conversation shown may differ at each request it makes in between. The commands it sends
  the page are its log.
\<close>

section \<open>The decisions\<close>

datatype permission = Granted | Denied | NotAsked

definition permission_from_js :: "string \<Rightarrow> permission" where
  "permission_from_js s = (if s = ''granted'' then Granted else if s = ''denied'' then Denied else NotAsked)"

datatype notify_mode = Unavailable | Unsupported | Blocked | Off | On

fun mode_label :: "notify_mode \<Rightarrow> string" where
  "mode_label Unavailable = ''Desktop notifications need HTTPS''"
| "mode_label Unsupported = ''Notifications aren't supported in this browser''"
| "mode_label Blocked = ''Notifications blocked in site settings''"
| "mode_label Off = ''Turn on notifications''"
| "mode_label On = ''Notifications on''"

definition mode_enabled :: "notify_mode \<Rightarrow> bool" where
  "mode_enabled m \<longleftrightarrow> m = Off \<or> m = On"

fun mode_hint :: "notify_mode \<Rightarrow> string option" where
  "mode_hint Unavailable = Some ''Notifications need a secure origin: https://localhost:8443 works as shipped''"
| "mode_hint _ = None"

definition decide_mode :: "bool \<Rightarrow> bool \<Rightarrow> bool \<Rightarrow> permission \<Rightarrow> bool \<Rightarrow> bool \<Rightarrow> notify_mode" where
  "decide_mode secure_context has_notification has_locks permission constructor_throws setting_on =
     (if \<not> secure_context \<or> \<not> has_notification \<or> \<not> has_locks then Unavailable
      else if constructor_throws then Unsupported
      else if permission = Denied then Blocked
      else if setting_on \<and> permission = Granted then On
      else Off)"

definition should_notify :: "bool \<Rightarrow> bool \<Rightarrow> bool \<Rightarrow> bool \<Rightarrow> bool" where
  "should_notify setting_on visible focused showing_this \<longleftrightarrow> setting_on \<and> \<not> (visible \<and> focused \<and> showing_this)"

text \<open>The em dash of a question's body.\<close>

definition em_dash :: string where
  "em_dash = map char_of [226, 128, 148::nat]"

definition notification_text :: "attention \<Rightarrow> string \<Rightarrow> string option \<Rightarrow> string option \<Rightarrow> string \<times> string" where
  "notification_text attention title question_header message =
     (case attention of
        Question \<Rightarrow> ''smelt has a question''
      | Failed \<Rightarrow> ''smelt: the turn failed''
      | CutOff \<Rightarrow> ''smelt: the reply was cut off''
      | Refused \<Rightarrow> ''smelt: the model refused''
      | Notified \<Rightarrow> ''smelt: '' @ title,
      case (attention, question_header, message) of
        (Question, Some header, _) \<Rightarrow> if header \<noteq> [] then title @ '' '' @ em_dash @ '' '' @ header else title
      | (Notified, _, Some m) \<Rightarrow> if m \<noteq> [] then m else title
      | _ \<Rightarrow> title)"

definition i64_to_string :: "i64 \<Rightarrow> string" where
  "i64_to_string i = (if i < 0 then ''-'' @ nat_to_string (nat (- i)) else nat_to_string (nat i))"

definition notification_tag :: "i64 \<Rightarrow> string" where
  "notification_tag c = ''smelt-conversation-'' @ i64_to_string c"

definition badge_title :: "nat \<Rightarrow> string" where
  "badge_title count = (if count = 0 then ''smelt'' else ''('' @ nat_to_string count @ '') smelt'')"

section \<open>The server's check\<close>

record attention_details =
  ad_title :: string
  ad_attention :: attention
  ad_question_header :: "string option"
  ad_message :: "string option"

definition TRUST_CARD_HEADER :: string where
  "TRUST_CARD_HEADER = ''Trust a repo?''"

text \<open>
  \<open>attention_details\<close>, the outer \<open>None\<close> a query that failed. What the database answers is a parameter: the question pending
  for the user, the repos whose trust cards wait, the conversation's title.
\<close>

record card_queries =
  cq_question :: "pending_question option option"
  cq_requests :: "trust_request list option"
  cq_title :: "string option option"

definition question_card :: "card_queries \<Rightarrow> (attention \<times> string option) option" where
  "question_card q =
     (case cq_question q of
        None \<Rightarrow> None
      | Some (Some asked) \<Rightarrow>
          Some (Question, (case pq_questions asked of [] \<Rightarrow> None | x # _ \<Rightarrow> Some (qu_header x)))
      | Some None \<Rightarrow>
          (case cq_requests q of
             None \<Rightarrow> None
           | Some requests \<Rightarrow> Some (if requests \<noteq> [] then (Question, Some TRUST_CARD_HEADER) else (Notified, None))))"

definition details_of_spell ::
  "world \<Rightarrow> card_queries \<Rightarrow> i64 \<Rightarrow> u64 \<Rightarrow> attention \<Rightarrow> attention_details option option" where
  "details_of_spell w q c generation a =
     (if published_generation c w \<noteq> Some generation then Some None
      else
        (case (if a = Question then question_card q else Some (a, None)) of
           None \<Rightarrow> None
         | Some (a', header) \<Rightarrow>
             let message = (if a' = Notified then published_notice c generation w else None)
             in if a' = Notified \<and> message = None then Some None
                else (case cq_title q of
                   None \<Rightarrow> None
                 | Some title \<Rightarrow>
                     Some (map_option (\<lambda>t. \<lparr>ad_title = t, ad_attention = a', ad_question_header = header,
                                            ad_message = message\<rparr>) title))))"

section \<open>The task's state\<close>

text \<open>What the page's script reports, and the commands it takes. The icon of a title is plain or has a dot.\<close>

datatype page_report =
    Rep_State bool bool bool "string option" bool bool
  | Rep_Tick bool bool bool "string option"
  | Rep_Leader
  | Rep_NotLeader
  | Rep_Click "i64 option"
  | Rep_Other

datatype page_command =
    Cmd_State
  | Cmd_TurnOn
  | Cmd_Setting bool
  | Cmd_Steal
  | Cmd_Notify i64 string string string
  | Cmd_Close i64
  | Cmd_Title string bool

datatype app_event =
    App_PodsChanged
  | App_TurnsChanged
  | App_QuestionsChanged
  | App_NeedsUser i64 attention u64
  | App_ConversationsChanged
  | App_ProvidersChanged
  | App_Unknown

record needs_user_event =
  ne_conversation :: i64
  ne_attention :: attention
  ne_generation :: u64

datatype toggle_request = Toggle_On bool | Toggle_Off

text \<open>\<open>NotifierFeed::needs_user\<close>: the last 256 are kept.\<close>

definition feed_needs_user :: "needs_user_event \<Rightarrow> needs_user_event list \<Rightarrow> needs_user_event list" where
  "feed_needs_user e queue = (if length queue \<ge> 256 then tl queue else queue) @ [e]"

record notifier_page =
  np_setting :: bool
  np_secure :: bool
  np_has_notification :: bool
  np_has_locks :: bool
  np_permission :: permission
  np_throws :: bool
  np_visible :: bool
  np_focused :: bool

definition page_mode :: "notifier_page \<Rightarrow> notify_mode" where
  "page_mode p =
     decide_mode (np_secure p) (np_has_notification p) (np_has_locks p) (np_permission p) (np_throws p) (np_setting p)"

text \<open>
  A \<open>BTreeMap\<close> is an association list with distinct keys, read in the keys' order. \<open>nt_asked\<close> counts the requests to the
  server, so that each may be answered at its own time.
\<close>

type_synonym spells = "(i64 \<times> attention \<times> u64) list"

record notifier =
  nt_page :: notifier_page
  nt_mode :: notify_mode
  nt_leader :: bool
  nt_streaming :: bool
  nt_needers :: spells
  nt_open :: spells
  nt_title :: string
  nt_revalidated :: u64
  nt_asked :: nat
  nt_stale_bundle :: bool
  nt_went_to :: "i64 list"
  nt_sent :: "page_command list"

definition notifier_start :: notifier where
  "notifier_start =
     \<lparr>nt_page = \<lparr>np_setting = False, np_secure = False, np_has_notification = False, np_has_locks = False,
                 np_permission = NotAsked, np_throws = False, np_visible = True, np_focused = False\<rparr>,
      nt_mode = Off, nt_leader = False, nt_streaming = False, nt_needers = [], nt_open = [], nt_title = [],
      nt_revalidated = 0, nt_asked = 0, nt_stale_bundle = False, nt_went_to = [], nt_sent = []\<rparr>"

definition send :: "page_command \<Rightarrow> notifier \<Rightarrow> notifier" where
  "send c s = s\<lparr>nt_sent := nt_sent s @ [c]\<rparr>"

text \<open>One turn of the loop meets a world: what is shown and what the server answers, by the requests made so far.\<close>

record surroundings =
  su_shown :: "nat \<Rightarrow> i64 option"
  su_ask :: "nat \<Rightarrow> i64 \<Rightarrow> u64 \<Rightarrow> attention \<Rightarrow> attention_details option option"

definition shown_now :: "surroundings \<Rightarrow> notifier \<Rightarrow> i64 option" where
  "shown_now u s = su_shown u (nt_asked s)"

definition ask :: "surroundings \<Rightarrow> i64 \<Rightarrow> attention \<times> u64 \<Rightarrow> notifier \<Rightarrow> attention_details option option \<times> notifier" where
  "ask u c spell s = (su_ask u (nt_asked s) c (snd spell) (fst spell), s\<lparr>nt_asked := nt_asked s + 1\<rparr>)"

definition watched :: "notifier \<Rightarrow> bool" where
  "watched s \<longleftrightarrow> np_focused (nt_page s) \<and> np_visible (nt_page s)"

section \<open>One event\<close>

definition notify_leader :: "surroundings \<Rightarrow> needs_user_event \<Rightarrow> notifier \<Rightarrow> notifier" where
  "notify_leader u e s =
     (let c = ne_conversation e; spell = (ne_attention e, ne_generation e); p = nt_page s
      in if \<not> should_notify (np_setting p) (np_visible p) (np_focused p) (shown_now u s = Some c) then s
         else if page_mode p \<noteq> On then s
         else if map_of (nt_open s) c = Some spell then s
         else (case ask u c spell s of
             (Some (Some d), s) \<Rightarrow>
               let (heading, body) = notification_text (ad_attention d) (ad_title d) (ad_question_header d) (ad_message d);
                   s = send (Cmd_Notify c heading body (notification_tag c)) s
               in s\<lparr>nt_open := AList.update c spell (nt_open s)\<rparr>
           | (_, s) \<Rightarrow> s))"

text \<open>\<open>revalidate_open\<close>: a spell the server no longer stands by goes; a request that failed says nothing.\<close>

definition recheck_needer :: "surroundings \<Rightarrow> i64 \<Rightarrow> notifier \<Rightarrow> notifier" where
  "recheck_needer u c s =
     (case map_of (nt_needers s) c of
        None \<Rightarrow> s
      | Some spell \<Rightarrow>
          let (checked, s) = ask u c spell s
          in if checked = Some None then s\<lparr>nt_needers := AList.delete c (nt_needers s)\<rparr> else s)"

definition recheck_open :: "surroundings \<Rightarrow> i64 \<Rightarrow> notifier \<Rightarrow> notifier" where
  "recheck_open u c s =
     (case map_of (nt_open s) c of
        None \<Rightarrow> s
      | Some spell \<Rightarrow>
          let (checked, s) = ask u c spell s
          in if checked = Some None then send (Cmd_Close c) (s\<lparr>nt_open := AList.delete c (nt_open s)\<rparr>) else s)"

definition recheck :: "surroundings \<Rightarrow> i64 \<Rightarrow> notifier \<Rightarrow> notifier" where
  "recheck u c s = recheck_open u c (recheck_needer u c s)"

definition revalidate_open :: "surroundings \<Rightarrow> notifier \<Rightarrow> notifier" where
  "revalidate_open u s =
     fold (recheck u) (sort (remdups (map fst (nt_needers s) @ map fst (nt_open s)))) s"

definition count_needer :: "needs_user_event \<Rightarrow> notifier \<Rightarrow> notifier" where
  "count_needer e s =
     (if watched s then s
      else s\<lparr>nt_needers := AList.update (ne_conversation e) (ne_attention e, ne_generation e) (nt_needers s)\<rparr>)"

definition take_pending :: "surroundings \<Rightarrow> needs_user_event \<Rightarrow> notifier \<Rightarrow> notifier" where
  "take_pending u e s = (let s = count_needer e s in if nt_leader s then notify_leader u e s else s)"

fun take_queued :: "surroundings \<Rightarrow> app_event \<Rightarrow> notifier \<Rightarrow> notifier" where
  "take_queued u (App_NeedsUser c a g) s =
     (let e = \<lparr>ne_conversation = c, ne_attention = a, ne_generation = g\<rparr> in notify_leader u e (count_needer e s))"
| "take_queued u App_TurnsChanged s = revalidate_open u s"
| "take_queued u App_QuestionsChanged s = revalidate_open u s"
| "take_queued u App_ConversationsChanged s = revalidate_open u s"
| "take_queued u App_Unknown s = s\<lparr>nt_stale_bundle := True\<rparr>"
| "take_queued u App_PodsChanged s = s"
| "take_queued u App_ProvidersChanged s = s"

section \<open>One message of the page\<close>

definition new_permission :: "string option \<Rightarrow> notifier_page \<Rightarrow> permission" where
  "new_permission given p = (case given of Some text \<Rightarrow> permission_from_js text | None \<Rightarrow> np_permission p)"

definition set_mode :: "notifier \<Rightarrow> notifier" where
  "set_mode s = (let m = page_mode (nt_page s) in if nt_mode s \<noteq> m then s\<lparr>nt_mode := m\<rparr> else s)"

text \<open>A message the loop doesn't know ends this turn of it: \<open>None\<close>.\<close>

fun take_report :: "page_report \<Rightarrow> notifier \<Rightarrow> notifier option" where
  "take_report (Rep_State secure has_notification has_locks permission throws setting) s =
     (let p = nt_page s
      in Some (set_mode (s\<lparr>nt_page := p\<lparr>np_secure := secure, np_has_notification := has_notification,
           np_has_locks := has_locks, np_permission := new_permission permission p, np_throws := throws,
           np_setting := setting\<rparr>\<rparr>)))"
| "take_report (Rep_Tick setting focused visible permission) s =
     (let p = nt_page s
      in Some (set_mode (s\<lparr>nt_page := p\<lparr>np_setting := setting, np_focused := focused, np_visible := visible,
           np_permission := new_permission permission p\<rparr>\<rparr>)))"
| "take_report Rep_Leader s = Some (s\<lparr>nt_leader := True, nt_streaming := True\<rparr>)"
| "take_report Rep_NotLeader s = Some (s\<lparr>nt_leader := False, nt_streaming := False\<rparr>)"
| "take_report (Rep_Click given) s =
     Some (case given of
        None \<Rightarrow> s
      | Some c \<Rightarrow>
          send (Cmd_Close c)
            (s\<lparr>nt_went_to := nt_went_to s @ [c], nt_needers := AList.delete c (nt_needers s),
               nt_open := AList.delete c (nt_open s)\<rparr>))"
| "take_report Rep_Other s = None"

definition take_toggle :: "toggle_request option \<Rightarrow> notifier \<Rightarrow> notifier" where
  "take_toggle request s =
     (case request of
        None \<Rightarrow> s
      | Some (Toggle_On granted) \<Rightarrow> send (if granted then Cmd_TurnOn else Cmd_State) s
      | Some Toggle_Off \<Rightarrow> send (Cmd_Setting False) s)"

definition close_elsewhere :: "surroundings \<Rightarrow> notifier \<Rightarrow> notifier" where
  "close_elsewhere u s =
     (if \<not> nt_leader s \<and> shown_now u s = None
      then (fold (\<lambda>c. send (Cmd_Close c)) (sort (map fst (nt_open s))) s)\<lparr>nt_open := [], nt_needers := []\<rparr>
      else s)"

definition revalidate_on_feed :: "surroundings \<Rightarrow> u64 \<Rightarrow> notifier \<Rightarrow> notifier" where
  "revalidate_on_feed u revalidate s =
     (if revalidate \<noteq> nt_revalidated s then revalidate_open u (s\<lparr>nt_revalidated := revalidate\<rparr>) else s)"

definition look_at_shown :: "surroundings \<Rightarrow> notifier \<Rightarrow> notifier" where
  "look_at_shown u s =
     (if watched s then
        (case shown_now u s of
           Some c \<Rightarrow>
             let was_open = map_of (nt_open s) c \<noteq> None;
                 s = s\<lparr>nt_needers := AList.delete c (nt_needers s), nt_open := AList.delete c (nt_open s)\<rparr>
             in if was_open then send (Cmd_Close c) s else s
         | None \<Rightarrow> s)
      else s)"

definition shown_count :: "notifier \<Rightarrow> nat" where
  "shown_count s = (if watched s then 0 else length (nt_needers s))"

definition send_title :: "notifier \<Rightarrow> notifier" where
  "send_title s =
     (let title = badge_title (shown_count s)
      in if title \<noteq> nt_title s then send (Cmd_Title title (shown_count s \<noteq> 0)) (s\<lparr>nt_title := title\<rparr>) else s)"

text \<open>The queues and the toggle are what the loop finds when it reads them.\<close>

record inbox =
  ib_report :: page_report
  ib_toggle :: "toggle_request option"
  ib_pending :: "needs_user_event list"
  ib_queued :: "app_event list"
  ib_revalidate :: u64
  ib_around :: surroundings

definition notifier_step :: "notifier \<Rightarrow> inbox \<Rightarrow> notifier" where
  "notifier_step s i =
     (let u = ib_around i
      in case take_report (ib_report i) s of
        None \<Rightarrow> s
      | Some s \<Rightarrow>
          let s = take_toggle (ib_toggle i) s;
              s = close_elsewhere u s;
              s = fold (take_pending u) (ib_pending i) s;
              s = fold (take_queued u) (ib_queued i) s;
              s = revalidate_on_feed u (ib_revalidate i) s;
              s = look_at_shown u s
          in send_title s)"

end
