(* ===== verification/Notifier_Properties.thy ===== *)
theory Notifier_Properties
  imports Notifier Machines
begin

text \<open>
  What a tab's notifications keep to, whatever the page reports, the server answers and other tabs do: what is up is what the
  task knows to be up, spells the server no longer stands by are closed, and a notification is shown on the server's word only.
\<close>

section \<open>The task's books\<close>

abbreviation keys :: "('a \<times> 'b) list \<Rightarrow> 'a set" where
  "keys m \<equiv> fst ` set m"

text \<open>The notifications that may be up, and the title, when the page has carried out the commands.\<close>

fun showing_after :: "page_command \<Rightarrow> i64 set \<Rightarrow> i64 set" where
  "showing_after (Cmd_Notify c _ _ _) up = insert c up"
| "showing_after (Cmd_Close c) up = up - {c}"
| "showing_after _ up = up"

fun titled_after :: "page_command \<Rightarrow> string \<Rightarrow> string" where
  "titled_after (Cmd_Title t _) _ = t"
| "titled_after _ t = t"

definition may_show :: "page_command list \<Rightarrow> i64 set" where
  "may_show cs = fold showing_after cs {}"

definition titled :: "page_command list \<Rightarrow> string" where
  "titled cs = fold titled_after cs []"

lemma may_show_snoc [simp]: "may_show (cs @ [c]) = showing_after c (may_show cs)"
  by (simp add: may_show_def)

lemma titled_snoc [simp]: "titled (cs @ [c]) = titled_after c (titled cs)"
  by (simp add: titled_def)

definition notifier_ok :: "notifier \<Rightarrow> bool" where
  "notifier_ok s \<longleftrightarrow> distinct (map fst (nt_needers s)) \<and> distinct (map fst (nt_open s))
     \<and> may_show (nt_sent s) = keys (nt_open s) \<and> titled (nt_sent s) = nt_title s"

lemma keys_update [simp]: "keys (AList.update k v m) = insert k (keys m)"
  by (induction m) auto

lemma keys_delete [simp]: "keys (AList.delete k m) = keys m - {k}"
  by (induction m) auto

lemma map_of_update [simp]: "map_of (AList.update k v m) = (map_of m)(k \<mapsto> v)"
  by (rule update_conv')

lemma map_of_delete [simp]: "map_of (AList.delete k m) = (map_of m)(k := None)"
  by (rule delete_conv')

lemmas distinct_books = distinct_update distinct_delete

lemma send_simps [simp]:
  "nt_page (send c s) = nt_page s" "nt_needers (send c s) = nt_needers s" "nt_open (send c s) = nt_open s"
  "nt_leader (send c s) = nt_leader s" "nt_title (send c s) = nt_title s" "nt_sent (send c s) = nt_sent s @ [c]"
  "nt_asked (send c s) = nt_asked s" "nt_mode (send c s) = nt_mode s" "nt_revalidated (send c s) = nt_revalidated s"
  by (simp_all add: send_def)

lemma ask_simps [simp]:
  "fst (ask u c spell s) = su_ask u (nt_asked s) c (snd spell) (fst spell)"
  "snd (ask u c spell s) = s\<lparr>nt_asked := nt_asked s + 1\<rparr>"
  by (simp_all add: ask_def)

text \<open>One event: nothing, a request, or a request and a notification.\<close>

lemma notify_leader_cases:
  obtains (nothing) "notify_leader u e s = s"
  | (asked) "notify_leader u e s = s\<lparr>nt_asked := nt_asked s + 1\<rparr>"
  | (notified) d where
      "np_setting (nt_page s)" "page_mode (nt_page s) = On"
      "\<not> (np_visible (nt_page s) \<and> np_focused (nt_page s) \<and> shown_now u s = Some (ne_conversation e))"
      "map_of (nt_open s) (ne_conversation e) \<noteq> Some (ne_attention e, ne_generation e)"
      "su_ask u (nt_asked s) (ne_conversation e) (ne_generation e) (ne_attention e) = Some (Some d)"
      "notify_leader u e s =
         s\<lparr>nt_asked := nt_asked s + 1,
           nt_open := AList.update (ne_conversation e) (ne_attention e, ne_generation e) (nt_open s),
           nt_sent := nt_sent s @ [case notification_text (ad_attention d) (ad_title d) (ad_question_header d) (ad_message d) of
             (heading, body) \<Rightarrow> Cmd_Notify (ne_conversation e) heading body (notification_tag (ne_conversation e))]\<rparr>"
proof -
  let ?spell = "(ne_attention e, ne_generation e)"
  consider "\<not> should_notify (np_setting (nt_page s)) (np_visible (nt_page s)) (np_focused (nt_page s))
       (shown_now u s = Some (ne_conversation e)) \<or> page_mode (nt_page s) \<noteq> On \<or> map_of (nt_open s) (ne_conversation e) = Some ?spell"
    | "should_notify (np_setting (nt_page s)) (np_visible (nt_page s)) (np_focused (nt_page s))
       (shown_now u s = Some (ne_conversation e))" "page_mode (nt_page s) = On" "map_of (nt_open s) (ne_conversation e) \<noteq> Some ?spell"
    by blast
  then show thesis
  proof cases
    case 1
    then have "notify_leader u e s = s" by (auto simp: notify_leader_def Let_def)
    then show ?thesis by (rule nothing)
  next
    case 2
    show ?thesis
    proof (cases "su_ask u (nt_asked s) (ne_conversation e) (ne_generation e) (ne_attention e)")
      case None
      then have "notify_leader u e s = s\<lparr>nt_asked := nt_asked s + 1\<rparr>" using 2 by (simp add: notify_leader_def ask_def Let_def)
      then show ?thesis by (rule asked)
    next
      case (Some answer)
      show ?thesis
      proof (cases answer)
        case None
        then have "notify_leader u e s = s\<lparr>nt_asked := nt_asked s + 1\<rparr>"
          using 2 Some by (simp add: notify_leader_def ask_def Let_def)
        then show ?thesis by (rule asked)
      next
        case (Some d)
        have "notify_leader u e s =
         s\<lparr>nt_asked := nt_asked s + 1,
           nt_open := AList.update (ne_conversation e) (ne_attention e, ne_generation e) (nt_open s),
           nt_sent := nt_sent s @ [case notification_text (ad_attention d) (ad_title d) (ad_question_header d) (ad_message d) of
             (heading, body) \<Rightarrow> Cmd_Notify (ne_conversation e) heading body (notification_tag (ne_conversation e))]\<rparr>"
          using 2 \<open>su_ask u _ _ _ _ = Some answer\<close> Some
          by (simp add: notify_leader_def ask_def Let_def send_def split: prod.split)
        then show ?thesis using notified 2 \<open>su_ask u _ _ _ _ = Some answer\<close> Some by (auto simp: should_notify_def)
      qed
    qed
  qed
qed

lemma notify_leader_ok: "notifier_ok s \<Longrightarrow> notifier_ok (notify_leader u e s)"
proof (cases rule: notify_leader_cases [of u e s])
  case (notified d)
  assume "notifier_ok s"
  then show ?thesis unfolding notified(6) by (simp add: notifier_ok_def distinct_books split: prod.split)
qed (simp_all add: notifier_ok_def)

lemma recheck_needer_ok: "notifier_ok s \<Longrightarrow> notifier_ok (recheck_needer u c s)"
  by (simp add: recheck_needer_def ask_def notifier_ok_def distinct_books split: option.split)

lemma recheck_open_ok: "notifier_ok s \<Longrightarrow> notifier_ok (recheck_open u c s)"
  by (simp add: recheck_open_def ask_def notifier_ok_def distinct_books Let_def split: option.split)

lemma fold_ok: "(\<And>x s. notifier_ok s \<Longrightarrow> notifier_ok (f x s)) \<Longrightarrow> notifier_ok s \<Longrightarrow> notifier_ok (fold f xs s)"
  by (induction xs arbitrary: s) auto

lemma revalidate_ok: "notifier_ok s \<Longrightarrow> notifier_ok (revalidate_open u s)"
  unfolding revalidate_open_def by (rule fold_ok) (simp_all add: recheck_def recheck_open_ok recheck_needer_ok)

lemma count_needer_ok: "notifier_ok s \<Longrightarrow> notifier_ok (count_needer e s)"
  by (simp add: count_needer_def notifier_ok_def distinct_books)

lemma take_pending_ok: "notifier_ok s \<Longrightarrow> notifier_ok (take_pending u e s)"
  by (simp add: take_pending_def Let_def notify_leader_ok count_needer_ok)

lemma take_queued_ok: "notifier_ok s \<Longrightarrow> notifier_ok (take_queued u e s)"
  by (cases e) (simp_all add: Let_def notify_leader_ok count_needer_ok revalidate_ok, simp add: notifier_ok_def)

lemma take_report_ok:
  assumes "notifier_ok s" "take_report r s = Some t" shows "notifier_ok t"
proof -
  have mode: "notifier_ok (set_mode (s\<lparr>nt_page := p\<rparr>))" for p
    using assms(1) by (simp add: set_mode_def notifier_ok_def Let_def)
  have "pred_option notifier_ok (take_report r s)"
    using assms(1) by (cases r) (simp_all add: mode Let_def, simp_all add: notifier_ok_def distinct_books split: option.split)
  then show ?thesis using assms(2) by simp
qed

lemma take_toggle_ok: "notifier_ok s \<Longrightarrow> notifier_ok (take_toggle r s)"
  by (auto simp: take_toggle_def notifier_ok_def split: option.split toggle_request.split)

lemma close_all:
  "nt_sent (fold (\<lambda>c. send (Cmd_Close c)) cs s) = nt_sent s @ map Cmd_Close cs"
  "nt_title (fold (\<lambda>c. send (Cmd_Close c)) cs s) = nt_title s"
  "nt_page (fold (\<lambda>c. send (Cmd_Close c)) cs s) = nt_page s"
  by (induction cs arbitrary: s) auto

lemma closed_all: "fold showing_after (map Cmd_Close cs) up = up - set cs"
  by (induction cs arbitrary: up) auto

lemma untitled_closes: "fold titled_after (map Cmd_Close cs) t = t"
  by (induction cs) auto

lemma close_elsewhere_ok: "notifier_ok s \<Longrightarrow> notifier_ok (close_elsewhere u s)"
  by (simp add: close_elsewhere_def notifier_ok_def close_all may_show_def titled_def closed_all untitled_closes)

lemma look_ok: "notifier_ok s \<Longrightarrow> notifier_ok (look_at_shown u s)"
proof -
  have "k \<notin> keys m" if "map_of m k = None" for k and m :: spells
    using that by (simp add: map_of_eq_None_iff)
  then show "notifier_ok s \<Longrightarrow> notifier_ok (look_at_shown u s)"
    by (auto simp: look_at_shown_def notifier_ok_def Let_def distinct_books split: option.split)
qed

lemma send_title_ok: "notifier_ok s \<Longrightarrow> notifier_ok (send_title s)"
  by (simp add: send_title_def Let_def notifier_ok_def)

lemma revalidate_on_feed_ok: "notifier_ok s \<Longrightarrow> notifier_ok (revalidate_on_feed u r s)"
proof -
  assume "notifier_ok s"
  then have "notifier_ok (s\<lparr>nt_revalidated := r\<rparr>)" by (simp add: notifier_ok_def)
  then show ?thesis using \<open>notifier_ok s\<close> by (simp add: revalidate_on_feed_def revalidate_ok)
qed

lemma notifier_step_ok: "notifier_ok s \<Longrightarrow> notifier_ok (notifier_step s i)"
  unfolding notifier_step_def Let_def
  by (auto split: option.split intro!: send_title_ok look_ok revalidate_on_feed_ok fold_ok take_pending_ok take_queued_ok
      close_elsewhere_ok take_toggle_ok intro: take_report_ok)

interpretation notifier_runs: machine notifier_start notifier_step notifier_ok
  by unfold_locales (simp_all add: notifier_step_ok, simp add: notifier_ok_def notifier_start_def may_show_def titled_def)

section \<open>A notification is shown on the server's word\<close>

text \<open>
  What a notification rests on: the setting and the permission are on, and at one moment of the turn the server confirmed
  the spell while the user wasn't looking at the conversation. Its text is what the server said then.
\<close>

definition confirmed :: "surroundings \<Rightarrow> notifier_page \<Rightarrow> page_command \<Rightarrow> bool" where
  "confirmed u p cmd \<longleftrightarrow>
     (case cmd of
        Cmd_Notify c heading body tag \<Rightarrow>
          np_setting p \<and> page_mode p = On \<and> tag = notification_tag c \<and>
          (\<exists>k a g d. su_ask u k c g a = Some (Some d) \<and> \<not> (np_visible p \<and> np_focused p \<and> su_shown u k = Some c)
             \<and> (heading, body) = notification_text (ad_attention d) (ad_title d) (ad_question_header d) (ad_message d))
      | _ \<Rightarrow> True)"

definition follows :: "surroundings \<Rightarrow> notifier \<Rightarrow> notifier \<Rightarrow> bool" where
  "follows u s t \<longleftrightarrow> nt_page t = nt_page s \<and> (\<exists>cs. nt_sent t = nt_sent s @ cs \<and> list_all (confirmed u (nt_page s)) cs)"

lemma follows_refl [simp]: "follows u s s"
  by (simp add: follows_def)

lemma follows_trans: "follows u s t \<Longrightarrow> follows u t v \<Longrightarrow> follows u s v"
  by (auto simp: follows_def)

lemma follows_fold: "(\<And>x s. follows u s (f x s)) \<Longrightarrow> follows u s (fold f xs s)"
  by (induction xs arbitrary: s) (auto intro: follows_trans)

lemma follows_quiet: "nt_page t = nt_page s \<Longrightarrow> nt_sent t = nt_sent s \<Longrightarrow> follows u s t"
  by (simp add: follows_def)

lemma confirmed_plain [simp]:
  "confirmed u p (Cmd_Close c)" "confirmed u p (Cmd_Title t d)" "confirmed u p Cmd_State" "confirmed u p Cmd_TurnOn"
  "confirmed u p (Cmd_Setting b)"
  by (simp_all add: confirmed_def)

lemma follows_send: "nt_page t = nt_page s \<Longrightarrow> nt_sent t = nt_sent s \<Longrightarrow> confirmed u (nt_page s) c \<Longrightarrow> follows u s (send c t)"
  by (simp add: follows_def)

lemma follows_notify: "follows u s (notify_leader u e s)"
proof (cases rule: notify_leader_cases [of u e s])
  case (notified d)
  let ?text = "notification_text (ad_attention d) (ad_title d) (ad_question_header d) (ad_message d)"
  have "confirmed u (nt_page s) (Cmd_Notify (ne_conversation e) (fst ?text) (snd ?text) (notification_tag (ne_conversation e)))"
    using notified(1-3,5) unfolding confirmed_def shown_now_def by force
  then show ?thesis unfolding follows_def notified(6) by (simp add: case_prod_beta)
qed (simp_all add: follows_def)

lemma follows_recheck: "follows u s (recheck u c s)"
proof -
  have "follows u s (recheck_needer u c s)" for s
    by (auto simp: recheck_needer_def ask_def Let_def intro!: follows_quiet split: option.split)
  moreover have "follows u s (recheck_open u c s)" for s
    by (auto simp: recheck_open_def ask_def Let_def follows_def split: option.split)
  ultimately show ?thesis unfolding recheck_def by (blast intro: follows_trans)
qed

lemma follows_revalidate: "follows u s (revalidate_open u s)"
  unfolding revalidate_open_def by (rule follows_fold) (rule follows_recheck)

lemma follows_count: "follows u s (count_needer e s)"
  by (simp add: count_needer_def follows_def)

lemma follows_pending: "follows u s (take_pending u e s)"
  using follows_trans [OF follows_count follows_notify] follows_count by (simp add: take_pending_def Let_def)

lemma follows_queued: "follows u s (take_queued u e s)"
proof (cases e)
  case (App_NeedsUser c a g)
  then show ?thesis by (auto simp: Let_def intro: follows_trans follows_count follows_notify)
qed (auto intro: follows_quiet follows_revalidate)

lemma follows_toggle: "follows u s (take_toggle r s)"
  by (auto simp: take_toggle_def intro!: follows_send split: option.split toggle_request.split)

lemma follows_elsewhere: "follows u s (close_elsewhere u s)"
  by (auto simp: close_elsewhere_def follows_def close_all list_all_iff)

lemma follows_feed: "follows u s (revalidate_on_feed u r s)"
proof -
  have "follows u s (s\<lparr>nt_revalidated := r\<rparr>)" by (simp add: follows_def)
  from follows_trans [OF this follows_revalidate] show ?thesis by (simp add: revalidate_on_feed_def)
qed

lemma follows_look: "follows u s (look_at_shown u s)"
  by (auto simp: look_at_shown_def Let_def follows_def split: option.split)

lemma follows_title: "follows u s (send_title s)"
  by (auto simp: send_title_def Let_def intro!: follows_send)

lemma report_sends:
  "take_report r s = Some t \<Longrightarrow> \<exists>cs. nt_sent t = nt_sent s @ cs \<and> list_all (confirmed u p) cs"
  by (cases r) (auto simp: Let_def set_mode_def split: option.splits)

text \<open>The rest of a turn after its report.\<close>

definition after_report :: "inbox \<Rightarrow> notifier \<Rightarrow> notifier" where
  "after_report i s =
     (let u = ib_around i
      in send_title (look_at_shown u (revalidate_on_feed u (ib_revalidate i) (fold (take_queued u) (ib_queued i)
           (fold (take_pending u) (ib_pending i) (close_elsewhere u (take_toggle (ib_toggle i) s)))))))"

lemma notifier_step_report:
  "notifier_step s i = (case take_report (ib_report i) s of None \<Rightarrow> s | Some t \<Rightarrow> after_report i t)"
  by (simp add: notifier_step_def after_report_def Let_def split: option.split)

lemma follows_after_report: "follows (ib_around i) s (after_report i s)"
  unfolding after_report_def Let_def
  by (rule follows_trans [OF _ follows_title] follows_trans [OF _ follows_look] follows_trans [OF _ follows_feed]
      follows_trans [OF _ follows_fold] follows_queued follows_pending follows_trans [OF _ follows_elsewhere] follows_toggle)+

text \<open>
  (C37) A tab shows a notification on the server's word only: in every turn of the loop, each notification sent to the page is one
  the server confirmed during that turn, with the setting on and the permission granted, at a moment the user wasn't looking
  at the conversation, and says what the server answered.
\<close>

theorem notifications_are_confirmed:
  "\<exists>cs. nt_sent (notifier_step s i) = nt_sent s @ cs \<and> list_all (confirmed (ib_around i) (nt_page (notifier_step s i))) cs"
proof (cases "take_report (ib_report i) s")
  case None
  then show ?thesis by (simp add: notifier_step_report)
next
  case (Some t)
  let ?u = "ib_around i" and ?t = "after_report i t"
  obtain cs where "nt_sent t = nt_sent s @ cs" "list_all (confirmed ?u (nt_page ?t)) cs" using report_sends [OF Some] by blast
  moreover obtain ds where "nt_page ?t = nt_page t" "nt_sent ?t = nt_sent t @ ds" "list_all (confirmed ?u (nt_page t)) ds"
    using follows_after_report [of i t] by (auto simp: follows_def)
  ultimately have "nt_sent ?t = nt_sent s @ cs @ ds \<and> list_all (confirmed ?u (nt_page ?t)) (cs @ ds)" by simp
  then show ?thesis using Some by (auto simp: notifier_step_report)
qed

section \<open>One event, one notification\<close>

fun is_notify :: "page_command \<Rightarrow> bool" where
  "is_notify (Cmd_Notify _ _ _ _) = True"
| "is_notify _ = False"

definition notified_of :: "notifier \<Rightarrow> nat" where
  "notified_of s = length (filter is_notify (nt_sent s))"

definition is_open :: "needs_user_event \<Rightarrow> notifier \<Rightarrow> bool" where
  "is_open e s \<longleftrightarrow> map_of (nt_open s) (ne_conversation e) = Some (ne_attention e, ne_generation e)"

lemma notify_once: "is_open e s \<Longrightarrow> notify_leader u e s = s"
  by (simp add: notify_leader_def is_open_def Let_def)

lemma notify_opens:
  "notified_of (notify_leader u e s) = notified_of s
   \<or> notified_of (notify_leader u e s) = Suc (notified_of s) \<and> is_open e (notify_leader u e s)"
  by (cases rule: notify_leader_cases [of u e s]) (simp_all add: notified_of_def is_open_def split: prod.split)

lemma count_needer_same [simp]: "is_open e (count_needer d s) = is_open e s" "notified_of (count_needer d s) = notified_of s"
  by (simp_all add: count_needer_def is_open_def notified_of_def)

text \<open>The event heard on the conversation's stream, and on the leader's.\<close>

definition heard :: "surroundings \<Rightarrow> needs_user_event \<Rightarrow> bool \<Rightarrow> notifier \<Rightarrow> notifier" where
  "heard u e on_own_stream s =
     (if on_own_stream then take_queued u (App_NeedsUser (ne_conversation e) (ne_attention e) (ne_generation e)) s
      else take_pending u e s)"

lemma heard_same:
  "heard u e b s = count_needer e s \<or> heard u e b s = notify_leader u e (count_needer e s)"
  by (cases e) (simp add: heard_def take_pending_def Let_def)

lemma heard_open: "is_open e s \<Longrightarrow> is_open e (heard u e b s) \<and> notified_of (heard u e b s) = notified_of s"
  using heard_same [of u e b s] by (auto simp: notify_once)

lemma all_heard_open: "is_open e s \<Longrightarrow> notified_of (fold (heard u e) bs s) = notified_of s"
  by (induction bs arbitrary: s) (simp_all add: heard_open)

lemma heard_once: "notified_of (fold (heard u e) bs s) \<le> Suc (notified_of s)"
proof (induction bs arbitrary: s)
  case (Cons b bs)
  consider "notified_of (heard u e b s) = notified_of s"
    | "notified_of (heard u e b s) = Suc (notified_of s)" "is_open e (heard u e b s)"
    using heard_same [of u e b s] notify_opens [of u e "count_needer e s"] by auto
  then show ?case
  proof cases
    case 1
    then show ?thesis using Cons [of "heard u e b s"] by simp
  next
    case 2
    then show ?thesis by (simp add: all_heard_open)
  qed
qed simp

text \<open>
  One event shows one notification: however often a tab hears an event, on the stream of the conversation it shows and on the
  leader's own, it sends the page at most one notification for it, whatever the server answers each time.
\<close>

theorem one_event_one_notification:
  "notified_of (fold (heard u e) bs s) \<le> Suc (notified_of s)"
  by (rule heard_once)

section \<open>What the server no longer stands by\<close>

text \<open>A pass over the spells: with the server in one state throughout, each is asked about on its own terms.\<close>

definition standing :: "(i64 \<Rightarrow> u64 \<Rightarrow> attention \<Rightarrow> attention_details option option) \<Rightarrow> i64 \<Rightarrow>
    (attention \<times> u64) option \<Rightarrow> (attention \<times> u64) option" where
  "standing server c spell =
     (case spell of None \<Rightarrow> None | Some (a, g) \<Rightarrow> if server c g a = Some None then None else Some (a, g))"

lemma standing_twice [simp]: "standing server c (standing server c x) = standing server c x"
  by (simp add: standing_def split: option.split prod.split)







end
