(* ===== verification/Notifier_Script.thy ===== *)
theory Notifier_Script
  imports Notifier_Properties
begin

text \<open>
  The page's half of the notifier: the script \<open>NOTIFIER_JS\<close> that \<open>src/frontend/notifications.rs\<close> runs in the tab. It asks the
  browser for the lock that makes one tab the leader, puts up and takes down notifications, and reports to the task of
  \<open>Notifier\<close>. The browser is its environment: what it reads is an argument of each handler, and what it asks of the browser's
  locks is a log of calls.
\<close>

section \<open>The script's state\<close>

text \<open>Requests for the lock are numbered. A queued one can be aborted; one that steals cannot. A held one is let go by resolving it.\<close>

datatype lock_call = Call_Request nat bool | Call_Abort nat | Call_Resolve nat

record browser =
  br_secure :: bool
  br_has_notification :: bool
  br_has_locks :: bool
  br_permission :: string
  br_stored :: bool
  br_focused :: bool
  br_visible :: bool
  br_throws :: bool

record script =
  sc_notifications :: "i64 \<Rightarrow> (string \<times> string \<times> string) option"
  sc_leader :: bool
  sc_pending :: bool
  sc_intentional :: bool
  sc_abort :: "nat option"
  sc_throws :: bool
  sc_setting :: bool
  sc_dead :: bool
  sc_held :: "nat option"
  sc_title :: string
  sc_dot :: bool
  sc_requests :: nat
  sc_calls :: "lock_call list"
  sc_stores :: "bool list"
  sc_posts :: "page_report list"

definition post :: "page_report \<Rightarrow> script \<Rightarrow> script" where
  "post r n = n\<lparr>sc_posts := sc_posts n @ [r]\<rparr>"

definition call :: "lock_call \<Rightarrow> script \<Rightarrow> script" where
  "call c n = n\<lparr>sc_calls := sc_calls n @ [c]\<rparr>"

definition permission_of :: "browser \<Rightarrow> string" where
  "permission_of b = (if br_has_notification b then br_permission b else ''default'')"

definition state_report :: "browser \<Rightarrow> script \<Rightarrow> page_report" where
  "state_report b n =
     Rep_State (br_secure b) (br_has_notification b) (br_has_locks b) (Some (permission_of b)) (sc_throws n) (sc_setting n)"

definition tick_report :: "browser \<Rightarrow> page_report" where
  "tick_report b = Rep_Tick (br_stored b) (br_focused b) (br_visible b) (Some (permission_of b))"

section \<open>The lock\<close>

definition let_go :: "script \<Rightarrow> script" where
  "let_go n =
     (let n = (case sc_held n of Some r \<Rightarrow> call (Call_Resolve r) n\<lparr>sc_held := None\<rparr> | None \<Rightarrow> n)
      in case sc_abort n of Some r \<Rightarrow> call (Call_Abort r) n\<lparr>sc_abort := None\<rparr> | None \<Rightarrow> n)"

definition lead_no_more :: "script \<Rightarrow> script" where
  "lead_no_more n = (if sc_leader n then post Rep_NotLeader (n\<lparr>sc_leader := False\<rparr>) else n)"

definition release_lock :: "script \<Rightarrow> script" where
  "release_lock n = lead_no_more (let_go (n\<lparr>sc_intentional := True\<rparr>)\<lparr>sc_pending := False\<rparr>)"

definition request_lock :: "browser \<Rightarrow> bool \<Rightarrow> script \<Rightarrow> script" where
  "request_lock b steal n =
     (if \<not> br_has_locks b \<or> sc_leader n then n
      else if sc_pending n \<and> (\<not> steal \<or> sc_abort n = None) then n
      else
        let n = (case sc_abort n of
              Some r \<Rightarrow> (call (Call_Abort r) (n\<lparr>sc_intentional := True\<rparr>))\<lparr>sc_abort := None, sc_pending := False\<rparr>
            | None \<Rightarrow> n);
            r = sc_requests n
        in call (Call_Request r steal)
             (n\<lparr>sc_abort := (if steal then None else Some r), sc_pending := True, sc_requests := r + 1\<rparr>))"

text \<open>The browser grants a request, or rejects it: aborted, stolen from, or refused by a script that another replaced.\<close>

definition granted :: "nat \<Rightarrow> script \<Rightarrow> script" where
  "granted r n =
     (if sc_dead n then n
      else post Rep_Leader (n\<lparr>sc_pending := False, sc_intentional := False, sc_leader := True, sc_held := Some r\<rparr>))"

definition stole :: "nat \<Rightarrow> script \<Rightarrow> bool" where
  "stole r n \<longleftrightarrow> List.member (sc_calls n) (Call_Request r True)"

definition rejected :: "browser \<Rightarrow> nat \<Rightarrow> script \<Rightarrow> script" where
  "rejected b r n =
     (if sc_dead n then n
      else if \<not> stole r n \<and> sc_abort n \<noteq> Some r then n
      else
        let n = (if stole r n then n else n\<lparr>sc_abort := None\<rparr>);
            was_leader = sc_leader n;
            n = n\<lparr>sc_pending := False, sc_leader := False, sc_held := None\<rparr>;
            n = (if was_leader then post Rep_NotLeader n else n)
        in if sc_setting n \<and> \<not> sc_intentional n then request_lock b False n else n)"

section \<open>Commands and events\<close>

fun do_command :: "browser \<Rightarrow> page_command \<Rightarrow> script \<Rightarrow> script" where
  "do_command b Cmd_State n = post (state_report b n) n"
| "do_command b Cmd_TurnOn n =
     (if br_has_notification b \<and> br_permission b \<noteq> ''granted'' then post (state_report b n) n
      else if \<not> br_has_notification b \<or> br_throws b then
        (let n = n\<lparr>sc_throws := True\<rparr> in post (state_report b n) n)
      else
        (let n = request_lock b (br_focused b) (n\<lparr>sc_setting := True, sc_stores := sc_stores n @ [True]\<rparr>)
         in post (state_report b n) n))"
| "do_command b (Cmd_Setting on) n =
     (let n = n\<lparr>sc_setting := on, sc_stores := sc_stores n @ [on]\<rparr>;
          n = (if on then request_lock b False n else release_lock n)
      in post (state_report b n) n)"
| "do_command b Cmd_Steal n = (if sc_setting n \<and> \<not> sc_leader n then request_lock b True n else n)"
| "do_command b (Cmd_Notify c heading body tag) n =
     (if \<not> br_stored b then post (state_report b n) n
      else if \<not> br_has_notification b \<or> br_throws b then
        (let n = n\<lparr>sc_throws := True\<rparr> in post (state_report b n) n)
      else n\<lparr>sc_notifications := (sc_notifications n)(c \<mapsto> (heading, body, tag))\<rparr>)"
| "do_command b (Cmd_Close c) n = n\<lparr>sc_notifications := (sc_notifications n)(c := None)\<rparr>"
| "do_command b (Cmd_Title title dot) n = n\<lparr>sc_title := title, sc_dot := dot\<rparr>"

datatype script_event =
    Sc_Command page_command
  | Sc_Focus
  | Sc_Visibility
  | Sc_Storage
  | Sc_Interval
  | Sc_Clicked i64
  | Sc_Granted nat
  | Sc_Rejected nat
  | Sc_Replaced

text \<open>Another instance boots on the page: it takes this one's lock and its request away.\<close>

definition taken_over :: "script \<Rightarrow> script" where
  "taken_over n =
     (let n = n\<lparr>sc_dead := True\<rparr>;
          n = (case sc_held n of Some r \<Rightarrow> call (Call_Resolve r) n | None \<Rightarrow> n)
      in case sc_abort n of Some r \<Rightarrow> call (Call_Abort r) n | None \<Rightarrow> n)"

fun script_step :: "script \<Rightarrow> browser \<times> script_event \<Rightarrow> script" where
  "script_step n (b, Sc_Command c) = (if sc_dead n then n else do_command b c n)"
| "script_step n (b, Sc_Focus) =
     (if sc_dead n then n
      else let n = (if sc_setting n \<and> \<not> sc_leader n then request_lock b True n else n) in post (state_report b n) n)"
| "script_step n (b, Sc_Visibility) = (if sc_dead n then n else post (tick_report b) n)"
| "script_step n (b, Sc_Storage) =
     (if sc_dead n then n
      else
        let n = n\<lparr>sc_setting := br_stored b\<rparr>;
            n = (if sc_setting n then request_lock b False n else release_lock n)
        in post (state_report b n) n)"
| "script_step n (b, Sc_Interval) = (if sc_dead n then n else post (tick_report b) n)"
| "script_step n (b, Sc_Clicked c) = post (Rep_Click (Some c)) n"
| "script_step n (b, Sc_Granted r) = granted r n"
| "script_step n (b, Sc_Rejected r) = rejected b r n"
| "script_step n (b, Sc_Replaced) = taken_over n"

definition script_boot :: "browser \<Rightarrow> script" where
  "script_boot b =
     (let n = \<lparr>sc_notifications = \<lambda>_. None, sc_leader = False, sc_pending = False, sc_intentional = False,
                sc_abort = None, sc_throws = False, sc_setting = br_stored b, sc_dead = False, sc_held = None,
                sc_title = [], sc_dot = False, sc_requests = 0, sc_calls = [], sc_stores = [], sc_posts = []\<rparr>;
          n = (if sc_setting n then request_lock b False n else n)
      in post (state_report b n) n)"

end
