(* ===== verification/Notifier_Tab.thy ===== *)
theory Notifier_Tab
  imports Notifier_Script
begin

text \<open>
  The two halves of a tab's notifier together: the task's commands reach the script in order, the script's reports reach the task
  in order, and other events come in between. And the script alone against the browser's locks.
\<close>

section \<open>What is up is known\<close>



text \<open>Only commands touch what the tab shows.\<close>

definition showing :: "script \<Rightarrow> i64 set" where
  "showing n = dom (sc_notifications n)"

lemma post_simps [simp]:
  "showing (post r n) = showing n" "sc_title (post r n) = sc_title n" "sc_dead (post r n) = sc_dead n"
  "sc_leader (post r n) = sc_leader n" "sc_posts (post r n) = sc_posts n @ [r]" "sc_held (post r n) = sc_held n"
  "sc_abort (post r n) = sc_abort n" "sc_calls (post r n) = sc_calls n" "sc_requests (post r n) = sc_requests n"
  by (simp_all add: post_def showing_def)

lemma call_simps [simp]:
  "showing (call c n) = showing n" "sc_title (call c n) = sc_title n" "sc_dead (call c n) = sc_dead n"
  "sc_leader (call c n) = sc_leader n" "sc_posts (call c n) = sc_posts n" "sc_held (call c n) = sc_held n"
  "sc_abort (call c n) = sc_abort n" "sc_calls (call c n) = sc_calls n @ [c]" "sc_requests (call c n) = sc_requests n"
  by (simp_all add: call_def showing_def)

lemma showing_field [simp]:
  "showing (n\<lparr>sc_leader := a\<rparr>) = showing n" "showing (n\<lparr>sc_pending := a\<rparr>) = showing n"
  "showing (n\<lparr>sc_intentional := a\<rparr>) = showing n" "showing (n\<lparr>sc_abort := x\<rparr>) = showing n"
  "showing (n\<lparr>sc_throws := a\<rparr>) = showing n" "showing (n\<lparr>sc_setting := a\<rparr>) = showing n"
  "showing (n\<lparr>sc_dead := a\<rparr>) = showing n" "showing (n\<lparr>sc_held := x\<rparr>) = showing n"
  "showing (n\<lparr>sc_requests := k\<rparr>) = showing n" "showing (n\<lparr>sc_stores := bs\<rparr>) = showing n"
  "showing (n\<lparr>sc_title := t, sc_dot := a\<rparr>) = showing n"
  by (simp_all add: showing_def)






lemma dead_stays: "sc_dead n \<Longrightarrow> sc_dead (script_step n (b, e))"
  by (cases e) (simp_all add: granted_def rejected_def taken_over_def Let_def split: option.split)

definition script_run :: "browser \<Rightarrow> (browser \<times> script_event) list \<Rightarrow> script" where
  "script_run b evs = foldl script_step (script_boot b) evs"

lemma script_run_snoc [simp]: "script_run b (evs @ [e]) = script_step (script_run b evs) e"
  by (simp add: script_run_def)

lemma boot_simps [simp]:
  "showing (script_boot b) = {}" "sc_title (script_boot b) = []" "\<not> sc_dead (script_boot b)"
  by (simp_all add: script_boot_def request_lock_def Let_def showing_def post_def call_def)




section \<open>Who leads\<close>

definition leads_after :: "page_report \<Rightarrow> bool \<Rightarrow> bool" where
  "leads_after r l = (case r of Rep_Leader \<Rightarrow> True | Rep_NotLeader \<Rightarrow> False | _ \<Rightarrow> l)"

lemma leader_fields [simp]:
  "nt_leader (take_toggle t s) = nt_leader s" "nt_leader (close_elsewhere u s) = nt_leader s"
  "nt_leader (send_title s) = nt_leader s" "nt_leader (look_at_shown u s) = nt_leader s"
  "nt_leader (notify_leader u e s) = nt_leader s" "nt_leader (count_needer e s) = nt_leader s"
  "nt_leader (recheck u c s) = nt_leader s"
proof -
  have close: "nt_leader (fold (\<lambda>c. send (Cmd_Close c)) cs s) = nt_leader s" for cs
    by (induction cs arbitrary: s) auto
  show "nt_leader (notify_leader u e s) = nt_leader s" by (cases rule: notify_leader_cases [of u e s]) simp_all
  show "nt_leader (close_elsewhere u s) = nt_leader s" by (simp add: close_elsewhere_def close)
  show "nt_leader (look_at_shown u s) = nt_leader s" by (simp add: look_at_shown_def Let_def split: option.split)
  show "nt_leader (take_toggle t s) = nt_leader s" by (simp add: take_toggle_def split: option.split toggle_request.split)
  show "nt_leader (recheck u c s) = nt_leader s"
    by (simp add: recheck_def recheck_open_def recheck_needer_def ask_def Let_def split: option.split)
qed (simp_all add: send_title_def count_needer_def Let_def)

lemma leader_fold: "(\<And>x s. nt_leader (f x s) = nt_leader s) \<Longrightarrow> nt_leader (fold f xs s) = nt_leader s"
  by (induction xs arbitrary: s) auto

lemma leader_revalidate [simp]: "nt_leader (revalidate_open u s) = nt_leader s"
  by (simp add: revalidate_open_def leader_fold)

lemma leader_queues [simp]:
  "nt_leader (take_pending u e s) = nt_leader s" "nt_leader (take_queued u a s) = nt_leader s"
  "nt_leader (revalidate_on_feed u k s) = nt_leader s"
  by (simp add: take_pending_def Let_def, cases a, simp_all add: Let_def revalidate_on_feed_def)

lemma leader_step: "nt_leader (notifier_step s i) = leads_after (ib_report i) (nt_leader s)"
proof -
  have "nt_leader (after_report i t) = nt_leader t" for t
    by (simp add: after_report_def Let_def leader_fold)
  then show ?thesis
    by (cases "ib_report i") (simp_all add: notifier_step_report leads_after_def set_mode_def Let_def split: option.split)
qed

lemma leader_run: "nt_leader (foldl notifier_step s is) = fold leads_after (map ib_report is) (nt_leader s)"
  by (induction "is" arbitrary: s) (simp_all add: leader_step)

definition told_leader :: "script \<Rightarrow> bool" where
  "told_leader n \<longleftrightarrow> sc_leader n = fold leads_after (sc_posts n) False"

lemma told_post [simp]:
  "told_leader (post (Rep_State a b c d e f) n) = told_leader n" "told_leader (post (Rep_Tick g h i j) n) = told_leader n"
  "told_leader (post (Rep_Click k) n) = told_leader n"
  "told_leader (post Rep_Leader n) = sc_leader n" "told_leader (post Rep_NotLeader n) = (\<not> sc_leader n)"
  by (simp_all add: told_leader_def leads_after_def)

lemma told_fields [simp]:
  "told_leader (call c n) = told_leader n" "told_leader (n\<lparr>sc_pending := a\<rparr>) = told_leader n"
  "told_leader (n\<lparr>sc_intentional := a\<rparr>) = told_leader n" "told_leader (n\<lparr>sc_abort := x\<rparr>) = told_leader n"
  "told_leader (n\<lparr>sc_throws := a\<rparr>) = told_leader n" "told_leader (n\<lparr>sc_setting := a\<rparr>) = told_leader n"
  "told_leader (n\<lparr>sc_dead := a\<rparr>) = told_leader n" "told_leader (n\<lparr>sc_held := x\<rparr>) = told_leader n"
  "told_leader (n\<lparr>sc_requests := k\<rparr>) = told_leader n" "told_leader (n\<lparr>sc_stores := bs\<rparr>) = told_leader n"
  "told_leader (n\<lparr>sc_notifications := ns\<rparr>) = told_leader n" "told_leader (n\<lparr>sc_title := t, sc_dot := a\<rparr>) = told_leader n"
  by (simp_all add: told_leader_def)

lemma told_request [simp]: "told_leader (request_lock b steal n) = told_leader n"
  by (simp add: request_lock_def Let_def split: option.split)

lemma told_let_go [simp]: "told_leader (let_go n) = told_leader n"
  by (simp add: let_go_def Let_def split: option.split)

lemma told_release: "told_leader n \<Longrightarrow> told_leader (release_lock n)"
  by (simp add: release_lock_def lead_no_more_def)

lemma told_rejected: "told_leader n \<Longrightarrow> told_leader (rejected b r n)"
  by (simp add: rejected_def Let_def) (simp add: told_leader_def)

lemma told_command: "told_leader n \<Longrightarrow> told_leader (do_command b c n)"
  by (cases c) (simp_all add: state_report_def Let_def told_release)

lemma told_step: "told_leader n \<Longrightarrow> told_leader (script_step n (b, e))"
  by (cases e)
    (simp_all add: state_report_def tick_report_def granted_def taken_over_def Let_def told_release told_rejected told_command split: option.split)

lemma told_run: "told_leader (script_run b evs)"
proof (induction evs rule: rev_induct)
  case Nil
  then show ?case
    by (simp add: script_run_def script_boot_def Let_def state_report_def) (simp add: told_leader_def)
next
  case (snoc be evs)
  then show ?case by (cases be) (simp add: told_step)
qed

text \<open>
  (C39) The task and the script agree on who leads: whatever grants, rejections and thefts of the lock, focus and storage events the
  tab goes through, the task that has taken the script's reports leads exactly when the script does.
\<close>

theorem leadership_is_agreed:
  assumes "map ib_report is = sc_posts (script_run b evs)"
  shows "nt_leader (foldl notifier_step notifier_start is) = sc_leader (script_run b evs)"
  using told_run [of b evs] assms by (simp add: leader_run told_leader_def notifier_start_def)

section \<open>The script and the browser's locks\<close>

text \<open>
  What the browser's locks promise (Web Locks): a request is granted or rejected once, one that was aborted before is not granted, one
  is held at a time, and before it is granted a request is rejected only for its abort. \<open>G\<close> and \<open>R\<close> are the requests granted and
  rejected so far.
\<close>

definition asked_for :: "script \<Rightarrow> nat set" where
  "asked_for n = {r. Call_Request r True \<in> set (sc_calls n) \<or> Call_Request r False \<in> set (sc_calls n)}"

definition waiting :: "nat set \<Rightarrow> nat set \<Rightarrow> script \<Rightarrow> nat set" where
  "waiting G R n = {r \<in> asked_for n. r \<notin> G \<union> R \<and> Call_Abort r \<notin> set (sc_calls n)}"

definition holding :: "nat set \<Rightarrow> nat set \<Rightarrow> script \<Rightarrow> nat set" where
  "holding G R n = {r \<in> G - R. Call_Resolve r \<notin> set (sc_calls n)}"

inductive tab_run :: "browser \<Rightarrow> nat set \<Rightarrow> nat set \<Rightarrow> script \<Rightarrow> bool" for b where
  tab_boot: "tab_run b {} {} (script_boot b)"
| tab_own: "tab_run b G R n \<Longrightarrow> \<forall>r. e \<noteq> Sc_Granted r \<and> e \<noteq> Sc_Rejected r \<Longrightarrow> tab_run b G R (script_step n (b', e))"
| tab_granted: "tab_run b G R n \<Longrightarrow> r \<in> waiting G R n \<Longrightarrow> holding G R n = {} \<Longrightarrow>
    tab_run b (insert r G) R (script_step n (b', Sc_Granted r))"
| tab_rejected: "tab_run b G R n \<Longrightarrow> r \<in> asked_for n \<Longrightarrow> r \<notin> R \<Longrightarrow> r \<in> G \<longrightarrow> r \<in> holding G R n \<Longrightarrow>
    r \<notin> G \<longrightarrow> \<not> stole r n \<and> Call_Abort r \<in> set (sc_calls n) \<Longrightarrow> tab_run b G (insert r R) (script_step n (b', Sc_Rejected r))"

definition lock_ok :: "nat set \<Rightarrow> nat set \<Rightarrow> script \<Rightarrow> bool" where
  "lock_ok G R n \<longleftrightarrow>
     sc_leader n = (sc_held n \<noteq> None) \<and> holding G R n = set_option (sc_held n) \<and>
     {r \<in> waiting G R n. \<not> stole r n} \<subseteq> set_option (sc_abort n) \<and>
     {r \<in> set_option (sc_held n). \<not> stole r n} \<subseteq> set_option (sc_abort n) \<and>
     {r \<in> set_option (sc_abort n). stole r n \<or> Call_Abort r \<in> set (sc_calls n)} = {} \<and>
     G \<union> R \<union> asked_for n \<union> {r. Call_Resolve r \<in> set (sc_calls n) \<or> Call_Abort r \<in> set (sc_calls n)} \<subseteq> {r. r < sc_requests n} \<and>
     set_option (sc_held n) \<union> set_option (sc_abort n) \<subseteq> asked_for n \<and> {r. Call_Resolve r \<in> set (sc_calls n)} \<subseteq> G"

lemma lock_ok_cong:
  assumes "sc_leader m = sc_leader n" "sc_held m = sc_held n" "sc_abort m = sc_abort n" "sc_calls m = sc_calls n"
    "sc_requests m = sc_requests n" "lock_ok G R n"
  shows "lock_ok G R m"
proof -
  have "lock_ok G R m = lock_ok G R n"
    unfolding lock_ok_def holding_def waiting_def asked_for_def stole_def assms(1-5) by (rule refl)
  then show ?thesis using assms(6) by simp
qed

lemma stole_iff: "stole r n \<longleftrightarrow> Call_Request r True \<in> set (sc_calls n)"
  by (simp add: stole_def)

lemma release_simps [simp]:
  "sc_leader (release_lock n) = False" "sc_held (release_lock n) = None" "sc_abort (release_lock n) = None"
  "sc_requests (release_lock n) = sc_requests n"
  by (cases "sc_held n"; cases "sc_abort n"; simp add: release_lock_def lead_no_more_def let_go_def Let_def)+

lemma release_calls:
  "set (sc_calls (release_lock n)) = set (sc_calls n) \<union> Call_Resolve ` set_option (sc_held n) \<union> Call_Abort ` set_option (sc_abort n)"
  by (cases "sc_held n"; cases "sc_abort n") (auto simp: release_lock_def lead_no_more_def let_go_def Let_def)

lemma release_lets_go:
  assumes "lock_ok G R n"
  shows "holding G R (release_lock n) = {}" "{r \<in> waiting G R (release_lock n). \<not> stole r (release_lock n)} = {}"
    "lock_ok G R (release_lock n)"
proof -
  let ?m = "release_lock n"
  have same: "asked_for ?m = asked_for n" "stole r ?m = stole r n" for r
    by (auto simp: asked_for_def stole_iff release_calls)
  show held: "holding G R ?m = {}"
  proof -
    have "holding G R n = set_option (sc_held n)" using assms by (simp add: lock_ok_def)
    then show ?thesis by (auto simp: holding_def release_calls)
  qed
  show waits: "{r \<in> waiting G R ?m. \<not> stole r ?m} = {}"
  proof -
    have "{r \<in> waiting G R n. \<not> stole r n} \<subseteq> set_option (sc_abort n)" using assms by (simp add: lock_ok_def)
    then show ?thesis by (auto simp: waiting_def same release_calls)
  qed
  have "{r. Call_Resolve r \<in> set (sc_calls ?m) \<or> Call_Abort r \<in> set (sc_calls ?m)} \<subseteq> {r. r < sc_requests n}"
    using assms unfolding lock_ok_def release_calls by auto
  moreover have "{r. Call_Resolve r \<in> set (sc_calls ?m)} \<subseteq> G"
  proof -
    have "holding G R n = set_option (sc_held n)" "{r. Call_Resolve r \<in> set (sc_calls n)} \<subseteq> G"
      using assms by (simp_all add: lock_ok_def)
    then show ?thesis by (auto simp: release_calls holding_def)
  qed
  ultimately show "lock_ok G R ?m" using assms held waits unfolding lock_ok_def same by simp
qed

lemma request_cases:
  obtains (none) "request_lock b steal n = n"
  | (request) "\<not> sc_leader n" "sc_leader (request_lock b steal n) = sc_leader n" "sc_held (request_lock b steal n) = sc_held n"
      "sc_abort (request_lock b steal n) = (if steal then None else Some (sc_requests n))"
      "sc_requests (request_lock b steal n) = Suc (sc_requests n)"
      "set (sc_calls (request_lock b steal n)) =
         insert (Call_Request (sc_requests n) steal) (set (sc_calls n) \<union> Call_Abort ` set_option (sc_abort n))"
proof (cases "\<not> br_has_locks b \<or> sc_leader n \<or> sc_pending n \<and> (\<not> steal \<or> sc_abort n = None)")
  case True
  then have "request_lock b steal n = n" by (auto simp: request_lock_def)
  then show ?thesis by (rule none)
next
  case False
  then show ?thesis
    by (intro request) (cases "sc_abort n"; auto simp: request_lock_def Let_def)+
qed

lemma lock_ok_request: "lock_ok G R n \<Longrightarrow> lock_ok G R (request_lock b steal n)"
proof (cases rule: request_cases [where b = b and steal = steal and n = n])
  case request
  let ?m = "request_lock b steal n" and ?r = "sc_requests n"
  assume ok: "lock_ok G R n"
  have held: "sc_held n = None" using ok request(1) by (simp add: lock_ok_def)
  have old: "G \<union> R \<union> asked_for n \<union> {r. Call_Resolve r \<in> set (sc_calls n) \<or> Call_Abort r \<in> set (sc_calls n)} \<subseteq> {r. r < ?r}"
    "set_option (sc_abort n) \<subseteq> asked_for n" "{r \<in> waiting G R n. \<not> stole r n} \<subseteq> set_option (sc_abort n)"
    "holding G R n = {}"
    using ok held by (simp_all add: lock_ok_def)
  have asked: "asked_for ?m = insert ?r (asked_for n)" by (auto simp: asked_for_def request(6))
  have fresh: "?r \<notin> asked_for n" using old(1) by auto
  then have steals: "stole ?r ?m = steal" by (auto simp: stole_iff request(6) asked_for_def)
  have stole_old: "stole r ?m = stole r n" if "r \<noteq> ?r" for r using that by (auto simp: stole_iff request(6))
  have "holding G R ?m = {}" using old(4) by (auto simp: holding_def request(6))
  moreover have "{r \<in> waiting G R ?m. \<not> stole r ?m} \<subseteq> set_option (sc_abort ?m)"
  proof
    fix r assume "r \<in> {r \<in> waiting G R ?m. \<not> stole r ?m}"
    then have r: "r \<in> waiting G R ?m" "\<not> stole r ?m" by simp_all
    show "r \<in> set_option (sc_abort ?m)"
    proof (cases "r = ?r")
      case True
      then show ?thesis using r(2) steals request(4) by auto
    next
      case False
      then have "r \<in> waiting G R n" "r \<notin> set_option (sc_abort n)"
        using r(1) by (auto simp: waiting_def asked request(6))
      then show ?thesis using old(3) r(2) stole_old [OF False] by blast
    qed
  qed
  moreover have "{r \<in> set_option (sc_abort ?m). stole r ?m \<or> Call_Abort r \<in> set (sc_calls ?m)} = {}"
  proof (cases steal)
    case False
    have "?r \<notin> set_option (sc_abort n)" using fresh old(2) by auto
    moreover have "Call_Abort ?r \<notin> set (sc_calls n)" using old(1) by auto
    ultimately show ?thesis using False steals request(4,6) by auto
  qed (use request(4) in auto)
  moreover have "G \<union> R \<union> asked_for ?m \<union> {r. Call_Resolve r \<in> set (sc_calls ?m) \<or> Call_Abort r \<in> set (sc_calls ?m)}
      \<subseteq> {r. r < sc_requests ?m}"
    using old(1,2) unfolding asked request(5,6) by (auto simp: less_Suc_eq)
  moreover have "set_option (sc_abort ?m) \<subseteq> asked_for ?m" by (simp add: asked request(4))
  moreover have "{r. Call_Resolve r \<in> set (sc_calls ?m)} \<subseteq> G" using ok by (auto simp: request(6) lock_ok_def)
  ultimately show ?thesis using held request(1-3) by (simp add: lock_ok_def)
qed simp

lemma lock_ok_post [simp]: "lock_ok G R (post r n) = lock_ok G R n"
  using lock_ok_cong [of "post r n" n G R] lock_ok_cong [of n "post r n" G R] by (simp add: post_def) blast

lemma lock_ok_field:
  "lock_ok G R n \<Longrightarrow> lock_ok G R (n\<lparr>sc_setting := a\<rparr>)" "lock_ok G R n \<Longrightarrow> lock_ok G R (n\<lparr>sc_throws := a\<rparr>)"
  "lock_ok G R n \<Longrightarrow> lock_ok G R (n\<lparr>sc_setting := a, sc_stores := bs\<rparr>)"
  "lock_ok G R n \<Longrightarrow> lock_ok G R (n\<lparr>sc_notifications := ns\<rparr>)" "lock_ok G R n \<Longrightarrow> lock_ok G R (n\<lparr>sc_title := t, sc_dot := a\<rparr>)"
  by (erule lock_ok_cong [rotated 5], simp_all)+

lemma lock_ok_own:
  assumes "lock_ok G R n" "\<not> sc_dead (script_step n (b, e))" "\<forall>r. e \<noteq> Sc_Granted r \<and> e \<noteq> Sc_Rejected r"
  shows "lock_ok G R (script_step n (b, e))"
proof (cases e)
  case (Sc_Command c)
  then show ?thesis
    using assms(1) by (cases c) (simp_all add: Let_def lock_ok_request lock_ok_field release_lets_go)
next
  case Sc_Replaced
  then show ?thesis using assms(2) by (simp add: taken_over_def Let_def split: option.splits)
qed (use assms in \<open>simp_all add: Let_def lock_ok_request lock_ok_field release_lets_go\<close>)

lemma lock_ok_granted:
  assumes ok: "lock_ok G R n" and "\<not> sc_dead n" "r \<in> waiting G R n" "holding G R n = {}"
  shows "lock_ok (insert r G) R (granted r n)"
proof -
  let ?m = "n\<lparr>sc_pending := False, sc_intentional := False, sc_leader := True, sc_held := Some r\<rparr>"
  have same: "asked_for ?m = asked_for n" "stole x ?m = stole x n" for x by (simp_all add: asked_for_def stole_def)
  have r: "r \<in> asked_for n" "r \<notin> R" "r \<notin> G" using assms(3) by (simp_all add: waiting_def)
  have old: "{r \<in> waiting G R n. \<not> stole r n} \<subseteq> set_option (sc_abort n)" using ok by (simp add: lock_ok_def)
  have fresh: "Call_Resolve r \<notin> set (sc_calls n)"
    using ok r(3) by (auto simp: lock_ok_def)
  have "holding (insert r G) R ?m = {r}" using assms(4) fresh r by (auto simp: holding_def)
  moreover have "{x \<in> waiting (insert r G) R ?m. \<not> stole x ?m} \<subseteq> set_option (sc_abort ?m)"
    using old by (auto simp: waiting_def asked_for_def stole_def)
  moreover have "{x \<in> set_option (sc_held ?m). \<not> stole x ?m} \<subseteq> set_option (sc_abort ?m)"
    using old assms(3) by (auto simp: same)
  ultimately have "lock_ok (insert r G) R ?m" using ok r unfolding lock_ok_def same by auto
  then show ?thesis using assms(2) by (simp add: granted_def)
qed

lemma lock_ok_rejected:
  assumes ok: "lock_ok G R n" and alive: "\<not> sc_dead n" and r: "r \<in> asked_for n" "r \<in> G \<longrightarrow> r \<in> holding G R n"
    "stole r n \<longrightarrow> r \<in> G" "r \<notin> G \<longrightarrow> Call_Abort r \<in> set (sc_calls n)"
  shows "lock_ok G (insert r R) (rejected b r n)"
proof -
  have book: "holding G R n = set_option (sc_held n)" "{x \<in> waiting G R n. \<not> stole x n} \<subseteq> set_option (sc_abort n)"
    "{x \<in> set_option (sc_held n). \<not> stole x n} \<subseteq> set_option (sc_abort n)"
    "{r \<in> set_option (sc_abort n). stole r n \<or> Call_Abort r \<in> set (sc_calls n)} = {}"
    using ok by (simp_all add: lock_ok_def)
  show ?thesis
  proof (cases "\<not> stole r n \<and> sc_abort n \<noteq> Some r")
    case True
    then have other: "sc_held n \<noteq> Some r" using book(3) by auto
    then have "holding G (insert r R) n = set_option (sc_held n)" using book(1) by (auto simp: holding_def)
    moreover have "{x \<in> waiting G (insert r R) n. \<not> stole x n} \<subseteq> set_option (sc_abort n)"
      using book(2) by (auto simp: waiting_def)
    ultimately have "lock_ok G (insert r R) n" using ok r(1) unfolding lock_ok_def by auto
    then show ?thesis using True alive by (simp add: rejected_def)
  next
    case False
    define m where "m = (if stole r n then n else n\<lparr>sc_abort := None\<rparr>)\<lparr>sc_pending := False, sc_leader := False, sc_held := None\<rparr>"
    have m: "sc_leader m = False" "sc_held m = None" "sc_calls m = sc_calls n" "sc_requests m = sc_requests n"
      "sc_abort m = (if stole r n then sc_abort n else None)"
      by (simp_all add: m_def)
    have same: "asked_for m = asked_for n" "stole x m = stole x n" "waiting G Q m = waiting G Q n" "holding G Q m = holding G Q n"
      for x Q by (simp_all add: asked_for_def stole_def waiting_def holding_def m(3))
    have "r \<in> G" using False book(4) r(3,4) by auto
    then have held: "set_option (sc_held n) = {r}" using r(2) book(1) by auto
    have "holding G (insert r R) n = holding G R n - {r}" by (auto simp: holding_def)
    then have "holding G (insert r R) m = {}" using book(1) unfolding same held by simp
    moreover have "{x \<in> waiting G (insert r R) m. \<not> stole x m} \<subseteq> set_option (sc_abort m)"
    proof -
      have "r \<notin> waiting G R n" using \<open>r \<in> G\<close> by (simp add: waiting_def)
      then have "{x \<in> waiting G R n. \<not> stole x n} \<subseteq> set_option (sc_abort m)" using book(2) False m(5) by auto
      then show ?thesis unfolding same by (auto simp: waiting_def)
    qed
    moreover have "{x \<in> set_option (sc_abort m). stole x m \<or> Call_Abort x \<in> set (sc_calls m)} = {}"
      using book(4) by (auto simp: same m(3,5))
    moreover have "set_option (sc_abort m) \<subseteq> set_option (sc_abort n)" by (simp add: m(5))
    moreover have "G \<union> R \<union> asked_for n \<union> {r. Call_Resolve r \<in> set (sc_calls n) \<or> Call_Abort r \<in> set (sc_calls n)} \<subseteq> {r. r < sc_requests n}"
      "set_option (sc_abort n) \<subseteq> asked_for n" "{r. Call_Resolve r \<in> set (sc_calls n)} \<subseteq> G"
      using ok by (simp_all add: lock_ok_def)
    ultimately have "lock_ok G (insert r R) m"
      using r(1) unfolding lock_ok_def same m(1-4) by (intro conjI) (simp_all, blast+)
    moreover have "rejected b r n = (let k = (if sc_leader n then post Rep_NotLeader m else m)
        in if sc_setting k \<and> \<not> sc_intentional k then request_lock b False k else k)"
      using False alive by (auto simp: rejected_def m_def Let_def)
    ultimately show ?thesis by (simp add: Let_def lock_ok_request)
  qed
qed

lemma lock_ok_boot: "lock_ok {} {} (script_boot b)"
proof -
  let ?n = "\<lparr>sc_notifications = \<lambda>_. None, sc_leader = False, sc_pending = False, sc_intentional = False,
                sc_abort = None, sc_throws = False, sc_setting = br_stored b, sc_dead = False, sc_held = None,
                sc_title = [], sc_dot = False, sc_requests = 0, sc_calls = [], sc_stores = [], sc_posts = []\<rparr>"
  have "lock_ok {} {} ?n" by (simp add: lock_ok_def holding_def waiting_def asked_for_def)
  then show ?thesis using lock_ok_request [of "{}" "{}" ?n b False] by (cases "br_stored b") (simp_all add: script_boot_def Let_def)
qed

lemma tab_run_ok: "tab_run b G R n \<Longrightarrow> \<not> sc_dead n \<Longrightarrow> lock_ok G R n"
proof (induction rule: tab_run.induct)
  case tab_boot
  then show ?case by (simp add: lock_ok_boot)
next
  case (tab_own G R n e b')
  then have "\<not> sc_dead n" using dead_stays by blast
  then show ?case using tab_own by (blast intro: lock_ok_own)
next
  case (tab_granted G R n r b')
  then have "\<not> sc_dead n" using dead_stays by blast
  then show ?case using tab_granted lock_ok_granted by simp
next
  case (tab_rejected G R n r b')
  then have "\<not> sc_dead n" using dead_stays by blast
  then have "lock_ok G R n" using tab_rejected by blast
  then show ?case using \<open>\<not> sc_dead n\<close> tab_rejected lock_ok_rejected [of G R n r b'] by auto
qed

text \<open>
  (C40) A tab never keeps a lock it cannot let go: whatever the browser grants, refuses and steals, a tab leads exactly when it holds the
  lock, it holds one at most and knows which; and once the setting is turned off elsewhere it leads no more, holds
  nothing and waits for nothing but a theft of its own already on the way.
\<close>

theorem turning_off_lets_go:
  assumes "tab_run b G R n" "\<not> sc_dead n" "\<not> br_stored b'"
  shows "sc_leader n = (holding G R n \<noteq> {}) \<and> holding G R n = set_option (sc_held n)
    \<and> \<not> sc_leader (script_step n (b', Sc_Storage)) \<and> holding G R (script_step n (b', Sc_Storage)) = {}
    \<and> {r \<in> waiting G R (script_step n (b', Sc_Storage)). \<not> stole r (script_step n (b', Sc_Storage))} = {}"
proof -
  have ok: "lock_ok G R n" using assms(1,2) by (rule tab_run_ok)
  let ?k = "release_lock (n\<lparr>sc_setting := br_stored b'\<rparr>)"
  have step: "script_step n (b', Sc_Storage) = post (state_report b' ?k) ?k" using assms(2,3) by (simp add: Let_def)
  have same: "holding G R (post x m) = holding G R m" "waiting G R (post x m) = waiting G R m" "stole r (post x m) = stole r m"
    for x m r by (simp_all add: holding_def waiting_def asked_for_def stole_def)
  have "lock_ok G R (n\<lparr>sc_setting := br_stored b'\<rparr>)" using ok by (rule lock_ok_field)
  from release_lets_go [OF this] have "holding G R ?k = {}" "{r \<in> waiting G R ?k. \<not> stole r ?k} = {}" by blast+
  moreover have "sc_leader n = (holding G R n \<noteq> {})" "holding G R n = set_option (sc_held n)"
    using ok by (auto simp: lock_ok_def)
  ultimately show ?thesis unfolding step same by simp
qed

text \<open>A tab with the setting on that is granted the lock, and one whose theft is granted after the setting went off.\<close>

definition sample_browser :: "bool \<Rightarrow> browser" where
  "sample_browser stored =
     \<lparr>br_secure = True, br_has_notification = True, br_has_locks = True, br_permission = ''granted'', br_stored = stored,
      br_focused = False, br_visible = False, br_throws = False\<rparr>"

lemmas sample_script =
  sample_browser_def script_boot_def request_lock_def release_lock_def lead_no_more_def let_go_def granted_def
  state_report_def permission_of_def post_def call_def Let_def

lemma sample_leader: "tab_run (sample_browser True) {0} {} (granted 0 (script_boot (sample_browser True)))"
proof -
  have "0 \<in> waiting {} {} (script_boot (sample_browser True))" "holding {} {} (script_boot (sample_browser True)) = {}"
    by (simp_all add: sample_script waiting_def asked_for_def holding_def)
  from tab_granted [OF tab_boot this] show ?thesis by simp
qed

theorem turning_off_lets_go_witness:
  "\<not> sc_leader (script_step (granted 0 (script_boot (sample_browser True))) (sample_browser False, Sc_Storage))"
proof -
  have "\<not> sc_dead (granted 0 (script_boot (sample_browser True)))" "\<not> br_stored (sample_browser False)"
    by (simp_all add: sample_script)
  from turning_off_lets_go [OF sample_leader this] show ?thesis by blast
qed

text \<open>A theft already on its way when the setting goes off is not called back: the tab leads with the setting off.\<close>

definition late_theft :: script where
  "late_theft =
     script_step (script_step (script_step (script_boot (sample_browser True)) (sample_browser True, Sc_Focus))
       (sample_browser False, Sc_Storage)) (sample_browser False, Sc_Granted 1)"

theorem late_theft_leads:
  "tab_run (sample_browser True) {1} {} late_theft \<and> sc_leader late_theft \<and> \<not> sc_setting late_theft"
proof -
  let ?b = "sample_browser True"
  let ?n = "script_step (script_step (script_boot ?b) (?b, Sc_Focus)) (sample_browser False, Sc_Storage)"
  have "tab_run ?b {} {} ?n" by (intro tab_own tab_boot) simp_all
  moreover have "1 \<in> waiting {} {} ?n" "holding {} {} ?n = {}"
    by (simp_all add: sample_script waiting_def asked_for_def holding_def)
  ultimately have "tab_run ?b {1} {} late_theft" unfolding late_theft_def by (rule tab_granted)
  moreover have "sc_leader late_theft" "\<not> sc_setting late_theft"
    by (simp_all add: late_theft_def sample_script)
  ultimately show ?thesis by blast
qed

text \<open>A tab in the background that leads, and shows a failed turn's notification.\<close>

definition sample_around :: surroundings where
  "sample_around =
     \<lparr>su_shown = \<lambda>_. None,
      su_ask = \<lambda>_ c g a. Some (Some \<lparr>ad_title = ''Fix it'', ad_attention = a, ad_question_header = None, ad_message = None\<rparr>)\<rparr>"

definition sample_inbox :: "page_report \<Rightarrow> app_event list \<Rightarrow> inbox" where
  "sample_inbox r evs =
     \<lparr>ib_report = r, ib_toggle = None, ib_pending = [], ib_queued = evs, ib_revalidate = 0, ib_around = sample_around\<rparr>"






definition taken :: "page_report list \<Rightarrow> inbox list" where
  "taken rs = map (\<lambda>r. sample_inbox r []) rs"

theorem leadership_is_agreed_witness:
  "nt_leader (foldl notifier_step notifier_start
     (taken [Rep_State True True True (Some ''granted'') False True, Rep_Leader]))"
proof -
  have "map ib_report (taken [Rep_State True True True (Some ''granted'') False True, Rep_Leader])
      = sc_posts (script_run (sample_browser True) [(sample_browser True, Sc_Granted 0)])"
    and "sc_leader (script_run (sample_browser True) [(sample_browser True, Sc_Granted 0)])"
    by (simp_all add: taken_def sample_inbox_def script_run_def sample_script)
  then show ?thesis using leadership_is_agreed by blast
qed

end
