(* ===== verification/Agents_Db.thy ===== *)
theory Agents_Db
  imports Tool_Rules Text_Call_Notice Chat_Page
begin

text \<open>
  \<open>src/db/agents\<close> and \<open>src/db/questions.rs\<close>: a conversation's child agents, the queue that carries their reports, messages and
  questions, and the question a conversation waits on. A table is the list of its rows; a transaction is one step, which is
  what its row locks make of it, and \<open>now()\<close> counts them. A query that fails changes nothing and is left out.
\<close>

section \<open>Tables\<close>

datatype agent_state = Ag_Starting | Ag_Active | Ag_Finished | Ag_Stopped | Ag_Failed

datatype message_kind = Kind_Report | Kind_Notice | Kind_Message | Kind_Question

datatype asked_of = Of_User | Of_Parent

record conversation_row =
  cv_id :: i64
  cv_parent :: "i64 option"
  cv_deleting :: bool
  cv_paused :: bool

record persona_snapshot =
  sn_name :: string
  sn_path :: string
  sn_commit :: "string option"
  sn_body :: string
  sn_settings :: json

record agent_row =
  ag_id :: i64
  ag_root :: i64
  ag_depth :: int
  ag_brief :: string
  ag_persona_name :: "string option"
  ag_persona :: "persona_snapshot option"
  ag_state :: agent_state
  ag_started :: bool
  ag_chain :: "json option"
  ag_credentials :: "string list option"

record agent_message =
  am_id :: nat
  am_to :: i64
  am_from :: "i64 option"
  am_label :: string
  am_kind :: message_kind
  am_body :: string
  am_created :: nat
  am_delivered :: bool
  am_message :: "nat option"

record question_answer =
  qa_selected :: "string list"
  qa_other :: "string option"

record stored_question =
  sq_tool_use_id :: string
  sq_questions :: "question list"
  sq_answer :: "question_answer list option"
  sq_asked_of :: asked_of
  sq_created :: nat

record saved_message =
  sm_id :: nat
  sm_conversation :: i64
  sm_role :: string
  sm_content :: "content_block list"

record agents_db =
  db_conversations :: "conversation_row list"
  db_agents :: "agent_row list"
  db_queue :: "agent_message list"
  db_questions :: "i64 \<Rightarrow> stored_question option"
  db_messages :: "saved_message list"
  db_requests :: "i64 \<Rightarrow> bool"
  db_running :: "i64 \<Rightarrow> (string \<times> string \<times> int) list"
  db_trust :: "string \<Rightarrow> bool option"
  db_held :: "i64 \<Rightarrow> string list"
  db_next_conversation :: i64
  db_next_row :: nat
  db_now :: nat

definition empty_db :: agents_db where
  "empty_db =
     \<lparr>db_conversations = [], db_agents = [], db_queue = [], db_questions = \<lambda>_. None, db_messages = [],
      db_requests = \<lambda>_. False, db_running = \<lambda>_. [], db_trust = \<lambda>_. None, db_held = \<lambda>_. [],
      db_next_conversation = 1, db_next_row = 0, db_now = 0\<rparr>"

section \<open>Queries\<close>

definition conversation_of :: "agents_db \<Rightarrow> i64 \<Rightarrow> conversation_row option" where
  "conversation_of db c = List.find (\<lambda>r. cv_id r = c) (db_conversations db)"

definition is_conversation :: "agents_db \<Rightarrow> i64 \<Rightarrow> bool" where
  "is_conversation db c \<longleftrightarrow> list_ex (\<lambda>r. cv_id r = c) (db_conversations db)"

definition agent_of :: "agents_db \<Rightarrow> i64 \<Rightarrow> agent_row option" where
  "agent_of db c = List.find (\<lambda>a. ag_id a = c) (db_agents db)"

definition agent_state :: "agents_db \<Rightarrow> i64 \<Rightarrow> agent_state option" where
  "agent_state db c = map_option ag_state (agent_of db c)"

definition conversation_parent :: "agents_db \<Rightarrow> i64 \<Rightarrow> i64 option" where
  "conversation_parent db c = Option.bind (conversation_of db c) cv_parent"

definition is_deleting :: "agents_db \<Rightarrow> i64 \<Rightarrow> bool" where
  "is_deleting db c = (case conversation_of db c of Some r \<Rightarrow> cv_deleting r | None \<Rightarrow> False)"

text \<open>Whether every row still exists; the locks themselves are what makes a transaction one step.\<close>

definition lock_conversations :: "agents_db \<Rightarrow> i64 list \<Rightarrow> bool" where
  "lock_conversations db cs = list_all (is_conversation db) cs"

definition children_rows :: "agents_db \<Rightarrow> i64 \<Rightarrow> conversation_row list" where
  "children_rows db c = filter (\<lambda>r. cv_parent r = Some c) (db_conversations db)"

text \<open>\<open>subtree_ids\<close>: the recursive query, level by level; as many levels as conversations are enough.\<close>

fun levels_below :: "nat \<Rightarrow> agents_db \<Rightarrow> i64 list \<Rightarrow> i64 list" where
  "levels_below 0 db work = []"
| "levels_below (Suc n) db work =
     (let found = concat (map (\<lambda>c. map cv_id (children_rows db c)) work)
      in if found = [] then [] else found @ levels_below n db found)"

definition subtree_ids :: "agents_db \<Rightarrow> i64 \<Rightarrow> i64 list" where
  "subtree_ids db c = c # sort (filter (\<lambda>d. d \<noteq> c) (levels_below (length (db_conversations db)) db [c]))"

definition unread_by :: "agents_db \<Rightarrow> i64 \<Rightarrow> bool" where
  "unread_by db c \<longleftrightarrow>
     list_ex (\<lambda>m. am_to m = c \<and> \<not> am_delivered m \<and> am_kind m \<noteq> Kind_Notice) (db_queue db)
     \<or> (case db_questions db c of Some q \<Rightarrow> sq_answer q \<noteq> None | None \<Rightarrow> False)"

text \<open>Its agents still \<open>starting\<close> or \<open>active\<close>.\<close>

definition running_agents :: "agents_db \<Rightarrow> i64 \<Rightarrow> (i64 \<times> agent_state) list" where
  "running_agents db c =
     map (\<lambda>a. (ag_id a, ag_state a))
       (sort_key ag_id (filter (\<lambda>a. conversation_parent db (ag_id a) = Some c \<and> ag_state a \<in> {Ag_Starting, Ag_Active}) (db_agents db)))"

definition undelivered_agent_messages :: "agents_db \<Rightarrow> i64 \<Rightarrow> agent_message list" where
  "undelivered_agent_messages db c = sort_key am_id (filter (\<lambda>m. am_to m = c \<and> \<not> am_delivered m) (db_queue db))"

definition starting_agents :: "agents_db \<Rightarrow> (i64 \<times> i64) list" where
  "starting_agents db =
     sort (List.map_filter
       (\<lambda>a. if ag_state a = Ag_Starting then map_option (Pair (ag_id a)) (conversation_parent db (ag_id a)) else None)
       (db_agents db))"

definition conversations_with_queued_messages :: "agents_db \<Rightarrow> i64 list" where
  "conversations_with_queued_messages db =
     sort (map cv_id (filter
       (\<lambda>r. \<not> cv_paused r \<and> agent_state db (cv_id r) \<noteq> Some Ag_Stopped \<and>
            (list_ex (\<lambda>m. am_to m = cv_id r \<and> \<not> am_delivered m) (db_queue db)
             \<or> agent_of db (cv_id r) \<noteq> None \<and>
               (case db_questions db (cv_id r) of Some q \<Rightarrow> sq_answer q \<noteq> None | None \<Rightarrow> False)))
       (db_conversations db)))"

text \<open>What waits for the user: a question asked of it, or a card; never a child's question to its parent.\<close>

definition waits_for_user :: "agents_db \<Rightarrow> i64 \<Rightarrow> bool" where
  "waits_for_user db c \<longleftrightarrow>
     (case db_questions db c of Some q \<Rightarrow> sq_answer q = None \<and> sq_asked_of q = Of_User | None \<Rightarrow> False) \<or> db_requests db c"

definition list_waiting_conversations :: "agents_db \<Rightarrow> i64 list" where
  "list_waiting_conversations db = sort (map cv_id (filter (\<lambda>r. waits_for_user db (cv_id r)) (db_conversations db)))"

definition agents_waiting_under :: "i64 \<Rightarrow> agents_db \<Rightarrow> i64 list" where
  "agents_waiting_under c db = sort (remdups (filter (waits_for_user db) (levels_below (length (db_conversations db)) db [c])))"

definition agent_persona :: "i64 \<Rightarrow> agents_db \<Rightarrow> (string \<times> string option \<times> string) option" where
  "agent_persona c db =
     map_option (\<lambda>p. (sn_path p, sn_commit p, sn_body p)) (Option.bind (agent_of db c) ag_persona)"

definition agent_rule_chain :: "i64 \<Rightarrow> agents_db \<Rightarrow> json option" where
  "agent_rule_chain c db = Option.bind (agent_of db c) ag_chain"

definition agent_credentials :: "i64 \<Rightarrow> agents_db \<Rightarrow> string list option option" where
  "agent_credentials c db = map_option ag_credentials (agent_of db c)"

section \<open>Statements\<close>

definition begin_tx :: "agents_db \<Rightarrow> agents_db" where
  "begin_tx db = db\<lparr>db_now := Suc (db_now db)\<rparr>"

definition update_agents :: "(agent_row \<Rightarrow> bool) \<Rightarrow> (agent_row \<Rightarrow> agent_row) \<Rightarrow> agents_db \<Rightarrow> agents_db" where
  "update_agents p f db = db\<lparr>db_agents := map (\<lambda>a. if p a then f a else a) (db_agents db)\<rparr>"

text \<open>Every write of a state names the states it is written from.\<close>

definition set_state :: "i64 set \<Rightarrow> agent_state set \<Rightarrow> agent_state \<Rightarrow> agents_db \<Rightarrow> agents_db" where
  "set_state cs from_states st = update_agents (\<lambda>a. ag_id a \<in> cs \<and> ag_state a \<in> from_states) (\<lambda>a. a\<lparr>ag_state := st\<rparr>)"

definition queue_agent_message ::
  "i64 \<Rightarrow> i64 option \<Rightarrow> string \<Rightarrow> message_kind \<Rightarrow> string \<Rightarrow> agents_db \<Rightarrow> agents_db" where
  "queue_agent_message c sender label kind body db =
     db\<lparr>db_queue := db_queue db @
          [\<lparr>am_id = db_next_row db, am_to = c, am_from = sender, am_label = label, am_kind = kind, am_body = body,
            am_created = db_now db, am_delivered = False, am_message = None\<rparr>],
        db_next_row := Suc (db_next_row db)\<rparr>"

definition create_message_on :: "i64 \<Rightarrow> string \<Rightarrow> content_block list \<Rightarrow> agents_db \<Rightarrow> agents_db" where
  "create_message_on c role content db =
     db\<lparr>db_messages := db_messages db @
          [\<lparr>sm_id = db_next_row db, sm_conversation = c, sm_role = role, sm_content = content\<rparr>],
        db_next_row := Suc (db_next_row db)\<rparr>"

definition put_question :: "i64 \<Rightarrow> stored_question option \<Rightarrow> agents_db \<Rightarrow> agents_db" where
  "put_question c q db = db\<lparr>db_questions := (db_questions db)(c := q)\<rparr>"

definition upsert_pending_question :: "i64 \<Rightarrow> string \<Rightarrow> question list \<Rightarrow> asked_of \<Rightarrow> agents_db \<Rightarrow> agents_db" where
  "upsert_pending_question c tool_use_id questions asked db =
     put_question c (Some \<lparr>sq_tool_use_id = tool_use_id, sq_questions = questions, sq_answer = None, sq_asked_of = asked,
                           sq_created = db_now db\<rparr>) db"

section \<open>Questions\<close>

definition create_pending_question :: "i64 \<Rightarrow> string \<Rightarrow> question list \<Rightarrow> agents_db \<Rightarrow> agents_db" where
  "create_pending_question c tool_use_id questions db =
     upsert_pending_question c tool_use_id questions Of_User (begin_tx db)"

definition question_waits :: "agents_db \<Rightarrow> i64 \<Rightarrow> bool" where
  "question_waits db c = (case db_questions db c of Some q \<Rightarrow> sq_answer q = None | None \<Rightarrow> False)"

definition answer_pending_question :: "i64 \<Rightarrow> string \<Rightarrow> question_answer list \<Rightarrow> agents_db \<Rightarrow> bool \<times> agents_db" where
  "answer_pending_question c tool_use_id answer db =
     (case db_questions db c of
        Some q \<Rightarrow>
          if sq_tool_use_id q = tool_use_id \<and> sq_answer q = None \<and> sq_asked_of q = Of_User
          then (True, put_question c (Some (q\<lparr>sq_answer := Some answer\<rparr>)) db)
          else (False, db)
      | None \<Rightarrow> (False, db))"

definition take_pending_question_on :: "i64 \<Rightarrow> bool \<Rightarrow> agents_db \<Rightarrow> stored_question option \<times> agents_db" where
  "take_pending_question_on c include_waiting db =
     (case db_questions db c of
        Some q \<Rightarrow> if sq_answer q \<noteq> None \<or> include_waiting then (Some q, put_question c None db) else (None, db)
      | None \<Rightarrow> (None, db))"

definition create_message_taking_question ::
  "(stored_question \<Rightarrow> content_block) \<Rightarrow> i64 \<Rightarrow> string \<Rightarrow> content_block list \<Rightarrow> bool \<Rightarrow> agents_db \<Rightarrow>
     (content_block list \<times> stored_question option) option \<times> agents_db" where
  "create_message_taking_question result_for c role content include_waiting db =
     (let (question, db') = take_pending_question_on c include_waiting (begin_tx db);
          blocks = (case question of Some q \<Rightarrow> [result_for q] | None \<Rightarrow> []) @ content
      in if blocks = [] then (None, db)
         else (Some (blocks, question), create_message_on c role blocks db'))"

section \<open>Messages between a parent and its child\<close>

datatype recipient = To_Parent | To_Child i64

datatype message_outcome =
    Msg_Queued i64
  | Msg_Answered i64
  | Msg_NoParent
  | Msg_NotYourChild i64
  | Msg_Deleted i64
  | Msg_Ended i64 agent_state

definition is_child :: "agents_db \<Rightarrow> i64 \<Rightarrow> i64 \<Rightarrow> bool" where
  "is_child db c parent \<longleftrightarrow> list_ex (\<lambda>r. cv_id r = c \<and> cv_parent r = Some parent) (db_conversations db)"

text \<open>The parent has read the question: its row, queued in the question's own transaction, is delivered.\<close>

definition question_read :: "agents_db \<Rightarrow> i64 \<Rightarrow> i64 \<Rightarrow> stored_question \<Rightarrow> bool" where
  "question_read db parent c q \<longleftrightarrow>
     list_ex (\<lambda>m. am_to m = parent \<and> am_from m = Some c \<and> am_kind m = Kind_Question \<and> am_created m = sq_created q \<and> am_delivered m)
       (db_queue db)"

definition answer_child :: "i64 \<Rightarrow> i64 \<Rightarrow> string \<Rightarrow> agents_db \<Rightarrow> agents_db option" where
  "answer_child parent c text db =
     (case db_questions db c of
        Some q \<Rightarrow>
          if sq_asked_of q = Of_Parent \<and> sq_answer q = None \<and> question_read db parent c q
          then Some (put_question c (Some (q\<lparr>sq_answer := Some [\<lparr>qa_selected = [], qa_other = Some text\<rparr>]\<rparr>)) db)
          else None
      | None \<Rightarrow> None)"

definition message_agent ::
  "i64 \<Rightarrow> recipient \<Rightarrow> string \<Rightarrow> string \<Rightarrow> agents_db \<Rightarrow> message_outcome \<times> agents_db" where
  "message_agent caller who label text db =
     (case (case who of
              To_Parent \<Rightarrow> (case conversation_parent db caller of Some p \<Rightarrow> Inr p | None \<Rightarrow> Inl Msg_NoParent)
            | To_Child c \<Rightarrow> if is_child db c caller then Inr c else Inl (Msg_NotYourChild c)) of
        Inl why \<Rightarrow> (why, db)
      | Inr c \<Rightarrow>
          if \<not> lock_conversations db [caller, c] then (Msg_Deleted c, db)
          else if is_deleting db c then (Msg_Deleted c, db)
          else
            (case agent_state db c of
               Some Ag_Stopped \<Rightarrow> (Msg_Ended c Ag_Stopped, db)
             | Some Ag_Failed \<Rightarrow> (Msg_Ended c Ag_Failed, db)
             | _ \<Rightarrow>
                 (let db = set_state {c} {Ag_Finished} Ag_Active (begin_tx db);
                      queued = (Msg_Queued c, queue_agent_message c (Some caller) label Kind_Message text db)
                  in if who = To_Parent then queued
                     else (case answer_child caller c text db of
                         Some db' \<Rightarrow> (Msg_Answered c, db')
                       | None \<Rightarrow> queued))))"

datatype ask_outcome = Ask_Asked i64 | Ask_NoParent | Ask_NotActive "agent_state option" | Ask_ParentEnded "agent_state option"

definition parent_question :: "string \<Rightarrow> question list" where
  "parent_question text = [\<lparr>qu_question = text, qu_header = ''Question for your parent'', qu_options = [], qu_multi_select = False\<rparr>]"

definition ask_parent :: "i64 \<Rightarrow> string \<Rightarrow> string \<Rightarrow> string \<Rightarrow> agents_db \<Rightarrow> ask_outcome \<times> agents_db" where
  "ask_parent c tool_use_id text label db =
     (case conversation_parent db c of
        None \<Rightarrow> (Ask_NoParent, db)
      | Some p \<Rightarrow>
          if \<not> lock_conversations db [p, c] then (Ask_NotActive None, db)
          else if agent_state db c \<noteq> Some Ag_Active then (Ask_NotActive (agent_state db c), db)
          else if is_deleting db p then (Ask_ParentEnded None, db)
          else if agent_state db p \<in> {Some Ag_Stopped, Some Ag_Failed} then (Ask_ParentEnded (agent_state db p), db)
          else
            (let db = begin_tx db;
                 db = upsert_pending_question c tool_use_id (parent_question text) Of_Parent db
             in (Ask_Asked p, queue_agent_message p (Some c) label Kind_Question text db)))"

section \<open>An agent's end\<close>

datatype finish_outcome =
    Fin_Queued i64
  | Fin_NotActive "agent_state option"
  | Fin_MessageWaiting
  | Fin_AgentsRunning "(i64 \<times> agent_state) list"
  | Fin_CommandsRunning "(string \<times> string \<times> int) list"

definition finish_agent :: "i64 \<Rightarrow> string \<Rightarrow> string \<Rightarrow> agents_db \<Rightarrow> finish_outcome \<times> agents_db" where
  "finish_agent c label report db =
     (case conversation_parent db c of
        None \<Rightarrow> (Fin_NotActive None, db)
      | Some p \<Rightarrow>
          if \<not> lock_conversations db [p, c] then (Fin_NotActive None, db)
          else if agent_state db c \<noteq> Some Ag_Active then (Fin_NotActive (agent_state db c), db)
          else
            (let db' = set_state {c} {Ag_Active} Ag_Finished (begin_tx db)
             in if db_running db' c \<noteq> [] then (Fin_CommandsRunning (db_running db' c), db)
                else if running_agents db' c \<noteq> [] then (Fin_AgentsRunning (running_agents db' c), db)
                else if unread_by db' c then (Fin_MessageWaiting, db)
                else (Fin_Queued p, queue_agent_message p (Some c) label Kind_Report report db')))"

datatype follow_up = Fol_Queued i64 | Fol_StateChanged agent_state | Fol_Gone

definition report_after_finish :: "i64 \<Rightarrow> string \<Rightarrow> string \<Rightarrow> agents_db \<Rightarrow> follow_up \<times> agents_db" where
  "report_after_finish c label report db =
     (case conversation_parent db c of
        None \<Rightarrow> (Fol_Gone, db)
      | Some p \<Rightarrow>
          if \<not> lock_conversations db [p, c] then (Fol_Gone, db)
          else (case agent_state db c of
             Some Ag_Finished \<Rightarrow> (Fol_Queued p, queue_agent_message p (Some c) label Kind_Report report (begin_tx db))
           | Some st \<Rightarrow> (Fol_StateChanged st, db)
           | None \<Rightarrow> (Fol_Gone, db)))"

datatype stop_outcome = Stop_NotYourChild | Stop_AlreadyEnded agent_state | Stop_Stopped "i64 list"

abbreviation live_states :: "agent_state set" where
  "live_states \<equiv> {Ag_Starting, Ag_Active, Ag_Finished}"

definition stop_subtree :: "i64 \<Rightarrow> i64 \<Rightarrow> agents_db \<Rightarrow> stop_outcome \<times> agents_db" where
  "stop_subtree caller c db =
     (if agent_of db c = None \<or> \<not> is_child db c caller then (Stop_NotYourChild, db)
      else
        (let subtree = subtree_ids db c
         in case agent_state db c of
           None \<Rightarrow> (Stop_NotYourChild, db)
         | Some Ag_Stopped \<Rightarrow> (Stop_AlreadyEnded Ag_Stopped, db)
         | Some Ag_Failed \<Rightarrow> (Stop_AlreadyEnded Ag_Failed, db)
         | Some _ \<Rightarrow> (Stop_Stopped subtree, set_state (set subtree) live_states Ag_Stopped (begin_tx db))))"

definition reactivate_agent :: "i64 \<Rightarrow> agents_db \<Rightarrow> bool \<times> agents_db" where
  "reactivate_agent c db =
     (let may = (\<lambda>a. ag_id a = c \<and> ag_state a \<in> {Ag_Finished, Ag_Stopped} \<and> ag_started a)
      in (list_ex may (db_agents db), update_agents may (\<lambda>a. a\<lparr>ag_state := Ag_Active\<rparr>) db))"

definition reactivate_finished :: "i64 \<Rightarrow> agents_db \<Rightarrow> agents_db" where
  "reactivate_finished c = set_state {c} {Ag_Finished} Ag_Active"

text \<open>A notice outside any other transaction: the sender and the recipient must exist.\<close>

definition queue_notice :: "i64 \<Rightarrow> i64 \<Rightarrow> string \<Rightarrow> string \<Rightarrow> agents_db \<Rightarrow> agents_db option" where
  "queue_notice c sender label body db =
     (if is_conversation db c \<and> is_conversation db sender
      then Some (queue_agent_message c (Some sender) label Kind_Notice body (begin_tx db)) else None)"

definition block_text :: "content_block \<Rightarrow> string option" where
  "block_text b = (case b of Text t \<Rightarrow> Some t | _ \<Rightarrow> None)"

definition last_reply :: "agents_db \<Rightarrow> i64 \<Rightarrow> string" where
  "last_reply db c =
     (case rev (filter (\<lambda>m. sm_conversation m = c \<and> sm_role m = ''assistant'') (db_messages db)) of
        [] \<Rightarrow> []
      | m # _ \<Rightarrow> concat (take 500 (utf8_chars (concat (List.map_filter block_text (sm_content m))))))"

definition idle_agent_without_report :: "i64 \<Rightarrow> agents_db \<Rightarrow> (i64 \<times> string) option" where
  "idle_agent_without_report c db =
     (case conversation_parent db c of
        None \<Rightarrow> None
      | Some p \<Rightarrow>
          if agent_state db c = Some Ag_Active \<and> \<not> question_waits db c \<and> \<not> db_requests db c \<and> db_running db c = []
            \<and> running_agents db c = []
          then Some (p, last_reply db c) else None)"

text \<open>One queued row becomes a message: saved and marked together, once.\<close>

definition deliver_agent_message ::
  "agent_message \<Rightarrow> content_block list \<Rightarrow> agents_db \<Rightarrow> nat option \<times> agents_db" where
  "deliver_agent_message row content db =
     (if \<not> is_conversation db (am_to row) then (None, db)
      else if \<not> list_ex (\<lambda>m. am_id m = am_id row \<and> \<not> am_delivered m) (db_queue db) then (None, db)
      else
        (let db = begin_tx db; saved = db_next_row db
         in (Some saved,
             create_message_on (am_to row) ''user'' content
               (db\<lparr>db_queue := map (\<lambda>m. if am_id m = am_id row then m\<lparr>am_delivered := True, am_message := Some saved\<rparr> else m)
                    (db_queue db)\<rparr>))))"

section \<open>A child's start\<close>

text \<open>The child's model and the row of its checkout are left out: nothing here reads them.\<close>

record new_child =
  nc_caller :: i64
  nc_brief :: string
  nc_persona_name :: "string option"
  nc_repo :: "(string \<times> string) option"
  nc_max_depth :: int
  nc_volumes :: "string list"

datatype create_refusal =
    Ref_Gone
  | Ref_Deleting
  | Ref_Stopped
  | Ref_TooDeep int int
  | Ref_NoAgentRow
  | Ref_Untrusted string
  | Ref_Undecided string
  | Ref_NoVolume string

definition CREDENTIAL_GIT_SSH :: string where
  "CREDENTIAL_GIT_SSH = ''git-ssh''"

definition start_refusal :: "new_child \<Rightarrow> agents_db \<Rightarrow> create_refusal option" where
  "start_refusal new db =
     (case conversation_of db (nc_caller new) of
        None \<Rightarrow> Some Ref_Gone
      | Some row \<Rightarrow>
          if cv_deleting row then Some Ref_Deleting
          else (case agent_of db (nc_caller new) of
             Some a \<Rightarrow>
               if ag_state a = Ag_Stopped then Some Ref_Stopped
               else if ag_depth a \<ge> nc_max_depth new then Some (Ref_TooDeep (nc_max_depth new) (ag_depth a))
               else None
           | None \<Rightarrow> if cv_parent row \<noteq> None then Some Ref_NoAgentRow else None))"

definition trust_refusal :: "new_child \<Rightarrow> agents_db \<Rightarrow> create_refusal option" where
  "trust_refusal new db =
     (case nc_repo new of
        None \<Rightarrow> None
      | Some (url, remote_key) \<Rightarrow>
          (case db_trust db remote_key of
             Some True \<Rightarrow> None
           | Some False \<Rightarrow> Some (Ref_Untrusted url)
           | None \<Rightarrow> Some (Ref_Undecided url)))"

definition volume_refusal :: "new_child \<Rightarrow> agents_db \<Rightarrow> create_refusal option" where
  "volume_refusal new db =
     map_option Ref_NoVolume (List.find (\<lambda>v. v \<notin> set (db_held db (nc_caller new))) (nc_volumes new))"

text \<open>What a child inherits: one level deeper, its root, its chain, and the bit for the git key.\<close>

definition inherited :: "new_child \<Rightarrow> agents_db \<Rightarrow> int \<times> i64 \<times> json option \<times> string list" where
  "inherited new db =
     (case agent_of db (nc_caller new) of
        Some a \<Rightarrow>
          (ag_depth a + 1, ag_root a, for_child (ag_chain a),
           (if (case ag_credentials a of None \<Rightarrow> True | Some names \<Rightarrow> CREDENTIAL_GIT_SSH \<in> set names)
            then [CREDENTIAL_GIT_SSH] else []))
      | None \<Rightarrow> (1, nc_caller new, None, [CREDENTIAL_GIT_SSH]))"

function users_text :: "string \<Rightarrow> string" where
  "users_text t = (case strip_prefix NOTICE_MARK t of Some rest \<Rightarrow> users_text rest | None \<Rightarrow> t)"
  by pat_completeness auto
termination
proof (relation "measure length")
  fix t rest :: string
  assume "strip_prefix NOTICE_MARK t = Some rest"
  then have "t = NOTICE_MARK @ rest" by (simp add: strip_prefix_iff)
  then show "(rest, t) \<in> measure length" by (simp add: NOTICE_MARK_def)
qed simp

declare users_text.simps [simp del]

definition create_child :: "new_child \<Rightarrow> agents_db \<Rightarrow> (create_refusal + i64) \<times> agents_db" where
  "create_child new db =
     (case start_refusal new db of
        Some why \<Rightarrow> (Inl why, db)
      | None \<Rightarrow>
          (case trust_refusal new db of
             Some (Ref_Undecided url) \<Rightarrow> (Inl (Ref_Undecided url), (begin_tx db)\<lparr>db_requests := (db_requests db)(nc_caller new := True)\<rparr>)
           | Some why \<Rightarrow> (Inl why, db)
           | None \<Rightarrow>
               (case volume_refusal new db of
                  Some why \<Rightarrow> (Inl why, db)
                | None \<Rightarrow>
                    (let (depth, root, chain, credentials) = inherited new db;
                         c = db_next_conversation db;
                         db = begin_tx db;
                         db = db\<lparr>db_conversations := db_conversations db @
                                   [\<lparr>cv_id = c, cv_parent = Some (nc_caller new), cv_deleting = False, cv_paused = False\<rparr>],
                                 db_next_conversation := c + 1,
                                 db_agents := db_agents db @
                                   [\<lparr>ag_id = c, ag_root = root, ag_depth = depth, ag_brief = nc_brief new,
                                     ag_persona_name = nc_persona_name new, ag_persona = None, ag_state = Ag_Starting,
                                     ag_started = False, ag_chain = chain, ag_credentials = Some credentials\<rparr>]\<rparr>;
                         db = create_message_on c ''user'' [Text (users_text (nc_brief new))] db
                     in (Inr c, db\<lparr>db_held := (db_held db)(c := nc_volumes new)\<rparr>)))))"

record start_done =
  sd_notice :: string
  sd_persona :: "persona_snapshot option"
  sd_parent_notice :: "string option"
  sd_label :: string

definition json_field :: "string \<Rightarrow> json \<Rightarrow> json option" where
  "json_field k j = (case j of JObject fs \<Rightarrow> map_of fs k | _ \<Rightarrow> None)"

text \<open>\<open>rule_chain || tools\<close>: a JSON array takes an array's entries, or one value.\<close>

definition jsonb_concat :: "json \<Rightarrow> json \<Rightarrow> json" where
  "jsonb_concat a b =
     (let entries = (\<lambda>j. case j of JArray js \<Rightarrow> js | _ \<Rightarrow> [j]) in JArray (entries a @ entries b))"

definition started_row :: "start_done \<Rightarrow> agent_row \<Rightarrow> agent_row" where
  "started_row d a =
     (let tools = Option.bind (sd_persona d) (\<lambda>p. json_field ''tools'' (sn_settings p));
          a = a\<lparr>ag_state := Ag_Active, ag_started := True, ag_persona := sd_persona d,
                ag_persona_name := (case sd_persona d of Some p \<Rightarrow> Some (sn_name p) | None \<Rightarrow> ag_persona_name a)\<rparr>
      in case tools of
           None \<Rightarrow> a
         | Some JNull \<Rightarrow> a
         | Some t \<Rightarrow>
             a\<lparr>ag_chain := Some (jsonb_concat (case ag_chain a of Some chain \<Rightarrow> chain | None \<Rightarrow> JArray []) t)\<rparr>)"

definition complete_start :: "i64 \<Rightarrow> i64 \<Rightarrow> start_done \<Rightarrow> agents_db \<Rightarrow> bool \<times> agents_db" where
  "complete_start c p d db =
     (if \<not> lock_conversations db [p, c] then (False, db)
      else if agent_state db c \<noteq> Some Ag_Starting then (False, db)
      else
        (let db = update_agents (\<lambda>a. ag_id a = c \<and> ag_state a = Ag_Starting) (started_row d) (begin_tx db);
             db = queue_agent_message c None ''smelt'' Kind_Notice (sd_notice d) db
         in (True, (case sd_parent_notice d of
              Some notice \<Rightarrow> queue_agent_message p (Some c) (sd_label d) Kind_Notice notice db
            | None \<Rightarrow> db))))"

definition fail_start :: "i64 \<Rightarrow> i64 \<Rightarrow> string \<Rightarrow> string \<Rightarrow> agents_db \<Rightarrow> bool \<times> agents_db" where
  "fail_start c p label text db =
     (if \<not> lock_conversations db [p, c] then (False, db)
      else if agent_state db c \<noteq> Some Ag_Starting then (False, db)
      else
        (let db = set_state {c} {Ag_Starting} Ag_Failed (begin_tx db);
             db = queue_agent_message p (Some c) label Kind_Report text db
         in (True, create_message_on c ''user'' [Text (mark_notice text)] db)))"

text \<open>The bit for the git key, narrowed by a persona and cleared by a start that didn't complete.\<close>

definition narrow_agent_credentials :: "i64 \<Rightarrow> bool \<Rightarrow> agents_db \<Rightarrow> bool \<times> agents_db" where
  "narrow_agent_credentials c wants_git_ssh db =
     (let may = (\<lambda>a. ag_id a = c \<and> ag_state a = Ag_Starting)
      in (list_ex may (db_agents db),
          update_agents may
            (\<lambda>a. a\<lparr>ag_credentials := Some
               (if wants_git_ssh \<and> (case ag_credentials a of None \<Rightarrow> True | Some names \<Rightarrow> CREDENTIAL_GIT_SSH \<in> set names)
                then [CREDENTIAL_GIT_SSH] else [])\<rparr>) db))"

definition clear_agent_credentials :: "i64 \<Rightarrow> agents_db \<Rightarrow> bool \<times> agents_db" where
  "clear_agent_credentials c db =
     (let may = (\<lambda>a. ag_id a = c \<and> \<not> ag_started a)
      in (list_ex may (db_agents db), update_agents may (\<lambda>a. a\<lparr>ag_credentials := Some []\<rparr>) db))"

section \<open>Deleting a subtree\<close>

record deleting =
  de_subtree :: "i64 list"
  de_parent :: "i64 option"
  de_stopped :: "(i64 \<times> agent_state) list"

definition mark_subtree_deleting :: "i64 \<Rightarrow> agents_db \<Rightarrow> deleting option \<times> agents_db" where
  "mark_subtree_deleting c db =
     (case conversation_of db c of
        None \<Rightarrow> (None, db)
      | Some row \<Rightarrow>
          (let subtree = subtree_ids db c;
               stopped = map (\<lambda>a. (ag_id a, ag_state a))
                 (sort_key ag_id (filter (\<lambda>a. ag_id a \<in> set subtree \<and> ag_state a \<in> {Ag_Active, Ag_Finished}) (db_agents db)));
               db = begin_tx db;
               db = db\<lparr>db_conversations :=
                     map (\<lambda>r. if cv_id r \<in> set subtree then r\<lparr>cv_deleting := True\<rparr> else r) (db_conversations db)\<rparr>
           in (Some \<lparr>de_subtree = subtree, de_parent = cv_parent row, de_stopped = stopped\<rparr>,
               set_state (set subtree) live_states Ag_Stopped db)))"

definition unmark_subtree_deleting :: "deleting \<Rightarrow> agents_db \<Rightarrow> agents_db" where
  "unmark_subtree_deleting d db =
     (let db = begin_tx db;
          db = db\<lparr>db_conversations :=
                map (\<lambda>r. if cv_id r \<in> set (de_subtree d) then r\<lparr>cv_deleting := False\<rparr> else r) (db_conversations db)\<rparr>
      in fold (\<lambda>(c, st). set_state {c} {Ag_Stopped} st) (de_stopped d) db)"

text \<open>The cascade of a deleted conversation; a row it sent keeps its label.\<close>

definition delete_rows :: "i64 set \<Rightarrow> agents_db \<Rightarrow> agents_db" where
  "delete_rows gone db =
     db\<lparr>db_conversations := filter (\<lambda>r. cv_id r \<notin> gone) (db_conversations db),
        db_agents := filter (\<lambda>a. ag_id a \<notin> gone \<and> ag_root a \<notin> gone) (db_agents db),
        db_queue := map (\<lambda>m. case am_from m of Some f \<Rightarrow> if f \<in> gone then m\<lparr>am_from := None\<rparr> else m | None \<Rightarrow> m)
          (filter (\<lambda>m. am_to m \<notin> gone) (db_queue db)),
        db_questions := (\<lambda>c. if c \<in> gone then None else db_questions db c),
        db_messages := filter (\<lambda>m. sm_conversation m \<notin> gone) (db_messages db),
        db_requests := (\<lambda>c. c \<notin> gone \<and> db_requests db c),
        db_running := (\<lambda>c. if c \<in> gone then [] else db_running db c),
        db_held := (\<lambda>c. if c \<in> gone then [] else db_held db c)\<rparr>"

definition delete_subtree_rows :: "i64 \<Rightarrow> deleting \<Rightarrow> string \<Rightarrow> agents_db \<Rightarrow> agents_db" where
  "delete_subtree_rows c d label db =
     (if \<not> is_conversation db c then db
      else
        (let gone = set (subtree_ids db c);
             db = begin_tx db;
             db = (case de_parent d of
                 Some p \<Rightarrow>
                   if is_conversation db p
                   then queue_agent_message p (Some c) label Kind_Notice (''the user deleted '' @ label) db else db
               | None \<Rightarrow> db)
         in delete_rows gone db))"

end
