(* ===== verification/Agents_Protocol.thy ===== *)
theory Agents_Protocol
  imports Agents_Db Machines
begin

text \<open>
  The transactions of \<open>Agents_Db\<close> as the steps of one database, with what the server's callers hold between them: the deletes
  under way. What is outside (commands that run, trust decisions, volumes held, replies saved) may change at any step. And the
  schema's own promises: rows are there once, and what they refer to exists.
\<close>

section \<open>Steps\<close>

datatype agents_op =
    Op_NewConversation
  | Op_Create new_child
  | Op_Complete i64 start_done
  | Op_Fail i64 string string
  | Op_Message i64 recipient string string
  | Op_Ask i64 string string string
  | Op_Finish i64 string string
  | Op_FollowUp i64 string string
  | Op_Stop i64 i64
  | Op_Reactivate i64
  | Op_ReactivateFinished i64
  | Op_Notice i64 i64 string string
  | Op_Deliver nat "content_block list"
  | Op_AskUser i64 string "question list"
  | Op_Answer i64 string "question_answer list"
  | Op_Take i64 string "content_block list" bool
  | Op_Say i64 string "content_block list"
  | Op_Pause i64 bool
  | Op_Narrow i64 bool
  | Op_Clear i64
  | Op_Mark i64
  | Op_Unmark nat
  | Op_Delete nat string
  | Op_Outside "i64 \<Rightarrow> (string \<times> string \<times> int) list" "i64 \<Rightarrow> bool" "string \<Rightarrow> bool option" "i64 \<Rightarrow> string list"

record agents_world =
  aw_db :: agents_db
  aw_deletes :: "deleting list"

definition agents_start :: agents_world where
  "agents_start = \<lparr>aw_db = empty_db, aw_deletes = []\<rparr>"

definition new_conversation :: "agents_db \<Rightarrow> agents_db" where
  "new_conversation db =
     db\<lparr>db_conversations := db_conversations db @
          [\<lparr>cv_id = db_next_conversation db, cv_parent = None, cv_deleting = False, cv_paused = False\<rparr>],
        db_next_conversation := db_next_conversation db + 1\<rparr>"

definition set_paused :: "i64 \<Rightarrow> bool \<Rightarrow> agents_db \<Rightarrow> agents_db" where
  "set_paused c b db = db\<lparr>db_conversations := map (\<lambda>r. if cv_id r = c then r\<lparr>cv_paused := b\<rparr> else r) (db_conversations db)\<rparr>"

text \<open>The result of a question, as the turn words it, is whatever block it is.\<close>

fun db_step :: "(stored_question \<Rightarrow> content_block) \<Rightarrow> agents_op \<Rightarrow> agents_db \<Rightarrow> agents_db" where
  "db_step result Op_NewConversation db = new_conversation db"
| "db_step result (Op_Create new) db = snd (create_child new db)"
| "db_step result (Op_Complete c d) db =
     (case conversation_parent db c of Some p \<Rightarrow> snd (complete_start c p d db) | None \<Rightarrow> db)"
| "db_step result (Op_Fail c label text) db =
     (case conversation_parent db c of Some p \<Rightarrow> snd (fail_start c p label text db) | None \<Rightarrow> db)"
| "db_step result (Op_Message c who label text) db = snd (message_agent c who label text db)"
| "db_step result (Op_Ask c i text label) db = snd (ask_parent c i text label db)"
| "db_step result (Op_Finish c label report) db = snd (finish_agent c label report db)"
| "db_step result (Op_FollowUp c label report) db = snd (report_after_finish c label report db)"
| "db_step result (Op_Stop caller c) db = snd (stop_subtree caller c db)"
| "db_step result (Op_Reactivate c) db = snd (reactivate_agent c db)"
| "db_step result (Op_ReactivateFinished c) db = reactivate_finished c db"
| "db_step result (Op_Notice c sender label body) db =
     (case queue_notice c sender label body db of Some db' \<Rightarrow> db' | None \<Rightarrow> db)"
| "db_step result (Op_Deliver i content) db =
     (case List.find (\<lambda>m. am_id m = i) (db_queue db) of
        Some m \<Rightarrow> snd (deliver_agent_message m content db)
      | None \<Rightarrow> db)"
| "db_step result (Op_AskUser c i qs) db = (if is_conversation db c then create_pending_question c i qs db else db)"
| "db_step result (Op_Answer c i answers) db = snd (answer_pending_question c i answers db)"
| "db_step result (Op_Take c role content include_waiting) db =
     (if is_conversation db c then snd (create_message_taking_question result c role content include_waiting db) else db)"
| "db_step result (Op_Say c role content) db = (if is_conversation db c then create_message_on c role content db else db)"
| "db_step result (Op_Pause c b) db = set_paused c b db"
| "db_step result (Op_Narrow c wants) db = snd (narrow_agent_credentials c wants db)"
| "db_step result (Op_Clear c) db = snd (clear_agent_credentials c db)"
| "db_step result (Op_Mark c) db = snd (mark_subtree_deleting c db)"
| "db_step result (Op_Outside running requests trust held) db =
     db\<lparr>db_running := running, db_requests := requests, db_trust := trust, db_held := held\<rparr>"
| "db_step result (Op_Unmark n) db = db"
| "db_step result (Op_Delete n label) db = db"

fun agents_step :: "(stored_question \<Rightarrow> content_block) \<Rightarrow> agents_world \<Rightarrow> agents_op \<Rightarrow> agents_world" where
  "agents_step result w (Op_Unmark n) =
     (if n < length (aw_deletes w) then w\<lparr>aw_db := unmark_subtree_deleting (aw_deletes w ! n) (aw_db w)\<rparr> else w)"
| "agents_step result w (Op_Delete n label) =
     (if n < length (aw_deletes w)
      then w\<lparr>aw_db := delete_subtree_rows (hd (de_subtree (aw_deletes w ! n))) (aw_deletes w ! n) label (aw_db w)\<rparr> else w)"
| "agents_step result w (Op_Mark c) =
     (case mark_subtree_deleting c (aw_db w) of
        (Some d, db) \<Rightarrow> w\<lparr>aw_db := db, aw_deletes := aw_deletes w @ [d]\<rparr>
      | (None, db) \<Rightarrow> w)"
| "agents_step result w op = w\<lparr>aw_db := db_step result op (aw_db w)\<rparr>"

section \<open>Subtrees\<close>

inductive below :: "agents_db \<Rightarrow> i64 \<Rightarrow> i64 \<Rightarrow> bool" for db where
  below_child: "is_child db c p \<Longrightarrow> below db p c"
| below_deeper: "below db p q \<Longrightarrow> is_child db c q \<Longrightarrow> below db p c"

definition conversation_ids :: "agents_db \<Rightarrow> i64 set" where
  "conversation_ids db = cv_id ` set (db_conversations db)"

definition tree_ok :: "agents_db \<Rightarrow> bool" where
  "tree_ok db \<longleftrightarrow> distinct (map cv_id (db_conversations db)) \<and>
     (\<forall>r\<in>set (db_conversations db). cv_id r < db_next_conversation db) \<and>
     (\<forall>c p. is_child db c p \<longrightarrow> p < c \<and> p \<in> conversation_ids db)"

lemma is_conversation_iff: "is_conversation db c \<longleftrightarrow> c \<in> conversation_ids db"
  by (auto simp: is_conversation_def conversation_ids_def list_ex_iff)

lemma is_child_iff: "is_child db c p \<longleftrightarrow> (\<exists>r\<in>set (db_conversations db). cv_id r = c \<and> cv_parent r = Some p)"
  by (auto simp: is_child_def list_ex_iff)

lemma is_child_id: "is_child db c p \<Longrightarrow> c \<in> conversation_ids db"
  by (auto simp: is_child_iff conversation_ids_def)

lemma finite_conversations [simp]: "finite (conversation_ids db)"
  by (simp add: conversation_ids_def)

lemma below_id: "below db p c \<Longrightarrow> c \<in> conversation_ids db"
  by (erule below.cases) (auto dest: is_child_id)

lemma below_less: "tree_ok db \<Longrightarrow> below db p c \<Longrightarrow> p < c"
  by (erule below.induct) (auto simp: tree_ok_def intro: less_trans)

lemma below_first: "below db p c \<Longrightarrow> \<exists>q. is_child db q p \<and> (c = q \<or> below db q c)"
  by (erule below.induct) (auto intro: below_child below_deeper)

lemma below_down: "below db q c \<Longrightarrow> is_child db q p \<Longrightarrow> below db p c"
  by (induction rule: below.induct) (auto intro: below_child below_deeper)

lemma set_children_rows: "set (concat (map (\<lambda>c. map cv_id (children_rows db c)) work)) = {c. \<exists>p\<in>set work. is_child db c p}"
  by (auto simp: children_rows_def is_child_iff)

lemma levels_sound: "c \<in> set (levels_below n db work) \<Longrightarrow> \<exists>p\<in>set work. below db p c"
proof (induction n db work rule: levels_below.induct)
  case (2 n db work)
  let ?found = "concat (map (\<lambda>c. map cv_id (children_rows db c)) work)"
  have "c \<in> set ?found \<or> c \<in> set (levels_below n db ?found)" using 2(2) by (auto simp: Let_def split: if_splits)
  then show ?case
  proof
    assume "c \<in> set ?found"
    then show ?thesis unfolding set_children_rows by (auto intro: below_child)
  next
    assume deep: "c \<in> set (levels_below n db ?found)"
    then have "?found \<noteq> []" using 2(2) by (cases n) (auto simp: Let_def split: if_splits)
    then obtain q where "q \<in> set ?found" "below db q c" using 2(1) deep by blast
    then show ?thesis unfolding set_children_rows by (auto intro: below_down)
  qed
qed simp

lemma levels_complete:
  assumes "tree_ok db" "card {i \<in> conversation_ids db. \<exists>p\<in>set work. p < i} \<le> n" "p \<in> set work" "below db p c"
  shows "c \<in> set (levels_below n db work)"
  using assms(2-)
proof (induction n arbitrary: work p)
  case 0
  then have "{i \<in> conversation_ids db. \<exists>p\<in>set work. p < i} = {}" by simp
  then show ?case using below_less [OF assms(1) 0(3)] below_id [OF 0(3)] 0(2) by blast
next
  case (Suc n)
  let ?found = "concat (map (\<lambda>c. map cv_id (children_rows db c)) work)"
  let ?more = "\<lambda>w. {i \<in> conversation_ids db. \<exists>p\<in>w. p < i}"
  obtain q where q: "is_child db q p" "c = q \<or> below db q c" using below_first [OF Suc(4)] by blast
  then have found: "q \<in> set ?found" using Suc(3) unfolding set_children_rows by blast
  have up: "\<exists>p\<in>set work. p < f \<and> f \<in> conversation_ids db" if "f \<in> set ?found" for f
    using that assms(1) unfolding set_children_rows by (auto simp: tree_ok_def dest: is_child_id)
  define low where "low = Min (set ?found)"
  have low: "low \<in> set ?found" "\<forall>f\<in>set ?found. low \<le> f" 
  proof -
    have "set ?found \<noteq> {}" using found by (rule ex_in_conv [THEN iffD1, OF exI])
    then show "low \<in> set ?found" unfolding low_def by (intro Min_in) (rule finite_set)
    show "\<forall>f\<in>set ?found. low \<le> f" unfolding low_def by (intro ballI Min_le) (rule finite_set)
  qed
  have "?more (set ?found) \<subseteq> ?more (set work)"
  proof
    fix i assume "i \<in> ?more (set ?found)"
    then obtain f where f: "i \<in> conversation_ids db" "f \<in> set ?found" "f < i" by blast
    obtain p where "p \<in> set work" "p < f" using up [OF f(2)] by blast
    then show "i \<in> ?more (set work)" using f by (auto intro: less_trans)
  qed
  moreover have "low \<in> ?more (set work)" using up [OF low(1)] by blast
  moreover have "low \<notin> ?more (set ?found)" using low(2) by (auto simp: not_less simp del: set_concat)
  ultimately have "?more (set ?found) \<subset> ?more (set work)" by blast
  moreover have "finite (?more (set work))" by (rule finite_subset [OF _ finite_conversations]) auto
  ultimately have "card (?more (set ?found)) < card (?more (set work))" by (rule psubset_card_mono [rotated])
  then have "card (?more (set ?found)) \<le> n" using Suc(2) by simp
  then have "c \<in> set ?found \<or> c \<in> set (levels_below n db ?found)" using q(2) found Suc(1) by blast
  moreover have "?found \<noteq> []" using found by (metis empty_iff empty_set)
  ultimately show ?case by (simp only: levels_below.simps Let_def if_False set_append Un_iff)
qed

lemma set_levels:
  assumes ok: "tree_ok db"
  shows "set (levels_below (length (db_conversations db)) db [c]) = {d. below db c d}"
proof -
  have "card {i \<in> conversation_ids db. c < i} \<le> card (conversation_ids db)" by (intro card_mono) auto
  also have "\<dots> \<le> length (db_conversations db)" unfolding conversation_ids_def by (metis card_image_le card_length finite_set order_trans)
  finally have "d \<in> set (levels_below (length (db_conversations db)) db [c])" if "below db c d" for d
    using levels_complete [OF ok, of "[c]"] that by simp
  then show ?thesis using levels_sound [of _ "length (db_conversations db)" db "[c]"] by auto
qed

lemma set_subtree: "tree_ok db \<Longrightarrow> set (subtree_ids db c) = insert c {d. below db c d}"
  using set_levels by (auto simp: subtree_ids_def)

end
