(* ===== verification/Agents_Moves.thy ===== *)
theory Agents_Moves
  imports Agents_Protocol
begin

text \<open>
  What any transaction comes down to: moves on the tables, each with the condition the code meets before it makes it. The
  invariants of the agents' database are proved move by move, and every operation is a run of moves.
\<close>

section \<open>Moves\<close>

definition is_report :: "agents_db \<Rightarrow> i64 \<Rightarrow> agent_message \<Rightarrow> bool" where
  "is_report db c m \<longleftrightarrow> am_kind m = Kind_Report \<and> am_from m = Some c \<and> is_child db c (am_to m)"

definition reported :: "agents_db \<Rightarrow> i64 \<Rightarrow> bool" where
  "reported db c \<longleftrightarrow> (\<exists>m\<in>set (db_queue db). is_report db c m)"

definition has_unread_message :: "agents_db \<Rightarrow> i64 \<Rightarrow> bool" where
  "has_unread_message db c \<longleftrightarrow> (\<exists>m\<in>set (db_queue db). am_to m = c \<and> am_kind m = Kind_Message \<and> \<not> am_delivered m)"

definition asks_parent :: "agents_db \<Rightarrow> i64 \<Rightarrow> stored_question \<Rightarrow> agent_message \<Rightarrow> bool" where
  "asks_parent db c q m \<longleftrightarrow> m \<in> set (db_queue db) \<and> am_kind m = Kind_Question \<and> am_from m = Some c \<and> is_child db c (am_to m)
     \<and> am_created m = sq_created q \<and> sq_questions q = parent_question (am_body m)"

definition mark_delivered :: "nat \<Rightarrow> nat \<Rightarrow> agents_db \<Rightarrow> agents_db" where
  "mark_delivered i saved db =
     db\<lparr>db_queue := map (\<lambda>m. if am_id m = i then m\<lparr>am_delivered := True, am_message := Some saved\<rparr> else m) (db_queue db)\<rparr>"

definition add_child :: "i64 \<Rightarrow> agent_row \<Rightarrow> agents_db \<Rightarrow> agents_db" where
  "add_child p a db =
     db\<lparr>db_conversations := db_conversations db @ [\<lparr>cv_id = db_next_conversation db, cv_parent = Some p, cv_deleting = False, cv_paused = False\<rparr>],
        db_next_conversation := db_next_conversation db + 1, db_agents := db_agents db @ [a]\<rparr>"

definition set_flags :: "(conversation_row \<Rightarrow> conversation_row) \<Rightarrow> agents_db \<Rightarrow> agents_db" where
  "set_flags f db = db\<lparr>db_conversations := map f (db_conversations db)\<rparr>"

text \<open>\<open>restores\<close> says whether deletes may fail and put back what they stopped.\<close>

inductive db_move :: "bool \<Rightarrow> agents_db \<Rightarrow> agents_db \<Rightarrow> bool" for restores where
  mv_clock: "db_move restores db (begin_tx db)"
| mv_root: "db_move restores db (new_conversation db)"
| mv_child: "p \<in> conversation_ids db \<Longrightarrow> ag_id a = db_next_conversation db \<Longrightarrow> ag_state a = Ag_Starting \<Longrightarrow> \<not> ag_started a \<Longrightarrow>
    db_move restores db (add_child p a db)"
| mv_start: "db_move restores db (update_agents (\<lambda>a. ag_id a = c \<and> ag_state a = Ag_Starting) (started_row d) db)"
| mv_fail: "reported db c \<Longrightarrow> db_move restores db (set_state {c} {Ag_Starting} Ag_Failed db)"
| mv_finish: "reported db c \<Longrightarrow> \<not> has_unread_message db c \<Longrightarrow> db_move restores db (set_state {c} {Ag_Active} Ag_Finished db)"
| mv_stop: "db_move restores db (set_state cs live_states Ag_Stopped db)"
| mv_resume: "db_move restores db (update_agents (\<lambda>a. ag_id a = c \<and> ag_state a \<in> {Ag_Finished, Ag_Stopped} \<and> ag_started a)
    (\<lambda>a. a\<lparr>ag_state := Ag_Active\<rparr>) db)"
| mv_resume_finished: "db_move restores db (set_state {c} {Ag_Finished} Ag_Active db)"
| mv_restore: "restores \<Longrightarrow> st \<in> {Ag_Active, Ag_Finished} \<Longrightarrow> \<forall>a\<in>set (db_agents db). ag_id a = c \<longrightarrow> ag_started a \<Longrightarrow>
    st = Ag_Finished \<longrightarrow> (c \<in> ag_id ` set (db_agents db) \<longrightarrow> reported db c) \<Longrightarrow> db_move restores db (set_state {c} {Ag_Stopped} st db)"
| mv_columns: "\<forall>a. ag_id (f a) = ag_id a \<and> ag_state (f a) = ag_state a \<and> ag_started (f a) = ag_started a \<Longrightarrow>
    db_move restores db (update_agents g f db)"
| mv_queue: "c \<in> conversation_ids db \<Longrightarrow> (\<forall>x. sender = Some x \<longrightarrow> x \<in> conversation_ids db) \<Longrightarrow>
    (kind = Kind_Question \<longrightarrow> (\<forall>m\<in>set (db_queue db). am_kind m = Kind_Question \<longrightarrow> am_created m < db_now db)) \<Longrightarrow>
    (kind = Kind_Message \<longrightarrow> (\<forall>a\<in>set (db_agents db). ag_id a = c \<longrightarrow> ag_state a \<noteq> Ag_Finished)) \<Longrightarrow>
    db_move restores db (queue_agent_message c sender label kind body db)"
| mv_deliver: "m \<in> set (db_queue db) \<Longrightarrow> \<not> am_delivered m \<Longrightarrow>
    db_move restores db (create_message_on (am_to m) ''user'' content (mark_delivered (am_id m) (db_next_row db) db))"
| mv_message: "c \<in> conversation_ids db \<Longrightarrow> db_move restores db (create_message_on c role content db)"
| mv_ask_user: "c \<in> conversation_ids db \<Longrightarrow> db_move restores db (upsert_pending_question c i qs Of_User db)"
| mv_ask_parent: "m \<in> set (db_queue db) \<Longrightarrow> am_kind m = Kind_Question \<Longrightarrow> am_from m = Some c \<Longrightarrow> is_child db c (am_to m) \<Longrightarrow>
    am_created m = db_now db \<Longrightarrow> am_body m = text \<Longrightarrow> c \<in> conversation_ids db \<Longrightarrow>
    db_move restores db (upsert_pending_question c i (parent_question text) Of_Parent db)"
| mv_answer: "db_questions db c = Some q \<Longrightarrow> sq_asked_of q = Of_Parent \<longrightarrow> (\<exists>p. is_child db c p \<and> question_read db p c q) \<Longrightarrow>
    db_move restores db (put_question c (Some (q\<lparr>sq_answer := Some answers\<rparr>)) db)"
| mv_take: "db_move restores db (put_question c None db)"
| mv_flags: "\<forall>r. cv_id (f r) = cv_id r \<and> cv_parent (f r) = cv_parent r \<Longrightarrow> db_move restores db (set_flags f db)"
| mv_outside: "db_move restores db (db\<lparr>db_running := running, db_requests := requests, db_trust := trust, db_held := held\<rparr>)"
| mv_delete: "\<forall>c p. is_child db c p \<longrightarrow> p \<in> gone \<longrightarrow> c \<in> gone \<Longrightarrow> db_move restores db (delete_rows gone db)"

section \<open>The schema\<close>

definition refs_ok :: "agents_db \<Rightarrow> bool" where
  "refs_ok db \<longleftrightarrow> tree_ok db \<and> distinct (map ag_id (db_agents db)) \<and>
     (\<forall>a\<in>set (db_agents db). \<exists>p. is_child db (ag_id a) p) \<and>
     (\<forall>m\<in>set (db_queue db). am_to m \<in> conversation_ids db \<and> set_option (am_from m) \<subseteq> conversation_ids db) \<and>
     dom (db_questions db) \<subseteq> conversation_ids db"

lemma same_tables [simp]:
  "conversation_ids (begin_tx db) = conversation_ids db" "is_child (begin_tx db) = is_child db"
  "conversation_ids (update_agents g f db) = conversation_ids db" "is_child (update_agents g f db) = is_child db"
  "conversation_ids (set_state cs froms st db) = conversation_ids db" "is_child (set_state cs froms st db) = is_child db"
  "conversation_ids (queue_agent_message c s l k b db) = conversation_ids db" "is_child (queue_agent_message c s l k b db) = is_child db"
  "conversation_ids (create_message_on c r t db) = conversation_ids db" "is_child (create_message_on c r t db) = is_child db"
  "conversation_ids (put_question c q db) = conversation_ids db" "is_child (put_question c q db) = is_child db"
  "conversation_ids (mark_delivered i n db) = conversation_ids db" "is_child (mark_delivered i n db) = is_child db"
  "conversation_ids (upsert_pending_question c tid qs asked db) = conversation_ids db" "is_child (upsert_pending_question c tid qs asked db) = is_child db"
  "conversation_ids (db\<lparr>db_running := running, db_requests := requests, db_trust := trust, db_held := held\<rparr>) = conversation_ids db"
  "is_child (db\<lparr>db_running := running, db_requests := requests, db_trust := trust, db_held := held\<rparr>) = is_child db"
  by (auto simp: conversation_ids_def is_child_def begin_tx_def update_agents_def set_state_def queue_agent_message_def
      create_message_on_def put_question_def mark_delivered_def upsert_pending_question_def fun_eq_iff)

lemma same_fields [simp]:
  "db_queue (begin_tx db) = db_queue db" "db_agents (begin_tx db) = db_agents db" "db_questions (begin_tx db) = db_questions db"
  "db_queue (update_agents g f db) = db_queue db" "db_questions (update_agents g f db) = db_questions db"
  "db_queue (set_state cs froms st db) = db_queue db" "db_questions (set_state cs froms st db) = db_questions db"
  "db_agents (queue_agent_message c s l k b db) = db_agents db" "db_questions (queue_agent_message c s l k b db) = db_questions db"
  "db_agents (create_message_on c r t db) = db_agents db" "db_questions (create_message_on c r t db) = db_questions db"
  "db_queue (create_message_on c r t db) = db_queue db"
  "db_agents (put_question c q db) = db_agents db" "db_queue (put_question c q db) = db_queue db"
  "db_questions (put_question c q db) = (db_questions db)(c := q)"
  "db_agents (mark_delivered i n db) = db_agents db" "db_questions (mark_delivered i n db) = db_questions db"
  "db_agents (upsert_pending_question c tid qs asked db) = db_agents db" "db_queue (upsert_pending_question c tid qs asked db) = db_queue db"
  "db_agents (add_child p a db) = db_agents db @ [a]" "db_queue (add_child p a db) = db_queue db" "db_questions (add_child p a db) = db_questions db"
  "db_agents (new_conversation db) = db_agents db" "db_queue (new_conversation db) = db_queue db" "db_questions (new_conversation db) = db_questions db"
  "db_agents (set_flags h db) = db_agents db" "db_queue (set_flags h db) = db_queue db" "db_questions (set_flags h db) = db_questions db"
  by (simp_all add: begin_tx_def update_agents_def set_state_def queue_agent_message_def create_message_on_def put_question_def
      mark_delivered_def upsert_pending_question_def add_child_def new_conversation_def set_flags_def)

lemma grown_tables [simp]:
  "conversation_ids (new_conversation db) = insert (db_next_conversation db) (conversation_ids db)"
  "is_child (new_conversation db) = is_child db"
  "conversation_ids (add_child p a db) = insert (db_next_conversation db) (conversation_ids db)"
  "is_child (add_child p a db) c q \<longleftrightarrow> is_child db c q \<or> c = db_next_conversation db \<and> q = p"
  by (auto simp: conversation_ids_def is_child_def new_conversation_def add_child_def fun_eq_iff)

lemma flag_tables:
  assumes "\<forall>r. cv_id (f r) = cv_id r \<and> cv_parent (f r) = cv_parent r"
  shows "conversation_ids (set_flags f db) = conversation_ids db" "is_child (set_flags f db) = is_child db"
    "map cv_id (db_conversations (set_flags f db)) = map cv_id (db_conversations db)"
  using assms by (auto simp: conversation_ids_def is_child_iff set_flags_def fun_eq_iff image_image)

lemma deleted_tables:
  "conversation_ids (delete_rows gone db) = conversation_ids db - gone"
  "is_child (delete_rows gone db) c p \<longleftrightarrow> is_child db c p \<and> c \<notin> gone"
  by (auto simp: conversation_ids_def is_child_iff delete_rows_def)

lemma set_agents:
  "set (db_agents (update_agents g f db)) = (\<lambda>a. if g a then f a else a) ` set (db_agents db)"
  "map ag_id (db_agents (update_agents g f db)) = map (\<lambda>a. ag_id (if g a then f a else a)) (db_agents db)"
  by (simp_all add: update_agents_def)

end
