(* ===== verification/Agents_Invariants.thy ===== *)
theory Agents_Invariants
  imports Agents_Moves
begin

text \<open>
  What every move keeps: the rows refer to rows that exist, an agent that works has started, an agent that ended reported to its
  parent, a question asked of the parent is a row of the parent's queue, and a queued row becomes one message.
\<close>

definition delivered_as :: "nat \<Rightarrow> nat \<Rightarrow> agent_message \<Rightarrow> agent_message" where
  "delivered_as n saved m = (if am_id m = n then m\<lparr>am_delivered := True, am_message := Some saved\<rparr> else m)"

lemma delivered_as_fields [simp]:
  "am_id (delivered_as n saved m) = am_id m" "am_to (delivered_as n saved m) = am_to m" "am_from (delivered_as n saved m) = am_from m"
  "am_label (delivered_as n saved m) = am_label m" "am_kind (delivered_as n saved m) = am_kind m" "am_body (delivered_as n saved m) = am_body m"
  "am_created (delivered_as n saved m) = am_created m"
  "am_delivered (delivered_as n saved m) \<longleftrightarrow> am_delivered m \<or> am_id m = n"
  "am_message (delivered_as n saved m) = (if am_id m = n then Some saved else am_message m)"
  by (simp_all add: delivered_as_def)

lemma queues [simp]:
  "db_queue (queue_agent_message c sender label kind body db) = db_queue db @
     [\<lparr>am_id = db_next_row db, am_to = c, am_from = sender, am_label = label, am_kind = kind, am_body = body,
       am_created = db_now db, am_delivered = False, am_message = None\<rparr>]"
  "db_queue (mark_delivered n saved db) = map (delivered_as n saved) (db_queue db)"
  by (simp_all add: queue_agent_message_def mark_delivered_def delivered_as_def)

lemma questions_upserted [simp]:
  "db_questions (upsert_pending_question c tid qs asked db) = (db_questions db)(c \<mapsto>
     \<lparr>sq_tool_use_id = tid, sq_questions = qs, sq_answer = None, sq_asked_of = asked, sq_created = db_now db\<rparr>)"
  by (simp add: upsert_pending_question_def)

section \<open>The schema, kept\<close>

lemma tree_begin [simp]:
  "tree_ok (begin_tx db) = tree_ok db" "tree_ok (update_agents g f db) = tree_ok db" "tree_ok (set_state cs froms st db) = tree_ok db"
  "tree_ok (queue_agent_message c s l k b db) = tree_ok db" "tree_ok (create_message_on c r t db) = tree_ok db"
  "tree_ok (put_question c q db) = tree_ok db" "tree_ok (mark_delivered n saved db) = tree_ok db"
  "tree_ok (upsert_pending_question c tid qs asked db) = tree_ok db"
  "tree_ok (db\<lparr>db_running := running, db_requests := requests, db_trust := trust, db_held := held\<rparr>) = tree_ok db"
  by (simp_all add: tree_ok_def begin_tx_def update_agents_def set_state_def queue_agent_message_def create_message_on_def
      put_question_def mark_delivered_def upsert_pending_question_def is_child_def conversation_ids_def)

lemma new_id: "tree_ok db \<Longrightarrow> c \<in> conversation_ids db \<Longrightarrow> c < db_next_conversation db"
  by (auto simp: tree_ok_def conversation_ids_def)

lemma tree_grows:
  "tree_ok db \<Longrightarrow> tree_ok (new_conversation db)"
  "tree_ok db \<Longrightarrow> p \<in> conversation_ids db \<Longrightarrow> tree_ok (add_child p a db)"
  unfolding tree_ok_def grown_tables
  by (auto simp: new_conversation_def add_child_def conversation_ids_def)

lemma tree_flags: "tree_ok db \<Longrightarrow> \<forall>r. cv_id (f r) = cv_id r \<and> cv_parent (f r) = cv_parent r \<Longrightarrow> tree_ok (set_flags f db)"
  unfolding tree_ok_def by (simp add: flag_tables) (simp add: set_flags_def)

lemma tree_deleted:
  assumes "tree_ok db" "\<forall>c p. is_child db c p \<longrightarrow> p \<in> gone \<longrightarrow> c \<in> gone"
  shows "tree_ok (delete_rows gone db)"
  using assms unfolding tree_ok_def deleted_tables by (auto simp: delete_rows_def distinct_map_filter)

lemma started_row_fields [simp]:
  "ag_id (started_row d a) = ag_id a" "ag_state (started_row d a) = Ag_Active" "ag_started (started_row d a)"
  by (auto simp: started_row_def Let_def split: option.splits json.splits)

lemma refs_agents:
  assumes "refs_ok db" "\<forall>a. g a \<longrightarrow> ag_id (f a) = ag_id a"
  shows "refs_ok (update_agents g f db)"
proof -
  have "map ag_id (db_agents (update_agents g f db)) = map ag_id (db_agents db)" using assms(2) by (simp add: set_agents)
  then show ?thesis using assms unfolding refs_ok_def by (auto simp: set_agents(1))
qed

lemma refs_state [simp]: "refs_ok db \<Longrightarrow> refs_ok (set_state cs froms st db)"
  unfolding set_state_def by (rule refs_agents) simp_all

definition forget_sender :: "i64 set \<Rightarrow> agent_message \<Rightarrow> agent_message" where
  "forget_sender gone m = m\<lparr>am_from := (if set_option (am_from m) \<inter> gone = {} then am_from m else None)\<rparr>"

lemma forget_sender_fields [simp]:
  "am_id (forget_sender gone m) = am_id m" "am_to (forget_sender gone m) = am_to m" "am_kind (forget_sender gone m) = am_kind m"
  "am_body (forget_sender gone m) = am_body m" "am_created (forget_sender gone m) = am_created m"
  "am_delivered (forget_sender gone m) = am_delivered m" "am_message (forget_sender gone m) = am_message m"
  "am_from (forget_sender gone m) = (if set_option (am_from m) \<inter> gone = {} then am_from m else None)"
  by (simp_all add: forget_sender_def)

lemma deleted_fields [simp]:
  "db_queue (delete_rows gone db) = map (forget_sender gone) (filter (\<lambda>m. am_to m \<notin> gone) (db_queue db))"
  "db_agents (delete_rows gone db) = filter (\<lambda>a. ag_id a \<notin> gone \<and> ag_root a \<notin> gone) (db_agents db)"
  "db_questions (delete_rows gone db) = db_questions db |` (- gone)"
  "db_messages (delete_rows gone db) = filter (\<lambda>m. sm_conversation m \<notin> gone) (db_messages db)"
  by (auto simp: delete_rows_def forget_sender_def restrict_map_def fun_eq_iff split: option.splits)

lemma refs_deleted:
  assumes "refs_ok db" "\<forall>c p. is_child db c p \<longrightarrow> p \<in> gone \<longrightarrow> c \<in> gone"
  shows "refs_ok (delete_rows gone db)"
proof -
  have "\<exists>p. is_child (delete_rows gone db) (ag_id a) p" if "a \<in> set (db_agents (delete_rows gone db))" for a
    using that assms(1) by (auto simp: refs_ok_def deleted_tables)
  moreover have "dom (db_questions (delete_rows gone db)) \<subseteq> conversation_ids (delete_rows gone db)"
    using assms(1) by (auto simp: refs_ok_def deleted_tables)
  moreover have "am_to m \<in> conversation_ids (delete_rows gone db) \<and> set_option (am_from m) \<subseteq> conversation_ids (delete_rows gone db)"
    if "m \<in> set (db_queue (delete_rows gone db))" for m
    using that assms(1) by (auto simp: refs_ok_def deleted_tables split: if_splits)
  moreover have "distinct (map ag_id (db_agents (delete_rows gone db)))" using assms(1) by (simp add: refs_ok_def distinct_map_filter)
  moreover have "tree_ok (delete_rows gone db)" using assms by (simp add: refs_ok_def tree_deleted)
  ultimately show ?thesis unfolding refs_ok_def by blast
qed

lemma refs_ok_move: "db_move restores db db' \<Longrightarrow> refs_ok db \<Longrightarrow> refs_ok db'"
proof (induction rule: db_move.induct)
  case (mv_child p db a)
  have "ag_id a \<notin> ag_id ` set (db_agents db)"
    using mv_child new_id [of db "db_next_conversation db"] by (auto simp: refs_ok_def dest!: is_child_id)
  then show ?case using mv_child by (auto simp: refs_ok_def tree_grows)
next
  case (mv_start db c d)
  then show ?case by (auto intro: refs_agents)
next
  case (mv_resume db c)
  then show ?case by (auto intro: refs_agents)
next
  case (mv_columns f db g)
  then show ?case by (auto intro: refs_agents)
next
  case (mv_queue c db sender kind label body)
  then show ?case by (auto simp: refs_ok_def)
next
  case (mv_deliver m db content)
  then show ?case by (auto simp: refs_ok_def)
next
  case (mv_delete db gone)
  then show ?case using refs_deleted by blast
qed (simp_all add: refs_state, auto simp: refs_ok_def tree_grows tree_flags flag_tables)

section \<open>Rows survive\<close>

text \<open>A queued row is there until its recipient is gone; only what it was delivered as is added to it.\<close>

definition same_row :: "agents_db \<Rightarrow> agent_message \<Rightarrow> agent_message \<Rightarrow> bool" where
  "same_row db m n \<longleftrightarrow> am_id n = am_id m \<and> am_to n = am_to m \<and> am_label n = am_label m \<and> am_kind n = am_kind m \<and> am_body n = am_body m
     \<and> am_created n = am_created m \<and> (am_delivered m \<longrightarrow> am_delivered n \<and> am_message n = am_message m)
     \<and> set_option (am_from m) \<inter> conversation_ids db \<subseteq> set_option (am_from n)"

lemma row_kept:
  assumes "db_move restores db db'" "m \<in> set (db_queue db)" "am_to m \<in> conversation_ids db'"
    and "distinct (map am_id (db_queue db))"
  shows "\<exists>n\<in>set (db_queue db'). same_row db' m n"
  using assms
proof (induction rule: db_move.induct)
  case (mv_deliver d db content)
  then have that: "am_id m = am_id d \<longrightarrow> m = d" by (metis distinct_map inj_onD)
  let ?f = "delivered_as (am_id d) (db_next_row db)"
  have "same_row db m (?f m)" using that mv_deliver(2) by (auto simp: same_row_def)
  then show ?case using mv_deliver by (intro bexI [of _ "?f m"]) (simp_all add: same_row_def)
next
  case (mv_delete db gone)
  then have "same_row (delete_rows gone db) m (forget_sender gone m)" by (auto simp: same_row_def deleted_tables forget_sender_def)
  then show ?case using mv_delete by (auto simp: deleted_tables)
qed (auto simp: same_row_def)

lemma child_kept: "db_move restores db db' \<Longrightarrow> is_child db c p \<Longrightarrow> c \<in> conversation_ids db' \<Longrightarrow> is_child db' c p"
  by (induction rule: db_move.induct) (auto simp: flag_tables deleted_tables)

lemma reported_kept:
  assumes "db_move restores db db'" "refs_ok db" "distinct (map am_id (db_queue db))" "reported db c" "c \<in> conversation_ids db'"
  shows "reported db' c"
proof -
  obtain m where m: "m \<in> set (db_queue db)" "is_report db c m" using assms(4) by (auto simp: reported_def)
  then have child: "is_child db' c (am_to m)" using child_kept [OF assms(1) _ assms(5)] by (simp add: is_report_def)
  then have "am_to m \<in> conversation_ids db'" using refs_ok_move [OF assms(1,2)] by (auto simp: refs_ok_def tree_ok_def)
  then obtain n where "n \<in> set (db_queue db')" "same_row db' m n" using row_kept [OF assms(1) m(1) _ assms(3)] by blast
  then show ?thesis using m(2) child assms(5) by (auto simp: reported_def is_report_def same_row_def)
qed

lemma asks_parent_kept:
  assumes "db_move restores db db'" "refs_ok db" "distinct (map am_id (db_queue db))" "asks_parent db c q m" "c \<in> conversation_ids db'"
  obtains n where "asks_parent db' c q n" "am_delivered m \<Longrightarrow> am_delivered n"
proof -
  have m: "m \<in> set (db_queue db)" "is_child db' c (am_to m)"
    using assms(4) child_kept [OF assms(1) _ assms(5)] by (auto simp: asks_parent_def)
  then have "am_to m \<in> conversation_ids db'" using refs_ok_move [OF assms(1,2)] by (auto simp: refs_ok_def tree_ok_def)
  then obtain n where "n \<in> set (db_queue db')" "same_row db' m n" using row_kept [OF assms(1) m(1) _ assms(3)] by blast
  then show ?thesis using that [of n] m(2) assms(4,5) by (auto simp: asks_parent_def same_row_def)
qed

section \<open>Rows and their messages\<close>

definition delivery_ok :: "agents_db \<Rightarrow> bool" where
  "delivery_ok db \<longleftrightarrow>
     distinct (map am_id (db_queue db)) \<and> (\<forall>m\<in>set (db_queue db). am_id m < db_next_row db \<and> am_delivered m = (am_message m \<noteq> None)) \<and>
     (\<forall>s\<in>set (db_messages db). sm_id s < db_next_row db) \<and>
     (\<forall>m\<in>set (db_queue db). \<forall>i\<in>set_option (am_message m).
        \<exists>s\<in>set (db_messages db). sm_id s = i \<and> sm_conversation s = am_to m \<and> sm_role s = ''user'') \<and>
     inj_on (the \<circ> am_message) {m \<in> set (db_queue db). am_delivered m}"

lemma delivery_fields [simp]:
  "db_messages (begin_tx db) = db_messages db" "db_next_row (begin_tx db) = db_next_row db" "db_now (begin_tx db) = Suc (db_now db)"
  "db_messages (update_agents g f db) = db_messages db" "db_next_row (update_agents g f db) = db_next_row db"
  "db_now (update_agents g f db) = db_now db"
  "db_messages (set_state cs froms st db) = db_messages db" "db_next_row (set_state cs froms st db) = db_next_row db"
  "db_now (set_state cs froms st db) = db_now db"
  "db_messages (queue_agent_message c s l k b db) = db_messages db" "db_next_row (queue_agent_message c s l k b db) = Suc (db_next_row db)"
  "db_now (queue_agent_message c s l k b db) = db_now db"
  "db_messages (create_message_on c r t db) = db_messages db @ [\<lparr>sm_id = db_next_row db, sm_conversation = c, sm_role = r, sm_content = t\<rparr>]"
  "db_next_row (create_message_on c r t db) = Suc (db_next_row db)" "db_now (create_message_on c r t db) = db_now db"
  "db_messages (put_question c q db) = db_messages db" "db_next_row (put_question c q db) = db_next_row db"
  "db_now (put_question c q db) = db_now db"
  "db_messages (upsert_pending_question c tid qs asked db) = db_messages db" "db_now (upsert_pending_question c tid qs asked db) = db_now db"
  "db_next_row (upsert_pending_question c tid qs asked db) = db_next_row db"
  "db_messages (mark_delivered n saved db) = db_messages db" "db_next_row (mark_delivered n saved db) = db_next_row db"
  "db_now (mark_delivered n saved db) = db_now db"
  "db_messages (add_child p a db) = db_messages db" "db_next_row (add_child p a db) = db_next_row db" "db_now (add_child p a db) = db_now db"
  "db_messages (new_conversation db) = db_messages db" "db_next_row (new_conversation db) = db_next_row db"
  "db_now (new_conversation db) = db_now db"
  "db_messages (set_flags h db) = db_messages db" "db_next_row (set_flags h db) = db_next_row db" "db_now (set_flags h db) = db_now db"
  "db_next_row (delete_rows gone db) = db_next_row db" "db_now (delete_rows gone db) = db_now db"
  by (simp_all add: begin_tx_def update_agents_def set_state_def queue_agent_message_def create_message_on_def put_question_def
      upsert_pending_question_def mark_delivered_def add_child_def new_conversation_def set_flags_def delete_rows_def)

lemma delivered_message:
  assumes "delivery_ok db" "m \<in> set (db_queue db)" "am_message m = Some i"
  shows "\<exists>s\<in>set (db_messages db). sm_id s = i \<and> sm_conversation s = am_to m \<and> sm_role s = ''user''"
proof -
  have "\<forall>i\<in>set_option (am_message m). \<exists>s\<in>set (db_messages db). sm_id s = i \<and> sm_conversation s = am_to m \<and> sm_role s = ''user''"
    using assms(1,2) unfolding delivery_ok_def by blast
  then show ?thesis using assms(3) by simp
qed

lemma delivered_once:
  assumes "delivery_ok db" "d \<in> set (db_queue db)" "\<not> am_delivered d"
  shows "delivery_ok (create_message_on (am_to d) ''user'' content (mark_delivered (am_id d) (db_next_row db) db))"
proof -
  let ?n = "db_next_row db" and ?f = "delivered_as (am_id d) (db_next_row db)"
  have only: "am_id m = am_id d \<longleftrightarrow> m = d" if "m \<in> set (db_queue db)" for m
    using assms that by (auto simp: delivery_ok_def dest: distinct_map [THEN iffD1] inj_onD)
  have old: "the (am_message m) < ?n" if "m \<in> set (db_queue db)" "am_delivered m" for m
    using assms(1) that by (fastforce simp: delivery_ok_def)
  have "inj_on (the \<circ> am_message) {m \<in> ?f ` set (db_queue db). am_delivered m}"
  proof (rule inj_onI, clarify)
    fix m n assume mn: "m \<in> set (db_queue db)" "n \<in> set (db_queue db)" "am_delivered (?f m)" "am_delivered (?f n)"
      and eq: "(the \<circ> am_message) (?f m) = (the \<circ> am_message) (?f n)"
    have "am_id m = am_id d \<Longrightarrow> am_id n = am_id d" using eq old [OF mn(2)] mn(4) by (cases "am_id n = am_id d") simp_all
    moreover have "am_id n = am_id d \<Longrightarrow> am_id m = am_id d" using eq old [OF mn(1)] mn(3) by (cases "am_id m = am_id d") simp_all
    ultimately consider "am_id m = am_id d" "am_id n = am_id d" | "am_id m \<noteq> am_id d" "am_id n \<noteq> am_id d" by blast
    then show "?f m = ?f n"
    proof cases
      case 1
      then show ?thesis using only [OF mn(1)] only [OF mn(2)] by simp
    next
      case 2
      then have "m = n" using mn eq assms(1) by (intro inj_onD [of "the \<circ> am_message" "{m \<in> set (db_queue db). am_delivered m}"]) (auto simp: delivery_ok_def)
      then show ?thesis by simp
    qed
  qed
  moreover have "map am_id (map ?f (db_queue db)) = map am_id (db_queue db)" by simp
  then have "distinct (map am_id (map ?f (db_queue db)))" using assms(1) by (simp only: delivery_ok_def)
  moreover have "am_id (?f m) < Suc ?n \<and> am_delivered (?f m) = (am_message (?f m) \<noteq> None)" if "m \<in> set (db_queue db)" for m
    using assms(1) that by (auto simp: delivery_ok_def less_Suc_eq)
  moreover have "\<exists>s\<in>set (db_messages db @ [\<lparr>sm_id = ?n, sm_conversation = am_to d, sm_role = ''user'', sm_content = content\<rparr>]).
      sm_id s = i \<and> sm_conversation s = am_to (?f m) \<and> sm_role s = ''user''"
    if "m \<in> set (db_queue db)" "am_message (?f m) = Some i" for m i
  proof (cases "am_id m = am_id d")
    case True
    then show ?thesis using that only [OF that(1)] by simp
  next
    case False
    then show ?thesis using that assms(1) by (simp add: delivery_ok_def)
  qed
  moreover have "\<forall>s\<in>set (db_messages db). sm_id s < Suc ?n" using assms(1) by (auto simp: delivery_ok_def less_Suc_eq)
  ultimately show ?thesis unfolding delivery_ok_def by (simp del: map_map)
qed

lemma delivery_move: "db_move restores db db' \<Longrightarrow> delivery_ok db \<Longrightarrow> delivery_ok db'"
proof (induction rule: db_move.induct)
  case (mv_queue c db sender kind label body)
  then have "distinct (map am_id (db_queue db) @ [db_next_row db])" by (auto simp: delivery_ok_def)
  moreover have "{m \<in> set (db_queue (queue_agent_message c sender label kind body db)). am_delivered m} = {m \<in> set (db_queue db). am_delivered m}"
    by auto
  ultimately show ?case using mv_queue(5) by (auto simp: delivery_ok_def less_Suc_eq)
next
  case (mv_deliver m db content)
  then show ?case by (intro delivered_once)
next
  case (mv_delete db gone)
  then have d: "distinct (map am_id (filter (\<lambda>m. am_to m \<notin> gone) (db_queue db)))"
    by (simp add: delivery_ok_def distinct_map_filter)
  have "inj_on (the \<circ> am_message) {m \<in> set (db_queue (delete_rows gone db)). am_delivered m}"
    using mv_delete(2) by (auto simp: delivery_ok_def inj_on_def) metis
  moreover have "\<exists>s\<in>set (db_messages (delete_rows gone db)). sm_id s = i \<and> sm_conversation s = am_to m \<and> sm_role s = ''user''"
    if m: "m \<in> set (db_queue (delete_rows gone db))" and i: "am_message m = Some i" for m i
  proof -
    obtain x where x: "x \<in> set (db_queue db)" "am_to x \<notin> gone" "m = forget_sender gone x" using m by auto
    then show ?thesis using delivered_message [OF mv_delete(2) x(1)] i by auto
  qed
  moreover have "distinct (map am_id (db_queue (delete_rows gone db)))" using d by (simp add: comp_def)
  moreover have "am_id m < db_next_row (delete_rows gone db) \<and> am_delivered m = (am_message m \<noteq> None)"
    if "m \<in> set (db_queue (delete_rows gone db))" for m using that mv_delete(2) by (auto simp: delivery_ok_def)
  moreover have "\<forall>s\<in>set (db_messages (delete_rows gone db)). sm_id s < db_next_row (delete_rows gone db)"
    using mv_delete(2) by (auto simp: delivery_ok_def)
  ultimately show ?case unfolding delivery_ok_def by fastforce
qed (auto simp: delivery_ok_def less_Suc_eq)

section \<open>What a state means\<close>

text \<open>Only a child whose start completed works or finishes; one that failed never started.\<close>

definition life_ok :: "agent_row \<Rightarrow> bool" where
  "life_ok a \<longleftrightarrow> (if ag_started a then ag_state a \<in> {Ag_Active, Ag_Finished, Ag_Stopped} else ag_state a \<in> {Ag_Starting, Ag_Failed, Ag_Stopped})"

definition lives_ok :: "agents_db \<Rightarrow> bool" where
  "lives_ok db \<longleftrightarrow> (\<forall>a\<in>set (db_agents db). life_ok a)"

lemma lives_updated: "lives_ok db \<Longrightarrow> (\<And>a. g a \<Longrightarrow> life_ok a \<Longrightarrow> a \<in> set (db_agents db) \<Longrightarrow> life_ok (f a)) \<Longrightarrow> lives_ok (update_agents g f db)"
  by (auto simp: lives_ok_def set_agents)

lemma lives_move: "db_move restores db db' \<Longrightarrow> lives_ok db \<Longrightarrow> lives_ok db'"
proof (induction rule: db_move.induct)
  case (mv_columns f db g)
  then show ?case by (auto intro!: lives_updated simp: life_ok_def)
qed ((unfold set_state_def)?, auto intro!: lives_updated simp: life_ok_def split: if_splits, auto simp: lives_ok_def life_ok_def)

text \<open>An agent that finished or failed has a report in its parent's queue.\<close>

definition reports_ok :: "agents_db \<Rightarrow> bool" where
  "reports_ok db \<longleftrightarrow> (\<forall>a\<in>set (db_agents db). ag_state a \<in> {Ag_Finished, Ag_Failed} \<longrightarrow> reported db (ag_id a))"

text \<open>Nothing in the queue is from later than now, and no two questions are from the same transaction.\<close>

definition clock_ok :: "agents_db \<Rightarrow> bool" where
  "clock_ok db \<longleftrightarrow> (\<forall>m\<in>set (db_queue db). am_created m \<le> db_now db)
     \<and> distinct (map am_created (filter (\<lambda>m. am_kind m = Kind_Question) (db_queue db)))"

text \<open>A question to the parent is a row of the parent's queue, and one that is answered was read there.\<close>

definition questions_ok :: "agents_db \<Rightarrow> bool" where
  "questions_ok db \<longleftrightarrow> (\<forall>c q. db_questions db c = Some q \<and> sq_asked_of q = Of_Parent \<longrightarrow>
     (\<exists>m. asks_parent db c q m \<and> (sq_answer q \<noteq> None \<longrightarrow> am_delivered m)))"

text \<open>A finished agent has read the messages it was sent; not so when a delete that failed brings one back.\<close>

definition unread_ok :: "agents_db \<Rightarrow> bool" where
  "unread_ok db \<longleftrightarrow> (\<forall>a\<in>set (db_agents db). ag_state a = Ag_Finished \<longrightarrow> \<not> has_unread_message db (ag_id a))"

text \<open>What a delete that fails may put back: a row that had started, and had reported if it goes back to finished.\<close>

definition restorable :: "agents_db \<Rightarrow> i64 \<times> agent_state \<Rightarrow> bool" where
  "restorable db = (\<lambda>(c, st). c < db_next_conversation db \<and> st \<in> {Ag_Active, Ag_Finished} \<and>
     (\<forall>a\<in>set (db_agents db). ag_id a = c \<longrightarrow> ag_started a \<and> (st = Ag_Finished \<longrightarrow> reported db c)))"

lemma clock_move: "db_move restores db db' \<Longrightarrow> clock_ok db \<Longrightarrow> clock_ok db'"
proof (induction rule: db_move.induct)
  case (mv_delete db gone)
  have "filter (\<lambda>m. am_kind m = Kind_Question) (db_queue (delete_rows gone db)) =
      map (forget_sender gone) (filter (\<lambda>m. am_kind m = Kind_Question \<and> am_to m \<notin> gone) (db_queue db))"
    by (simp add: filter_map comp_def conj_commute)
  moreover have "distinct (map am_created (filter (\<lambda>m. am_kind m = Kind_Question \<and> am_to m \<notin> gone) (db_queue db)))"
    using mv_delete(2) distinct_map_filter [of am_created "filter (\<lambda>m. am_kind m = Kind_Question) (db_queue db)" "\<lambda>m. am_to m \<notin> gone"]
    by (simp add: clock_ok_def conj_commute)
  ultimately show ?case using mv_delete(2) by (auto simp: clock_ok_def comp_def)
next
  case (mv_queue c db sender kind label body)
  then show ?case by (auto simp: clock_ok_def)
qed (auto simp: clock_ok_def filter_map comp_def)

section \<open>Changes of state\<close>

text \<open>The changes a move can make to an agent's state, and what holds when it makes them.\<close>

inductive state_change :: "bool \<Rightarrow> agents_db \<Rightarrow> agent_row \<Rightarrow> agent_state \<Rightarrow> bool" for restores db a where
  ch_same: "state_change restores db a (ag_state a)"
| ch_start: "ag_state a = Ag_Starting \<Longrightarrow> state_change restores db a Ag_Active"
| ch_fail: "ag_state a = Ag_Starting \<Longrightarrow> reported db (ag_id a) \<Longrightarrow> state_change restores db a Ag_Failed"
| ch_finish: "ag_state a = Ag_Active \<Longrightarrow> reported db (ag_id a) \<Longrightarrow> \<not> has_unread_message db (ag_id a) \<Longrightarrow> state_change restores db a Ag_Finished"
| ch_stop: "ag_state a \<in> live_states \<Longrightarrow> state_change restores db a Ag_Stopped"
| ch_resume: "ag_state a \<in> {Ag_Finished, Ag_Stopped} \<Longrightarrow> ag_state a = Ag_Stopped \<longrightarrow> ag_started a \<Longrightarrow> state_change restores db a Ag_Active"
| ch_restore: "restores \<Longrightarrow> ag_state a = Ag_Stopped \<Longrightarrow> ag_started a \<Longrightarrow> reported db (ag_id a) \<Longrightarrow> state_change restores db a Ag_Finished"

inductive_cases to_starting: "state_change restores db a Ag_Starting"
inductive_cases to_finished: "state_change restores db a Ag_Finished"
inductive_cases to_failed: "state_change restores db a Ag_Failed"

definition becomes :: "bool \<Rightarrow> agents_db \<Rightarrow> agent_row \<Rightarrow> agent_row \<Rightarrow> bool" where
  "becomes restores db a b \<longleftrightarrow> ag_id b = ag_id a \<and> (ag_started a \<longrightarrow> ag_started b) \<and> (ag_state a \<noteq> Ag_Starting \<longrightarrow> ag_started b = ag_started a)
     \<and> state_change restores db a (ag_state b)"

lemma becomes_same [intro]: "becomes restores db a a"
  by (simp add: becomes_def ch_same)

lemma agents_updated:
  assumes "b \<in> set (db_agents (update_agents g f db))" "\<And>a. a \<in> set (db_agents db) \<Longrightarrow> g a \<Longrightarrow> becomes restores db a (f a)"
  shows "\<exists>a\<in>set (db_agents db). becomes restores db a b"
  using assms by (auto simp: set_agents(1))

lemma state_set:
  assumes "b \<in> set (db_agents (set_state cs froms st db))"
    and "\<And>a. a \<in> set (db_agents db) \<Longrightarrow> ag_id a \<in> cs \<Longrightarrow> ag_state a \<in> froms \<Longrightarrow> state_change restores db a st"
  shows "\<exists>a\<in>set (db_agents db). becomes restores db a b"
  using assms(1) unfolding set_state_def by (rule agents_updated) (use assms(2) in \<open>auto simp: becomes_def\<close>)

lemma agent_moves:
  assumes "db_move restores db db'" "b \<in> set (db_agents db')"
  shows "(\<exists>a\<in>set (db_agents db). becomes restores db a b) \<or>
    ag_id b = db_next_conversation db \<and> ag_state b = Ag_Starting \<and> \<not> ag_started b"
  using assms
proof (induction rule: db_move.induct)
  case (mv_start db c d)
  show ?case by (rule disjI1, rule agents_updated [OF mv_start]) (auto simp: becomes_def ch_start)
next
  case (mv_fail db c)
  show ?case by (rule disjI1, rule state_set [OF mv_fail(2)]) (use mv_fail(1) in \<open>auto intro: ch_fail\<close>)
next
  case (mv_finish db c)
  show ?case by (rule disjI1, rule state_set [OF mv_finish(3)]) (use mv_finish(1,2) in \<open>auto intro: ch_finish\<close>)
next
  case (mv_stop db cs)
  show ?case by (rule disjI1, rule state_set [OF mv_stop]) (rule ch_stop)
next
  case (mv_resume db c)
  show ?case by (rule disjI1, rule agents_updated [OF mv_resume]) (auto simp: becomes_def intro: ch_resume)
next
  case (mv_resume_finished db c)
  show ?case by (rule disjI1, rule state_set [OF mv_resume_finished]) (auto intro: ch_resume)
next
  case (mv_restore st db c)
  show ?case by (rule disjI1, rule state_set [OF mv_restore(5)]) (use mv_restore(1-4) in \<open>auto intro: ch_resume ch_restore\<close>)
next
  case (mv_columns f db g)
  show ?case by (rule disjI1, rule agents_updated [OF mv_columns(2)]) (use mv_columns(1) in \<open>auto simp: becomes_def ch_same\<close>)
qed auto

section \<open>The invariant of every move\<close>

definition agents_ok :: "agents_db \<Rightarrow> bool" where
  "agents_ok db \<longleftrightarrow> refs_ok db \<and> delivery_ok db \<and> lives_ok db \<and> clock_ok db \<and> reports_ok db \<and> questions_ok db"

lemma agents_okD:
  assumes "agents_ok db"
  shows "refs_ok db" "delivery_ok db" "lives_ok db" "clock_ok db" "reports_ok db" "questions_ok db" "tree_ok db"
    "distinct (map am_id (db_queue db))" "distinct (map ag_id (db_agents db))"
  using assms by (auto simp: agents_ok_def refs_ok_def delivery_ok_def)

lemma agent_id: "refs_ok db \<Longrightarrow> a \<in> set (db_agents db) \<Longrightarrow> ag_id a \<in> conversation_ids db"
  by (auto simp: refs_ok_def dest: is_child_id)

lemma reports_move:
  assumes move: "db_move restores db db'" and ok: "agents_ok db"
  shows "reports_ok db'"
  unfolding reports_ok_def
proof (intro ballI impI)
  fix b assume b: "b \<in> set (db_agents db')" "ag_state b \<in> {Ag_Finished, Ag_Failed}"
  then obtain a where a: "a \<in> set (db_agents db)" "becomes restores db a b" using agent_moves [OF move b(1)] by auto
  then have "reported db (ag_id a)"
    using b(2) agents_okD(5) [OF ok] by (auto simp: becomes_def reports_ok_def elim!: to_finished to_failed)
  then have "reported db (ag_id b)" using a(2) by (simp add: becomes_def)
  moreover have "ag_id b \<in> conversation_ids db'" using agent_id [OF refs_ok_move [OF move agents_okD(1) [OF ok]] b(1)] .
  ultimately show "reported db' (ag_id b)" by (intro reported_kept [OF move agents_okD(1,8) [OF ok]])
qed

lemma restorable_move:
  assumes move: "db_move restores db db'" and ok: "agents_ok db" and r: "restorable db (c, st)"
  shows "restorable db' (c, st)"
proof -
  have "db_next_conversation db \<le> db_next_conversation db'"
    using move by (induction rule: db_move.induct)
      (simp_all add: begin_tx_def new_conversation_def add_child_def update_agents_def set_state_def queue_agent_message_def
        create_message_on_def mark_delivered_def put_question_def upsert_pending_question_def set_flags_def delete_rows_def)
  moreover have "ag_started b \<and> (st = Ag_Finished \<longrightarrow> reported db' c)" if b: "b \<in> set (db_agents db')" "ag_id b = c" for b
  proof -
    obtain a where a: "a \<in> set (db_agents db)" "becomes restores db a b" using agent_moves [OF move b(1)] b(2) r by (auto simp: restorable_def)
    then have "ag_started b" "st = Ag_Finished \<longrightarrow> reported db c" using r b(2) by (auto simp: restorable_def becomes_def)
    moreover have "c \<in> conversation_ids db'" using agent_id [OF refs_ok_move [OF move agents_okD(1) [OF ok]] b(1)] b(2) by simp
    ultimately show ?thesis using reported_kept [OF move agents_okD(1,8) [OF ok]] by blast
  qed
  ultimately show ?thesis using r by (auto simp: restorable_def)
qed

lemma one_question_at_a_time:
  assumes "clock_ok db" "m \<in> set (db_queue db)" "n \<in> set (db_queue db)" "am_kind m = Kind_Question" "am_kind n = Kind_Question"
    and "am_created m = am_created n"
  shows "m = n"
proof -
  have "inj_on am_created (set (filter (\<lambda>m. am_kind m = Kind_Question) (db_queue db)))"
    using assms(1) by (simp only: clock_ok_def distinct_map)
  then show ?thesis using assms(2-) by (auto dest: inj_onD)
qed

lemma questions_move:
  assumes move: "db_move restores db db'" and ok: "agents_ok db"
  shows "questions_ok db'"
  unfolding questions_ok_def
proof (intro allI impI, elim conjE)
  fix c q assume q: "db_questions db' c = Some q" "sq_asked_of q = Of_Parent"
  have c: "c \<in> conversation_ids db'" using refs_ok_move [OF move agents_okD(1) [OF ok]] q(1) by (auto simp: refs_ok_def)
  have kept: "\<exists>m. asks_parent db' c q m \<and> (sq_answer q \<noteq> None \<longrightarrow> am_delivered m)" if "db_questions db c = Some q"
  proof -
    obtain m where m: "asks_parent db c q m" "sq_answer q \<noteq> None \<longrightarrow> am_delivered m"
      using agents_okD(6) [OF ok] \<open>db_questions db c = Some q\<close> q(2) unfolding questions_ok_def by blast
    show ?thesis by (rule asks_parent_kept [OF move agents_okD(1,8) [OF ok] m(1) c]) (use m(2) in \<open>blast\<close>)
  qed
  show "\<exists>m. asks_parent db' c q m \<and> (sq_answer q \<noteq> None \<longrightarrow> am_delivered m)"
    using move kept q
  proof (cases rule: db_move.cases)
    case (mv_ask_parent m d body tid)
    then show ?thesis using kept q by (auto simp: asks_parent_def split: if_splits)
  next
    case (mv_answer d p answers)
    show ?thesis
    proof (cases "c = d")
      case True
      then have p: "sq_asked_of p = Of_Parent" "q = p\<lparr>sq_answer := Some answers\<rparr>" using mv_answer(1) q by auto
      obtain m where m: "asks_parent db d p m" using agents_okD(6) [OF ok] mv_answer(2) p(1) unfolding questions_ok_def by blast
      obtain n where n: "n \<in> set (db_queue db)" "am_kind n = Kind_Question" "am_created n = sq_created p" "am_delivered n"
        using mv_answer(3) p(1) by (auto simp: question_read_def list_ex_iff)
      have "m = n" using agents_okD(4) [OF ok] m n by (intro one_question_at_a_time) (auto simp: asks_parent_def)
      then show ?thesis using m n(4) p(2) True mv_answer(1) by (auto simp: asks_parent_def)
    next
      case False
      then show ?thesis using kept q mv_answer(1) by simp
    qed
  qed (auto split: if_splits simp: restrict_map_def)
qed

lemma agents_ok_move: "db_move restores db db' \<Longrightarrow> agents_ok db \<Longrightarrow> agents_ok db'"
  by (simp add: agents_ok_def refs_ok_move delivery_move lives_move clock_move)
    (simp add: agents_ok_def [symmetric] reports_move questions_move)

section \<open>Messages read, ids not reused, ends that stay\<close>

lemma unread_back:
  assumes "db_move restores db db'" "has_unread_message db' c"
  shows "has_unread_message db c \<or> db_agents db' = db_agents db \<and> (\<forall>a\<in>set (db_agents db). ag_id a = c \<longrightarrow> ag_state a \<noteq> Ag_Finished)"
  using assms by (induction rule: db_move.induct) (auto simp: has_unread_message_def split: if_splits)

lemma unread_move:
  assumes move: "db_move False db db'" and ok: "unread_ok db"
  shows "unread_ok db'"
  unfolding unread_ok_def
proof (intro ballI impI notI)
  fix b assume b: "b \<in> set (db_agents db')" "ag_state b = Ag_Finished" and unread: "has_unread_message db' (ag_id b)"
  obtain a where a: "a \<in> set (db_agents db)" "becomes False db a b" using agent_moves [OF move b(1)] b(2) by auto
  then have "\<not> has_unread_message db (ag_id b)"
    using b(2) ok by (auto simp: becomes_def unread_ok_def elim!: to_finished)
  then show False using unread_back [OF move unread] b by auto
qed

lemma ids_move:
  "db_move restores db db' \<Longrightarrow> db_next_conversation db \<le> db_next_conversation db' \<and>
    conversation_ids db' \<subseteq> insert (db_next_conversation db) (conversation_ids db)"
  by (induction rule: db_move.induct) (auto simp: flag_tables deleted_tables begin_tx_def new_conversation_def add_child_def
      update_agents_def set_state_def queue_agent_message_def create_message_on_def mark_delivered_def put_question_def
      upsert_pending_question_def set_flags_def delete_rows_def conversation_ids_def)

lemma ids_back:
  "(db_move restores)\<^sup>*\<^sup>* db db' \<Longrightarrow> db_next_conversation db \<le> db_next_conversation db' \<and>
    (\<forall>c\<in>conversation_ids db'. c \<in> conversation_ids db \<or> db_next_conversation db \<le> c)"
proof (induction rule: rtranclp_induct)
  case (step db1 db2)
  then show ?case using ids_move [OF step(2)] by fastforce
qed simp

lemma agents_ok_moves: "(db_move restores)\<^sup>*\<^sup>* db db' \<Longrightarrow> agents_ok db \<Longrightarrow> agents_ok db'"
  by (induction rule: rtranclp_induct) (auto intro: agents_ok_move)

lemma unread_moves: "(db_move False)\<^sup>*\<^sup>* db db' \<Longrightarrow> unread_ok db \<Longrightarrow> unread_ok db'"
  by (induction rule: rtranclp_induct) (auto intro: unread_move)

lemma restorable_moves:
  assumes "(db_move restores)\<^sup>*\<^sup>* db db'" "agents_ok db" "restorable db p"
  shows "restorable db' p"
  using assms(1)
proof (induction rule: rtranclp_induct)
  case (step db1 db2)
  then show ?case using restorable_move [OF step(2) agents_ok_moves [OF step(1) assms(2)]] by (cases p) simp
qed (rule assms(3))

text \<open>An agent that failed, or was stopped before it started.\<close>

definition over :: "agents_db \<Rightarrow> i64 \<Rightarrow> agent_state \<Rightarrow> bool" where
  "over db c st \<longleftrightarrow> c < db_next_conversation db \<and> st \<in> {Ag_Stopped, Ag_Failed} \<and>
     (\<forall>a\<in>set (db_agents db). ag_id a = c \<longrightarrow> ag_state a = st \<and> \<not> ag_started a)"

lemma over_move:
  assumes move: "db_move restores db db'" and dead: "over db c st"
  shows "over db' c st"
proof -
  have "ag_state b = st \<and> \<not> ag_started b" if b: "b \<in> set (db_agents db')" "ag_id b = c" for b
  proof -
    obtain a where a: "a \<in> set (db_agents db)" "becomes restores db a b"
      using agent_moves [OF move b(1)] b(2) dead by (auto simp: over_def)
    then have "ag_state a = st" "\<not> ag_started a" using dead b(2) by (auto simp: over_def becomes_def)
    then show ?thesis using a(2) dead by (auto simp: over_def becomes_def elim: state_change.cases)
  qed
  then show ?thesis using dead ids_move [OF move] by (auto simp: over_def)
qed

lemma over_moves: "(db_move restores)\<^sup>*\<^sup>* db db' \<Longrightarrow> over db c st \<Longrightarrow> over db' c st"
  by (induction rule: rtranclp_induct) (auto intro: over_move)

lemma rows_kept:
  assumes "(db_move restores)\<^sup>*\<^sup>* db db'" "agents_ok db" "m \<in> set (db_queue db)" "am_to m \<in> conversation_ids db'"
  shows "\<exists>n\<in>set (db_queue db'). same_row db' m n"
  using assms
proof (induction arbitrary: m rule: converse_rtranclp_induct)
  case base
  then show ?case by (auto simp: same_row_def)
next
  case (step db1 db2)
  have there: "c \<in> conversation_ids db2" if "c \<in> conversation_ids db1" "c \<in> conversation_ids db'" for c
    using that ids_back [OF step(2)] ids_move [OF step(1)] new_id [OF agents_okD(7) [OF step(4)], of c] by fastforce
  have known: "am_to m \<in> conversation_ids db1" "set_option (am_from m) \<subseteq> conversation_ids db1"
    using agents_okD(1) [OF step(4)] step(5) by (auto simp: refs_ok_def)
  obtain n where n: "n \<in> set (db_queue db2)" "same_row db2 m n"
    using row_kept [OF step(1,5) there [OF known(1) step(6)] agents_okD(8) [OF step(4)]] by blast
  moreover obtain x where "x \<in> set (db_queue db')" "same_row db' n x"
    using step(3) [OF agents_ok_move [OF step(1,4)] n(1)] n(2) step(6) by (auto simp: same_row_def)
  ultimately show ?case using known(2) there by (auto simp: same_row_def)
qed

end
