(* ===== verification/Agents_Runs.thy ===== *)
theory Agents_Runs
  imports Agents_Invariants
begin

text \<open>
  Every transaction is a run of moves, so what the moves keep holds of every run of the server.
\<close>

section \<open>Transactions as moves\<close>

abbreviation moves :: "bool \<Rightarrow> agents_db \<Rightarrow> agents_db \<Rightarrow> bool" where
  "moves restores \<equiv> (db_move restores)\<^sup>*\<^sup>*"

lemmas then_move = rtranclp.rtrancl_into_rtrancl [where r = "db_move restores" for restores]

lemma clock_first: "moves restores (begin_tx db) db' \<Longrightarrow> moves restores db db'"
  by (erule converse_rtranclp_into_rtranclp [rotated]) (rule mv_clock)

lemma clock_then: "db_move restores (begin_tx db) db' \<Longrightarrow> moves restores db db'"
  by (rule clock_first, rule r_into_rtranclp)

lemma parent_child:
  assumes "conversation_parent db c = Some p"
  shows "is_child db c p"
proof -
  obtain r where "conversation_of db c = Some r" "cv_parent r = Some p"
    using assms by (auto simp: conversation_parent_def bind_eq_Some_conv)
  then show ?thesis unfolding conversation_of_def is_child_iff by (blast dest: find_SomeD)
qed

lemma locked: "lock_conversations db cs \<longleftrightarrow> set cs \<subseteq> conversation_ids db"
  by (auto simp: lock_conversations_def list_all_iff is_conversation_iff)

lemma queue_later:
  "queue_agent_message c s l k b (update_agents g f db) = update_agents g f (queue_agent_message c s l k b db)"
  "queue_agent_message c s l k b (set_state cs froms st db) = set_state cs froms st (queue_agent_message c s l k b db)"
  "queue_agent_message c s l k b (upsert_pending_question d tid qs asked db) = upsert_pending_question d tid qs asked (queue_agent_message c s l k b db)"
  by (simp_all add: queue_agent_message_def update_agents_def set_state_def upsert_pending_question_def put_question_def)

lemma finish_result:
  assumes "finish_agent c label report db = (r, db')"
  shows "(db' = db \<and> (\<forall>p. r \<noteq> Fin_Queued p)) \<or> (\<exists>p. r = Fin_Queued p \<and> conversation_parent db c = Some p \<and> {p, c} \<subseteq> conversation_ids db \<and>
    agent_state db c = Some Ag_Active \<and> \<not> unread_by (set_state {c} {Ag_Active} Ag_Finished (begin_tx db)) c \<and>
    db' = set_state {c} {Ag_Active} Ag_Finished (queue_agent_message p (Some c) label Kind_Report report (begin_tx db)))"
proof (cases "conversation_parent db c")
  case (Some p)
  then show ?thesis using assms unfolding finish_agent_def Let_def queue_later locked by (simp split: if_splits; blast)
qed (use assms in \<open>auto simp: finish_agent_def\<close>)

lemma finish_moves: "moves restores db (snd (finish_agent c label report db))"
proof -
  obtain r db' where r: "finish_agent c label report db = (r, db')" by fastforce
  show ?thesis
  proof (cases "\<exists>p. r = Fin_Queued p")
    case True
    then obtain p where p: "conversation_parent db c = Some p" "{p, c} \<subseteq> conversation_ids db"
        "\<not> unread_by (set_state {c} {Ag_Active} Ag_Finished (begin_tx db)) c"
        "db' = set_state {c} {Ag_Active} Ag_Finished (queue_agent_message p (Some c) label Kind_Report report (begin_tx db))"
      using finish_result [OF r] by blast
    let ?db = "queue_agent_message p (Some c) label Kind_Report report (begin_tx db)"
    have "moves restores db ?db" using p(2) by (intro clock_then mv_queue) auto
    moreover have "reported ?db c" using parent_child [OF p(1)] by (auto simp: reported_def is_report_def)
    moreover have "\<not> has_unread_message ?db c" using p(3) by (auto simp: has_unread_message_def unread_by_def list_ex_iff)
    ultimately show ?thesis unfolding r snd_conv p(4) by (intro then_move [OF _ mv_finish])
  next
    case False
    then show ?thesis using finish_result [OF r] r by auto
  qed
qed

lemma follow_up_result:
  assumes "report_after_finish c label report db = (r, db')"
  shows "db' = db \<or> (\<exists>p. r = Fol_Queued p \<and> {p, c} \<subseteq> conversation_ids db \<and>
    db' = queue_agent_message p (Some c) label Kind_Report report (begin_tx db))"
proof (cases "conversation_parent db c")
  case (Some p)
  then show ?thesis using assms unfolding report_after_finish_def locked
    by (cases "agent_state db c"; cases "the (agent_state db c)") (auto split: if_splits)
qed (use assms in \<open>simp add: report_after_finish_def\<close>)

lemma follow_up_moves: "moves restores db (snd (report_after_finish c label report db))"
proof -
  obtain r db' where r: "report_after_finish c label report db = (r, db')" by fastforce
  have "moves restores db (queue_agent_message p (Some c) label Kind_Report report (begin_tx db))"
    if "{p, c} \<subseteq> conversation_ids db" for p using that by (intro clock_then mv_queue) auto
  then show ?thesis using follow_up_result [OF r] r by auto
qed

lemma stop_moves: "moves restores db (snd (stop_subtree caller c db))"
proof -
  have "moves restores db (set_state (set (subtree_ids db c)) live_states Ag_Stopped (begin_tx db))" by (intro clock_then mv_stop)
  then show ?thesis unfolding stop_subtree_def by (auto simp: Let_def split: option.splits agent_state.splits)
qed

lemma reactivate_moves: "moves restores db (snd (reactivate_agent c db))"
  unfolding reactivate_agent_def Let_def snd_conv by (intro r_into_rtranclp mv_resume)

lemma reactivate_finished_moves: "moves restores db (reactivate_finished c db)"
  unfolding reactivate_finished_def by (intro r_into_rtranclp mv_resume_finished)

lemma notice_moves:
  assumes "queue_notice c sender label body db = Some db'"
  shows "moves restores db db'"
proof -
  have "c \<in> conversation_ids db" "sender \<in> conversation_ids db" "db' = queue_agent_message c (Some sender) label Kind_Notice body (begin_tx db)"
    using assms by (auto simp: queue_notice_def is_conversation_iff split: if_splits)
  then show ?thesis by (simp only:) (intro clock_then mv_queue, simp_all)
qed

section \<open>Messages and questions as moves\<close>

lemma child_answered:
  assumes "answer_child p c body db = Some db'" "is_child db c p"
  shows "db_move restores db db'"
proof -
  obtain q where q: "db_questions db c = Some q" "sq_asked_of q = Of_Parent \<longrightarrow> question_read db p c q"
      "db' = put_question c (Some (q\<lparr>sq_answer := Some [\<lparr>qa_selected = [], qa_other = Some body\<rparr>]\<rparr>)) db"
    using assms(1) by (auto simp: answer_child_def split: option.splits if_splits)
  show ?thesis unfolding q(3) using q(1,2) assms(2) by (intro mv_answer) auto
qed

lemma resumed_not_finished:
  "a \<in> set (db_agents (set_state {c} {Ag_Finished} Ag_Active db)) \<Longrightarrow> ag_id a = c \<Longrightarrow> ag_state a \<noteq> Ag_Finished"
  unfolding set_state_def set_agents(1) by (elim imageE) (simp split: if_splits)

text \<open>What \<open>message_agent\<close> does once it knows the recipient.\<close>

definition message_to :: "i64 \<Rightarrow> i64 \<Rightarrow> bool \<Rightarrow> string \<Rightarrow> string \<Rightarrow> agents_db \<Rightarrow> message_outcome \<times> agents_db" where
  "message_to caller c up label body db =
     (if \<not> {caller, c} \<subseteq> conversation_ids db then (Msg_Deleted c, db)
      else if is_deleting db c then (Msg_Deleted c, db)
      else if agent_state db c \<in> {Some Ag_Stopped, Some Ag_Failed} then (Msg_Ended c (the (agent_state db c)), db)
      else
        (let db1 = set_state {c} {Ag_Finished} Ag_Active (begin_tx db)
         in case if up then None else answer_child caller c body db1 of
              Some db' \<Rightarrow> (Msg_Answered c, db')
            | None \<Rightarrow> (Msg_Queued c, queue_agent_message c (Some caller) label Kind_Message body db1)))"

lemma option_state_cases:
  obtains "st = None" | "st = Some Ag_Starting" | "st = Some Ag_Active" | "st = Some Ag_Finished" | "st = Some Ag_Stopped" | "st = Some Ag_Failed"
  using agent_state.exhaust by (metis not_None_eq)

lemma message_agent_to:
  "message_agent caller To_Parent label body db =
     (case conversation_parent db caller of Some p \<Rightarrow> message_to caller p True label body db | None \<Rightarrow> (Msg_NoParent, db))"
  "message_agent caller (To_Child c) label body db =
     (if is_child db c caller then message_to caller c False label body db else (Msg_NotYourChild c, db))"
proof -
  have "message_agent caller To_Parent label body db =
      (case conversation_parent db caller of Some p \<Rightarrow> message_to caller p True label body db | None \<Rightarrow> (Msg_NoParent, db))"
  proof (cases "conversation_parent db caller")
    case (Some p)
    then show ?thesis by (cases "agent_state db p" rule: option_state_cases) (simp_all add: message_agent_def message_to_def locked Let_def)
  qed (simp add: message_agent_def)
  moreover have "message_agent caller (To_Child c) label body db =
     (if is_child db c caller then message_to caller c False label body db else (Msg_NotYourChild c, db))"
    by (cases "agent_state db c" rule: option_state_cases) (simp_all add: message_agent_def message_to_def locked Let_def)
  ultimately show
    "message_agent caller To_Parent label body db =
       (case conversation_parent db caller of Some p \<Rightarrow> message_to caller p True label body db | None \<Rightarrow> (Msg_NoParent, db))"
    "message_agent caller (To_Child c) label body db =
       (if is_child db c caller then message_to caller c False label body db else (Msg_NotYourChild c, db))"
    by simp_all
qed

lemma message_to_result:
  assumes "message_to caller c up label body db = (r, db')"
  shows "(db' = db \<and> r \<noteq> Msg_Queued c) \<or> {caller, c} \<subseteq> conversation_ids db \<and>
    (let db1 = set_state {c} {Ag_Finished} Ag_Active (begin_tx db)
     in r = Msg_Queued c \<and> db' = queue_agent_message c (Some caller) label Kind_Message body db1
       \<or> \<not> up \<and> r = Msg_Answered c \<and> answer_child caller c body db1 = Some db')"
  using assms unfolding message_to_def Let_def by (auto split: if_splits option.splits)

lemma message_to_moves:
  assumes "up \<or> is_child db c caller"
  shows "moves restores db (snd (message_to caller c up label body db))"
proof -
  obtain r db' where r: "message_to caller c up label body db = (r, db')" by fastforce
  let ?db1 = "set_state {c} {Ag_Finished} Ag_Active (begin_tx db)"
  have db1: "moves restores db ?db1" by (intro clock_then mv_resume_finished)
  have "db_move restores ?db1 (queue_agent_message c (Some caller) label Kind_Message body ?db1)" if "{caller, c} \<subseteq> conversation_ids db"
    using that by (intro mv_queue) (simp_all, use resumed_not_finished in \<open>blast\<close>)
  moreover have "db_move restores ?db1 db'" if "\<not> up" "answer_child caller c body ?db1 = Some db'"
    using child_answered [OF that(2)] assms that(1) by simp
  ultimately show ?thesis using message_to_result [OF r] then_move [OF db1] r unfolding Let_def by auto
qed

lemma message_moves: "moves restores db (snd (message_agent caller who label body db))"
  by (cases who) (auto simp: message_agent_to message_to_moves split: option.splits)

lemma ask_result:
  assumes "ask_parent c tid body label db = (r, db')"
  shows "(db' = db \<and> (\<forall>p. r \<noteq> Ask_Asked p)) \<or> (\<exists>p. r = Ask_Asked p \<and> conversation_parent db c = Some p \<and> {p, c} \<subseteq> conversation_ids db \<and>
    agent_state db c = Some Ag_Active \<and> agent_state db p \<notin> {Some Ag_Stopped, Some Ag_Failed} \<and>
    db' = upsert_pending_question c tid (parent_question body) Of_Parent
      (queue_agent_message p (Some c) label Kind_Question body (begin_tx db)))"
proof (cases "conversation_parent db c")
  case (Some p)
  then show ?thesis using assms unfolding ask_parent_def Let_def queue_later locked by (auto split: if_splits)
qed (use assms in \<open>auto simp: ask_parent_def\<close>)

lemma ask_moves:
  assumes "clock_ok db"
  shows "moves restores db (snd (ask_parent c tid body label db))"
proof -
  obtain r db' where r: "ask_parent c tid body label db = (r, db')" by fastforce
  show ?thesis
  proof (cases "\<exists>p. r = Ask_Asked p")
    case True
    then obtain p where p: "conversation_parent db c = Some p" "{p, c} \<subseteq> conversation_ids db"
        "db' = upsert_pending_question c tid (parent_question body) Of_Parent
          (queue_agent_message p (Some c) label Kind_Question body (begin_tx db))"
      using ask_result [OF r] by blast
    let ?db = "queue_agent_message p (Some c) label Kind_Question body (begin_tx db)"
    have "\<forall>m\<in>set (db_queue (begin_tx db)). am_kind m = Kind_Question \<longrightarrow> am_created m < db_now (begin_tx db)"
      using assms by (auto simp: clock_ok_def less_Suc_eq_le)
    then have "moves restores db ?db" using p(2) by (intro clock_then mv_queue) simp_all
    moreover have "db_move restores ?db (upsert_pending_question c tid (parent_question body) Of_Parent ?db)"
      using p(2) parent_child [OF p(1)]
      by (intro mv_ask_parent [of "\<lparr>am_id = db_next_row db, am_to = p, am_from = Some c, am_label = label, am_kind = Kind_Question,
          am_body = body, am_created = db_now (begin_tx db), am_delivered = False, am_message = None\<rparr>"]) simp_all
    ultimately show ?thesis unfolding r snd_conv p(3) by (rule then_move)
  next
    case False
    then show ?thesis using ask_result [OF r] r by auto
  qed
qed

lemma deliver_result:
  "deliver_agent_message m content db =
     (if am_to m \<in> conversation_ids db \<and> (\<exists>n\<in>set (db_queue db). am_id n = am_id m \<and> \<not> am_delivered n)
      then (Some (db_next_row db),
            create_message_on (am_to m) ''user'' content (mark_delivered (am_id m) (db_next_row db) (begin_tx db)))
      else (None, db))"
  by (auto simp: deliver_agent_message_def is_conversation_iff list_ex_iff Let_def mark_delivered_def cong: if_cong)

lemma deliver_moves:
  assumes "m \<in> set (db_queue db)" "distinct (map am_id (db_queue db))"
  shows "moves restores db (snd (deliver_agent_message m content db))"
proof (cases "am_delivered m")
  case False
  then have "moves restores db (create_message_on (am_to m) ''user'' content (mark_delivered (am_id m) (db_next_row (begin_tx db)) (begin_tx db)))"
    using assms(1) by (intro clock_then mv_deliver) simp_all
  then show ?thesis by (simp add: deliver_result)
next
  case True
  then have "\<not> (\<exists>n\<in>set (db_queue db). am_id n = am_id m \<and> \<not> am_delivered n)"
    using assms by (metis distinct_map inj_onD)
  then show ?thesis by (auto simp: deliver_result)
qed

lemma create_pending_question_moves: "c \<in> conversation_ids db \<Longrightarrow> moves restores db (create_pending_question c tid qs db)"
  unfolding create_pending_question_def by (intro clock_then mv_ask_user) simp

lemma answer_moves: "moves restores db (snd (answer_pending_question c tid answers db))"
  unfolding answer_pending_question_def
  by (auto split: option.splits intro!: r_into_rtranclp mv_answer)

lemma take_moves:
  assumes "c \<in> conversation_ids db"
  shows "moves restores db (snd (create_message_taking_question result c role content waiting db))"
proof -
  obtain q db1 where q: "take_pending_question_on c waiting (begin_tx db) = (q, db1)" by fastforce
  then have db1: "moves restores db db1" "c \<in> conversation_ids db1"
    using assms by (auto simp: take_pending_question_on_def intro: clock_then mv_take clock_first split: option.splits if_splits)
  have "moves restores db (create_message_on c role blocks db1)" for blocks
    using db1 by (intro then_move [OF _ mv_message])
  then show ?thesis unfolding create_message_taking_question_def q by (simp add: Let_def)
qed

section \<open>A start as moves\<close>

definition child_row :: "new_child \<Rightarrow> agents_db \<Rightarrow> agent_row" where
  "child_row new db = (let (depth, root, chain, credentials) = inherited new db in
     \<lparr>ag_id = db_next_conversation db, ag_root = root, ag_depth = depth, ag_brief = nc_brief new,
      ag_persona_name = nc_persona_name new, ag_persona = None, ag_state = Ag_Starting,
      ag_started = False, ag_chain = chain, ag_credentials = Some credentials\<rparr>)"

lemma create_done:
  assumes "start_refusal new db = None" "trust_refusal new db = None" "volume_refusal new db = None"
  shows "create_child new db = (Inr (db_next_conversation db),
    (create_message_on (db_next_conversation db) ''user'' [Text (users_text (nc_brief new))] (add_child (nc_caller new) (child_row new db) (begin_tx db)))
      \<lparr>db_held := (db_held db)(db_next_conversation db := nc_volumes new)\<rparr>)"
proof -
  obtain depth root chain credentials where i: "inherited new db = (depth, root, chain, credentials)" by (cases "inherited new db")
  show ?thesis
    unfolding create_child_def assms by (simp add: i Let_def child_row_def add_child_def begin_tx_def create_message_on_def)
qed

lemma create_refused:
  assumes "\<not> (start_refusal new db = None \<and> trust_refusal new db = None \<and> volume_refusal new db = None)"
  shows "snd (create_child new db) = db \<or> (\<exists>requests. snd (create_child new db) = begin_tx db\<lparr>db_requests := requests\<rparr>)"
proof (cases "start_refusal new db")
  case None
  show ?thesis
  proof (cases "trust_refusal new db")
    case no_refusal: None
    then obtain why where "volume_refusal new db = Some why" using assms None by auto
    then show ?thesis by (simp add: create_child_def None no_refusal)
  next
    case (Some why)
    then show ?thesis by (cases why) (auto simp: create_child_def None)
  qed
qed (simp add: create_child_def)

lemma outside_part:
  "db_move restores db (db\<lparr>db_held := held\<rparr>)" "db_move restores db (db\<lparr>db_requests := requests\<rparr>)"
  using mv_outside [where db = db and running = "db_running db" and requests = "db_requests db" and trust = "db_trust db" and held = held]
    mv_outside [where db = db and running = "db_running db" and requests = requests and trust = "db_trust db" and held = "db_held db"]
  by simp_all

lemma found_conversation: "conversation_of db c = Some r \<Longrightarrow> c \<in> conversation_ids db"
  unfolding conversation_of_def conversation_ids_def by (auto dest!: find_SomeD)

lemma caller_exists: "start_refusal new db = None \<Longrightarrow> nc_caller new \<in> conversation_ids db"
  by (cases "conversation_of db (nc_caller new)") (auto simp: start_refusal_def found_conversation)

lemma create_moves: "moves restores db (snd (create_child new db))"
proof (cases "start_refusal new db = None \<and> trust_refusal new db = None \<and> volume_refusal new db = None")
  case True
  let ?db1 = "add_child (nc_caller new) (child_row new db) (begin_tx db)"
  have "moves restores db ?db1"
    using caller_exists [of new db] True
    by (intro clock_then mv_child) (auto simp: child_row_def split: prod.splits, simp_all add: begin_tx_def)
  moreover have "db_next_conversation db \<in> conversation_ids ?db1" by (simp add: begin_tx_def)
  ultimately show ?thesis unfolding create_done [OF True [THEN conjunct1] True [THEN conjunct2, THEN conjunct1] True [THEN conjunct2, THEN conjunct2]] snd_conv
    by (intro then_move [OF then_move [OF _ mv_message] outside_part(1)])
next
  case False
  have "moves restores db (begin_tx db\<lparr>db_requests := requests\<rparr>)" for requests by (rule clock_then, rule outside_part(2))
  then show ?thesis using create_refused [OF False] by auto
qed

lemma complete_moves:
  assumes "conversation_parent db c = Some p"
  shows "moves restores db (snd (complete_start c p d db))"
proof (cases "fst (complete_start c p d db)")
  case True
  let ?db1 = "update_agents (\<lambda>a. ag_id a = c \<and> ag_state a = Ag_Starting) (started_row d) (begin_tx db)"
  let ?db2 = "queue_agent_message c None ''smelt'' Kind_Notice (sd_notice d) ?db1"
  have ids: "{p, c} \<subseteq> conversation_ids db" using True by (auto simp: complete_start_def locked split: if_splits)
  have "moves restores db ?db1" by (intro clock_then mv_start)
  then have db2: "moves restores db ?db2" by (rule then_move [OF _ mv_queue]) (use ids in simp_all)
  have "db_move restores ?db2 (queue_agent_message p (Some c) (sd_label d) Kind_Notice notice ?db2)" for notice
    using ids by (intro mv_queue) simp_all
  then show ?thesis using db2 then_move [OF db2] unfolding complete_start_def
    by (auto simp: Let_def split: option.splits)
qed (auto simp: complete_start_def Let_def split: if_splits)

lemma fail_moves:
  assumes "conversation_parent db c = Some p"
  shows "moves restores db (snd (fail_start c p label body db))"
proof (cases "fst (fail_start c p label body db)")
  case True
  let ?db1 = "queue_agent_message p (Some c) label Kind_Report body (begin_tx db)"
  let ?db2 = "set_state {c} {Ag_Starting} Ag_Failed ?db1"
  have ids: "{p, c} \<subseteq> conversation_ids db" using True by (auto simp: fail_start_def locked split: if_splits)
  have db: "snd (fail_start c p label body db) = create_message_on c ''user'' [Text (mark_notice body)] ?db2"
    using True by (auto simp: fail_start_def Let_def queue_later split: if_splits)
  have "moves restores db ?db1" using ids by (intro clock_then mv_queue) auto
  moreover have "reported ?db1 c" using parent_child [OF assms] by (auto simp: reported_def is_report_def)
  ultimately have "moves restores db ?db2" by (intro then_move [OF _ mv_fail])
  then show ?thesis unfolding db using ids by (intro then_move [OF _ mv_message]) auto
qed (auto simp: fail_start_def Let_def split: if_splits)

section \<open>A delete as moves\<close>

lemma mark_result:
  "mark_subtree_deleting c db =
     (case conversation_of db c of
        None \<Rightarrow> (None, db)
      | Some row \<Rightarrow>
          (Some \<lparr>de_subtree = subtree_ids db c, de_parent = cv_parent row,
             de_stopped = map (\<lambda>a. (ag_id a, ag_state a))
               (sort_key ag_id (filter (\<lambda>a. ag_id a \<in> set (subtree_ids db c) \<and> ag_state a \<in> {Ag_Active, Ag_Finished}) (db_agents db)))\<rparr>,
           set_state (set (subtree_ids db c)) live_states Ag_Stopped
             (set_flags (\<lambda>r. if cv_id r \<in> set (subtree_ids db c) then r\<lparr>cv_deleting := True\<rparr> else r) (begin_tx db))))"
  by (simp add: mark_subtree_deleting_def set_flags_def Let_def split: option.splits)

lemma flags_move: "db_move restores db (set_flags (\<lambda>r. if cv_id r \<in> cs then r\<lparr>cv_deleting := b\<rparr> else r) db)"
  by (rule mv_flags) simp

lemma mark_moves: "moves restores db (snd (mark_subtree_deleting c db))"
  unfolding mark_result by (auto split: option.splits intro!: then_move [OF clock_then mv_stop] flags_move)

lemma marked_restorable:
  assumes ok: "agents_ok db" and d: "fst (mark_subtree_deleting c db) = Some d"
  shows "\<forall>p\<in>set (de_stopped d). restorable db p"
proof
  fix p assume p: "p \<in> set (de_stopped d)"
  then obtain a where a: "a \<in> set (db_agents db)" "ag_state a \<in> {Ag_Active, Ag_Finished}" "p = (ag_id a, ag_state a)"
    using d by (auto simp: mark_result split: option.splits)
  have "b = a" if "b \<in> set (db_agents db)" "ag_id b = ag_id a" for b
    using that a(1) agents_okD(9) [OF ok] by (metis distinct_map inj_onD)
  moreover have "ag_started a" using a(1,2) agents_okD(3) [OF ok] by (auto simp: lives_ok_def life_ok_def split: if_splits)
  moreover have "ag_state a = Ag_Finished \<longrightarrow> reported db (ag_id a)" using a(1) agents_okD(5) [OF ok] by (auto simp: reports_ok_def)
  moreover have "ag_id a < db_next_conversation db" using new_id [OF agents_okD(7) [OF ok] agent_id [OF agents_okD(1) [OF ok] a(1)]] .
  ultimately show "restorable db p" using a(2,3) by (auto simp: restorable_def)
qed

lemma restored_moves:
  assumes "agents_ok db" "\<forall>p\<in>set ps. restorable db p"
  shows "moves True db (fold (\<lambda>(c, st). set_state {c} {Ag_Stopped} st) ps db)"
  using assms
proof (induction ps arbitrary: db)
  case (Cons p ps)
  obtain c st where p: "p = (c, st)" by fastforce
  have "db_move True db (set_state {c} {Ag_Stopped} st db)"
    using Cons.prems(2) unfolding p by (intro mv_restore) (auto simp: restorable_def)
  then have move: "moves True db (set_state {c} {Ag_Stopped} st db)" by blast
  moreover have "moves True (set_state {c} {Ag_Stopped} st db) (fold (\<lambda>(c, st). set_state {c} {Ag_Stopped} st) ps (set_state {c} {Ag_Stopped} st db))"
    using Cons.prems agents_ok_moves [OF move] restorable_moves [OF move Cons.prems(1)] by (intro Cons.IH) auto
  ultimately show ?case by (simp add: p)
qed simp

lemma unmark_moves:
  assumes "agents_ok db" "\<forall>p\<in>set (de_stopped d). restorable db p"
  shows "moves True db (unmark_subtree_deleting d db)"
proof -
  let ?db1 = "set_flags (\<lambda>r. if cv_id r \<in> set (de_subtree d) then r\<lparr>cv_deleting := False\<rparr> else r) (begin_tx db)"
  have db1: "moves True db ?db1" by (rule clock_then, rule flags_move)
  then have "moves True ?db1 (fold (\<lambda>(c, st). set_state {c} {Ag_Stopped} st) (de_stopped d) ?db1)"
    using assms agents_ok_moves [OF db1] restorable_moves [OF db1 assms(1)] by (intro restored_moves) auto
  then have "moves True db (fold (\<lambda>(c, st). set_state {c} {Ag_Stopped} st) (de_stopped d) ?db1)" using db1 by simp
  then show ?thesis by (simp add: unmark_subtree_deleting_def set_flags_def Let_def)
qed

lemma delete_moves:
  assumes "tree_ok db"
  shows "moves restores db (delete_subtree_rows c d label db)"
proof (cases "c \<in> conversation_ids db")
  case True
  let ?gone = "set (subtree_ids db c)"
  have closed: "\<forall>x p. is_child db x p \<longrightarrow> p \<in> ?gone \<longrightarrow> x \<in> ?gone"
    unfolding set_subtree [OF assms] by (auto intro: below_child below_deeper)
  have told: "moves restores db (queue_agent_message p (Some c) label Kind_Notice body (begin_tx db))" if "p \<in> conversation_ids db" for p body
    using that True by (intro clock_then mv_queue) auto
  have "moves restores db (begin_tx db)" by (blast intro: mv_clock)
  then have "moves restores db (delete_rows ?gone (begin_tx db))" using closed by (intro then_move [OF _ mv_delete]) simp_all
  moreover have "moves restores db (delete_rows ?gone (queue_agent_message p (Some c) label Kind_Notice body (begin_tx db)))"
    if "p \<in> conversation_ids db" for p body using told [OF that] closed by (intro then_move [OF _ mv_delete]) simp_all
  ultimately show ?thesis using True unfolding delete_subtree_rows_def Let_def
    by (auto simp: is_conversation_iff split: option.splits)
next
  case False
  then show ?thesis by (simp add: delete_subtree_rows_def is_conversation_iff)
qed

section \<open>Every step is a run of moves\<close>

lemma deliver_step: "moves restores db (db_step result (Op_Deliver n content) db)" if "agents_ok db"
proof (cases "List.find (\<lambda>m. am_id m = n) (db_queue db)")
  case (Some m)
  then have "m \<in> set (db_queue db)" by (blast dest: find_SomeD)
  then show ?thesis using deliver_moves [OF _ agents_okD(8) [OF that]] Some by simp
qed simp

lemma outside_moves:
  "moves restores db (new_conversation db)" "moves restores db (set_paused c b db)"
  "moves restores db (snd (narrow_agent_credentials c wants db))" "moves restores db (snd (clear_agent_credentials c db))"
  "moves restores db (db\<lparr>db_running := running, db_requests := requests, db_trust := trust, db_held := held\<rparr>)"
proof -
  have "set_paused c b db = set_flags (\<lambda>r. if cv_id r = c then r\<lparr>cv_paused := b\<rparr> else r) db"
    by (simp add: set_paused_def set_flags_def)
  then show "moves restores db (set_paused c b db)" by (simp only:) (rule r_into_rtranclp, rule mv_flags, simp)
  show "moves restores db (snd (narrow_agent_credentials c wants db))"
    unfolding narrow_agent_credentials_def Let_def snd_conv by (rule r_into_rtranclp, rule mv_columns) simp
  show "moves restores db (snd (clear_agent_credentials c db))"
    unfolding clear_agent_credentials_def Let_def snd_conv by (rule r_into_rtranclp, rule mv_columns) simp
qed (rule r_into_rtranclp, rule mv_root, rule r_into_rtranclp, rule mv_outside)

lemma step_moves:
  assumes ok: "agents_ok db"
  shows "moves restores db (db_step result op db)"
proof (cases op)
  case (Op_Deliver n content)
  then show ?thesis using deliver_step [OF ok] by simp
next
  case (Op_Say c role content)
  then show ?thesis by (auto simp: is_conversation_iff intro: mv_message)
qed (simp_all add: create_moves complete_moves fail_moves message_moves ask_moves finish_moves follow_up_moves stop_moves reactivate_moves
    reactivate_finished_moves notice_moves create_pending_question_moves answer_moves take_moves mark_moves outside_moves
    is_conversation_iff agents_okD(4) [OF ok] split: option.splits)

definition world_ok :: "agents_world \<Rightarrow> bool" where
  "world_ok w \<longleftrightarrow> agents_ok (aw_db w) \<and> (\<forall>d\<in>set (aw_deletes w). \<forall>p\<in>set (de_stopped d). restorable (aw_db w) p)"

text \<open>A step that no delete undoes: none but a delete that fails brings a stopped agent back to finished.\<close>

definition undoes :: "agents_op \<Rightarrow> bool" where
  "undoes op = (case op of Op_Unmark _ \<Rightarrow> True | _ \<Rightarrow> False)"

lemma world_moves:
  assumes ok: "world_ok w" and undo: "undoes op \<Longrightarrow> restores"
  shows "moves restores (aw_db w) (aw_db (agents_step result w op))"
proof (cases op)
  case (Op_Unmark n)
  then show ?thesis using ok undo by (auto simp: undoes_def world_ok_def intro!: unmark_moves)
next
  case (Op_Delete n label)
  then show ?thesis using ok by (auto simp: world_ok_def intro!: delete_moves agents_okD(7))
next
  case (Op_Mark c)
  then show ?thesis using mark_moves [of _ "aw_db w" c] by (auto split: prod.splits option.splits)
qed (use ok step_moves in \<open>simp_all add: world_ok_def del: db_step.simps\<close>)

lemma world_step:
  assumes ok: "world_ok w"
  shows "world_ok (agents_step result w op)"
proof -
  have run: "moves True (aw_db w) (aw_db (agents_step result w op))" using world_moves [OF ok] by blast
  have db: "agents_ok (aw_db (agents_step result w op))" using agents_ok_moves [OF run] ok by (simp add: world_ok_def)
  have "restorable (aw_db w) p" if d: "d \<in> set (aw_deletes (agents_step result w op))" and p: "p \<in> set (de_stopped d)" for d p
  proof -
    have "d \<in> set (aw_deletes w) \<or> (\<exists>c. fst (mark_subtree_deleting c (aw_db w)) = Some d)"
      using d by (cases op) (auto split: prod.splits option.splits if_splits simp: prod_eq_iff)
    then show ?thesis using ok p marked_restorable [of "aw_db w"] by (auto simp: world_ok_def)
  qed
  then show ?thesis using db restorable_moves [OF run] ok by (auto simp: world_ok_def)
qed

lemma world_start: "world_ok agents_start"
  by (simp add: world_ok_def agents_start_def agents_ok_def refs_ok_def tree_ok_def delivery_ok_def lives_ok_def clock_ok_def
      reports_ok_def questions_ok_def empty_db_def is_child_def conversation_ids_def)

interpretation agents_runs: machine agents_start "agents_step result" world_ok for result
  by unfold_locales (auto intro: world_start world_step)

lemma state_of_set: "agent_state (set_state {c} froms st db) c =
    map_option (\<lambda>s. if s \<in> froms then st else s) (agent_state db c)"
proof -
  have "map_option ag_state (List.find (\<lambda>a. ag_id a = c) (map (\<lambda>a. if ag_id a = c \<and> ag_state a \<in> froms then a\<lparr>ag_state := st\<rparr> else a) as)) =
      map_option (\<lambda>s. if s \<in> froms then st else s) (map_option ag_state (List.find (\<lambda>a. ag_id a = c) as))" for as
    by (induction as) simp_all
  then show ?thesis by (simp add: agent_state_def agent_of_def set_state_def update_agents_def)
qed

lemma state_same [simp]: "agent_state (queue_agent_message d s l k b db) c = agent_state db c" "agent_state (begin_tx db) c = agent_state db c"
  by (simp_all add: agent_state_def agent_of_def)

lemma one_row: "distinct (map f xs) \<Longrightarrow> x \<in> set xs \<Longrightarrow> y \<in> set xs \<Longrightarrow> f x = f y \<Longrightarrow> x = y"
  by (auto simp: distinct_map dest: inj_onD)

lemma row_of_map: "map f xs = ys \<Longrightarrow> y \<in> set ys \<Longrightarrow> \<exists>x\<in>set xs. f x = y"
  by auto

text \<open>A run of the server from an empty database.\<close>

definition agents_run :: "(stored_question \<Rightarrow> content_block) \<Rightarrow> agents_op list \<Rightarrow> agents_db" where
  "agents_run result ops = aw_db (foldl (agents_step result) agents_start ops)"

lemma run_from:
  assumes "world_ok w" "\<And>op. op \<in> set ops \<Longrightarrow> undoes op \<Longrightarrow> restores"
  shows "moves restores (aw_db w) (aw_db (foldl (agents_step result) w ops))"
  using assms
proof (induction ops arbitrary: w)
  case (Cons op ops)
  have "moves restores (aw_db w) (aw_db (agents_step result w op))" using Cons.prems by (intro world_moves) auto
  also have "moves restores \<dots> (aw_db (foldl (agents_step result) (agents_step result w op) ops))"
    using Cons.prems world_step [OF Cons.prems(1)] by (intro Cons.IH) auto
  finally show ?case by simp
qed simp

lemma run_ok: "agents_ok (agents_run result ops)"
  using agents_runs.inv_run [of result ops] by (simp add: agents_run_def world_ok_def)

lemma run_on: "moves True (agents_run result ops) (agents_run result (ops @ further))"
  unfolding agents_run_def foldl_append by (rule run_from) (simp_all add: agents_runs.inv_run)

lemma run_reads: "\<not> list_ex undoes ops \<Longrightarrow> unread_ok (agents_run result ops)"
  unfolding agents_run_def
  by (rule unread_moves [OF run_from [OF world_start]]) (auto simp: list_ex_iff agents_start_def empty_db_def unread_ok_def)

lemma child_parent:
  assumes "tree_ok db" "is_child db c p"
  shows "conversation_parent db c = Some p"
proof -
  obtain r where r: "r \<in> set (db_conversations db)" "cv_id r = c" "cv_parent r = Some p" using assms(2) by (auto simp: is_child_iff)
  then obtain s where s: "conversation_of db c = Some s"
    unfolding conversation_of_def by (cases "List.find (\<lambda>r. cv_id r = c) (db_conversations db)") (auto simp: find_None_iff)
  then have "s \<in> set (db_conversations db)" "cv_id s = c" unfolding conversation_of_def by (auto dest: find_SomeD)
  then have "s = r" using r assms(1) unfolding tree_ok_def by (metis distinct_map inj_onD)
  then show ?thesis using s r by (simp add: conversation_parent_def)
qed

end
