(* ===== verification/Agents_Properties.thy ===== *)
theory Agents_Properties
  imports Agents_Runs
begin

text \<open>
  What holds of a conversation's agents in every run: an agent that ended has told its parent, what was over stays over, what was
  queued is there until it is read, once, and an answer is to a question the parent has read.
\<close>

text \<open>A run the witnesses use: a conversation starts a child, which completes its start and finishes.\<close>

definition one_child :: new_child where
  "one_child = \<lparr>nc_caller = 1, nc_brief = ''count the tests'', nc_persona_name = None, nc_repo = None, nc_max_depth = 3, nc_volumes = []\<rparr>"

definition plain_start :: start_done where
  "plain_start = \<lparr>sd_notice = ''started'', sd_persona = None, sd_parent_notice = None, sd_label = ''agent 2''\<rparr>"

definition child_works :: "agents_op list" where
  "child_works = [Op_NewConversation, Op_Create one_child, Op_Complete 2 plain_start]"

definition as_text :: "stored_question \<Rightarrow> content_block" where
  "as_text q = Text (sq_tool_use_id q)"

text \<open>
  (C?) In every run, an agent that finished, or whose start failed, has a report to its parent in the parent's queue: no parent waits
  for an agent that will never speak.\<close>

theorem ended_agents_have_reported:
  assumes "a \<in> set (db_agents (agents_run result ops))" "ag_state a \<in> {Ag_Finished, Ag_Failed}"
  shows "\<exists>m\<in>set (db_queue (agents_run result ops)).
    am_kind m = Kind_Report \<and> am_from m = Some (ag_id a) \<and> conversation_parent (agents_run result ops) (ag_id a) = Some (am_to m)"
  using assms agents_okD(5) [OF run_ok] child_parent [OF agents_okD(7) [OF run_ok]]
  unfolding reports_ok_def reported_def is_report_def by blast

theorem ended_agents_have_reported_witness:
  "\<exists>m\<in>set (db_queue (agents_run as_text (child_works @ [Op_Finish 2 ''agent 2'' ''12 tests'']))).
    am_kind m = Kind_Report \<and> am_from m = Some 2 \<and>
    conversation_parent (agents_run as_text (child_works @ [Op_Finish 2 ''agent 2'' ''12 tests''])) 2 = Some (am_to m)"
proof -
  let ?db = "agents_run as_text (child_works @ [Op_Finish 2 ''agent 2'' ''12 tests''])"
  have "map ag_state (db_agents ?db) = [Ag_Finished]" "map ag_id (db_agents ?db) = [2]" by code_simp+
  then obtain a where "a \<in> set (db_agents ?db)" "ag_state a = Ag_Finished" "ag_id a = 2" by auto
  then show ?thesis using ended_agents_have_reported [of a as_text "child_works @ [Op_Finish 2 ''agent 2'' ''12 tests'']"] by simp
qed

text \<open>
  (C?) What is over stays over: once an agent's start failed, or it was stopped before it started, no sequence of steps brings it back.
  It keeps its state until its row is gone.\<close>

theorem over_agents_stay_over:
  assumes "a \<in> set (db_agents (agents_run result ops))" "ag_state a = Ag_Failed \<or> ag_state a = Ag_Stopped \<and> \<not> ag_started a"
    and "b \<in> set (db_agents (agents_run result (ops @ further)))" "ag_id b = ag_id a"
  shows "ag_state b = ag_state a \<and> \<not> ag_started b"
proof -
  let ?db = "agents_run result ops"
  note ok = agents_okD [OF run_ok [of result ops]]
  have "x = a" if "x \<in> set (db_agents ?db)" "ag_id x = ag_id a" for x
    using one_row [OF ok(9) that(1) assms(1) that(2)] .
  moreover have "\<not> ag_started a" using assms(1,2) ok(3) by (auto simp: lives_ok_def life_ok_def split: if_splits)
  moreover have "ag_id a < db_next_conversation ?db" using new_id [OF ok(7) agent_id [OF ok(1) assms(1)]] .
  moreover have "ag_state a \<in> {Ag_Stopped, Ag_Failed}" using assms(2) by blast
  ultimately have "over ?db (ag_id a) (ag_state a)" unfolding over_def by blast
  then have "over (agents_run result (ops @ further)) (ag_id a) (ag_state a)" by (rule over_moves [OF run_on])
  then show ?thesis using assms(3,4) unfolding over_def by blast
qed

theorem over_agents_stay_over_witness:
  "\<exists>b\<in>set (db_agents (agents_run as_text ([Op_NewConversation, Op_Create one_child, Op_Stop 1 2] @ [Op_Reactivate 2, Op_Complete 2 plain_start]))).
    ag_state b = Ag_Stopped \<and> \<not> ag_started b"
proof -
  let ?ops = "[Op_NewConversation, Op_Create one_child, Op_Stop 1 2]" and ?further = "[Op_Reactivate 2, Op_Complete 2 plain_start]"
  have "map (\<lambda>a. (ag_id a, ag_state a, ag_started a)) (db_agents (agents_run as_text ?ops)) = [(2, Ag_Stopped, False)]"
    "map ag_id (db_agents (agents_run as_text (?ops @ ?further))) = [2]" by code_simp+
  then obtain a b where "a \<in> set (db_agents (agents_run as_text ?ops))" "ag_state a = Ag_Stopped" "\<not> ag_started a" "ag_id a = 2"
      and b: "b \<in> set (db_agents (agents_run as_text (?ops @ ?further)))" "ag_id b = 2"
    by (force dest!: row_of_map)
  then have "ag_state b = Ag_Stopped \<and> \<not> ag_started b" using over_agents_stay_over [of a as_text ?ops b ?further] by simp
  then show ?thesis using b(1) by blast
qed

text \<open>
  (C?) Nothing queued is lost: a report, message, question or notice in a conversation's queue is there, as it was queued, in every
  later state that still has the conversation, and once it is delivered it stays delivered as the same message.\<close>

theorem queued_rows_are_kept:
  assumes "m \<in> set (db_queue (agents_run result ops))" "am_to m \<in> conversation_ids (agents_run result (ops @ further))"
  shows "\<exists>n\<in>set (db_queue (agents_run result (ops @ further))).
    am_id n = am_id m \<and> am_to n = am_to m \<and> am_kind n = am_kind m \<and> am_label n = am_label m \<and> am_body n = am_body m \<and>
    (am_delivered m \<longrightarrow> am_delivered n \<and> am_message n = am_message m)"
  using rows_kept [OF run_on run_ok assms] by (auto simp: same_row_def)

theorem queued_rows_are_kept_witness:
  "\<exists>n\<in>set (db_queue (agents_run as_text ((child_works @ [Op_Finish 2 ''agent 2'' ''12 tests'']) @ [Op_Deliver 2 [Text ''12 tests'']]))).
    am_to n = 1 \<and> am_kind n = Kind_Report \<and> am_body n = ''12 tests''"
proof -
  let ?ops = "child_works @ [Op_Finish 2 ''agent 2'' ''12 tests'']" and ?further = "[Op_Deliver 2 [Text ''12 tests'']]"
  have rows: "map (\<lambda>m. (am_to m, am_kind m, am_body m)) (db_queue (agents_run as_text ?ops)) =
      [(2, Kind_Notice, ''started''), (1, Kind_Report, ''12 tests'')]"
    and later: "1 \<in> conversation_ids (agents_run as_text (?ops @ ?further))" by code_simp+
  obtain m where m: "m \<in> set (db_queue (agents_run as_text ?ops))" "(am_to m, am_kind m, am_body m) = (1, Kind_Report, ''12 tests'')"
    using row_of_map [OF rows, of "(1, Kind_Report, ''12 tests'')"] by auto
  then show ?thesis using queued_rows_are_kept [of m as_text ?ops ?further] later by auto
qed

text \<open>
  (C?) Each row is delivered at most once: a delivered row is a message of the user's saved in its recipient's conversation, and no
  two rows are the same message.\<close>

theorem rows_are_delivered_once:
  "inj_on (the \<circ> am_message) {m \<in> set (db_queue (agents_run result ops)). am_delivered m} \<and>
   (\<forall>m\<in>set (db_queue (agents_run result ops)). am_delivered m = (\<exists>s\<in>set (db_messages (agents_run result ops)).
     am_message m = Some (sm_id s) \<and> sm_conversation s = am_to m \<and> sm_role s = ''user''))"
proof -
  note ok = agents_okD(2) [OF run_ok [of result ops]]
  have "am_delivered m = (am_message m \<noteq> None)" if "m \<in> set (db_queue (agents_run result ops))" for m
    using ok that by (simp add: delivery_ok_def)
  then have "\<forall>m\<in>set (db_queue (agents_run result ops)). am_delivered m = (\<exists>s\<in>set (db_messages (agents_run result ops)).
     am_message m = Some (sm_id s) \<and> sm_conversation s = am_to m \<and> sm_role s = ''user'')"
    using delivered_message [OF ok] by fastforce
  then show ?thesis using ok by (simp add: delivery_ok_def)
qed

text \<open>
  (C?) An answer is to a question that was read: a child's question to its parent is a row of the parent's queue that names the same
  question, and an answered one was delivered to the parent.\<close>

theorem answered_after_reading:
  assumes "db_questions (agents_run result ops) c = Some q" "sq_asked_of q = Of_Parent"
  shows "\<exists>m\<in>set (db_queue (agents_run result ops)). am_kind m = Kind_Question \<and> am_from m = Some c \<and>
    conversation_parent (agents_run result ops) c = Some (am_to m) \<and> sq_questions q = parent_question (am_body m) \<and>
    (sq_answer q = None \<or> am_delivered m)"
proof -
  obtain m where "asks_parent (agents_run result ops) c q m" "sq_answer q \<noteq> None \<longrightarrow> am_delivered m"
    using assms agents_okD(6) [OF run_ok [of result ops]] unfolding questions_ok_def by blast
  then show ?thesis using child_parent [OF agents_okD(7) [OF run_ok], of result ops c "am_to m"]
    by (intro bexI [of _ m]) (auto simp: asks_parent_def)
qed

theorem answered_after_reading_witness:
  "\<exists>q. db_questions (agents_run as_text (child_works @ [Op_Ask 2 ''call'' ''which tests?'' ''agent 2'', Op_Deliver 2 [Text ''which tests?''],
      Op_Message 1 (To_Child 2) ''parent'' ''all of them''])) 2 = Some q \<and> sq_answer q \<noteq> None \<and>
    (\<exists>m\<in>set (db_queue (agents_run as_text (child_works @ [Op_Ask 2 ''call'' ''which tests?'' ''agent 2'', Op_Deliver 2 [Text ''which tests?''],
      Op_Message 1 (To_Child 2) ''parent'' ''all of them'']))). am_from m = Some 2 \<and> am_delivered m)"
proof -
  let ?db = "agents_run as_text (child_works @ [Op_Ask 2 ''call'' ''which tests?'' ''agent 2'', Op_Deliver 2 [Text ''which tests?''],
      Op_Message 1 (To_Child 2) ''parent'' ''all of them''])"
  have "map_option (\<lambda>q. (sq_asked_of q, sq_answer q)) (db_questions ?db 2) = Some (Of_Parent, Some [\<lparr>qa_selected = [], qa_other = Some ''all of them''\<rparr>])"
    by code_simp
  then obtain q where q: "db_questions ?db 2 = Some q" "sq_asked_of q = Of_Parent" "sq_answer q \<noteq> None" by auto
  from answered_after_reading [OF q(1,2)] obtain m where "m \<in> set (db_queue ?db)" "am_from m = Some 2" "am_delivered m"
    using q(3) by blast
  then have "\<exists>m\<in>set (db_queue ?db). am_from m = Some 2 \<and> am_delivered m" by (intro bexI conjI)
  then show ?thesis using q(1,3) by (intro exI [of _ q] conjI)
qed

text \<open>
  (C?) A finished agent has read what it was sent: as long as no delete fails and puts agents back, no message is left waiting for an
  agent that finished.\<close>

theorem finished_agents_have_read:
  assumes "\<not> list_ex undoes ops" "a \<in> set (db_agents (agents_run result ops))" "ag_state a = Ag_Finished"
    and "m \<in> set (db_queue (agents_run result ops))" "am_to m = ag_id a" "am_kind m = Kind_Message"
  shows "am_delivered m"
  using assms run_reads [OF assms(1)] unfolding unread_ok_def has_unread_message_def by blast

theorem finished_agents_have_read_witness:
  "\<forall>m\<in>set (db_queue (agents_run as_text (child_works @ [Op_Message 1 (To_Child 2) ''parent'' ''also the docs'', Op_Finish 2 ''agent 2'' ''early'',
      Op_Deliver 2 [Text ''also the docs''], Op_Finish 2 ''agent 2'' ''all'']))). am_to m = 2 \<and> am_kind m = Kind_Message \<longrightarrow> am_delivered m"
proof -
  let ?ops = "child_works @ [Op_Message 1 (To_Child 2) ''parent'' ''also the docs'', Op_Finish 2 ''agent 2'' ''early'',
      Op_Deliver 2 [Text ''also the docs''], Op_Finish 2 ''agent 2'' ''all'']"
  have agents: "map (\<lambda>a. (ag_id a, ag_state a)) (db_agents (agents_run as_text ?ops)) = [(2, Ag_Finished)]" by code_simp
  have "\<not> list_ex undoes ?ops" by code_simp
  moreover obtain a where "a \<in> set (db_agents (agents_run as_text ?ops))" "(ag_id a, ag_state a) = (2, Ag_Finished)"
    using row_of_map [OF agents, of "(2, Ag_Finished)"] by auto
  ultimately show ?thesis using finished_agents_have_read [of ?ops a as_text] by auto
qed

text \<open>
  (C?) A stop reaches everyone below: \<open>stop_subtree\<close> names the agent and all its descendants, leaves none of them starting, active
  or finished, and changes no other agent.\<close>

theorem a_stop_reaches_everyone_below:
  assumes "stop_subtree caller c (agents_run result ops) = (Stop_Stopped ids, db)"
  shows "set ids = insert c {d. below (agents_run result ops) c d} \<and>
    (\<forall>a\<in>set (db_agents db). if ag_id a \<in> set ids then ag_state a \<in> {Ag_Stopped, Ag_Failed} else a \<in> set (db_agents (agents_run result ops)))"
proof -
  have ids: "ids = subtree_ids (agents_run result ops) c"
    and db: "db = set_state (set ids) live_states Ag_Stopped (begin_tx (agents_run result ops))"
    using assms by (auto simp: stop_subtree_def Let_def split: if_splits option.splits agent_state.splits)
  have "if ag_id a \<in> set ids then ag_state a \<in> {Ag_Stopped, Ag_Failed} else a \<in> set (db_agents (agents_run result ops))"
    if a: "a \<in> set (db_agents db)" for a
  proof -
    obtain b where b: "b \<in> set (db_agents (agents_run result ops))"
        "a = (if ag_id b \<in> set ids \<and> ag_state b \<in> live_states then b\<lparr>ag_state := Ag_Stopped\<rparr> else b)"
      using a unfolding db set_state_def set_agents(1) by auto
    then show ?thesis by (cases "ag_state b") auto
  qed
  moreover have "set ids = insert c {d. below (agents_run result ops) c d}"
    unfolding ids by (rule set_subtree [OF agents_okD(7) [OF run_ok]])
  ultimately show ?thesis by (intro conjI ballI)
qed

theorem a_stop_reaches_everyone_below_witness:
  "\<forall>a\<in>set (db_agents (snd (stop_subtree 1 2 (agents_run as_text (child_works @ [Op_Create (one_child\<lparr>nc_caller := 2\<rparr>)]))))).
    ag_id a = 3 \<longrightarrow> ag_state a \<in> {Ag_Stopped, Ag_Failed}"
proof -
  let ?ops = "child_works @ [Op_Create (one_child\<lparr>nc_caller := 2\<rparr>)]"
  have "fst (stop_subtree 1 2 (agents_run as_text ?ops)) = Stop_Stopped [2, 3]" by code_simp
  then have "stop_subtree 1 2 (agents_run as_text ?ops) = (Stop_Stopped [2, 3], snd (stop_subtree 1 2 (agents_run as_text ?ops)))"
    by (simp add: prod_eq_iff)
  from a_stop_reaches_everyone_below [OF this] show ?thesis by auto
qed

text \<open>
  (C?) A finish reports once or changes nothing: when \<open>finish_agent\<close> answers that the report is queued, the agent was active and
  is now finished, and its parent's queue has this one row more; with any other answer the database is as it was.\<close>

theorem a_finish_reports_or_changes_nothing:
  assumes "finish_agent c label report (agents_run result ops) = (r, db)"
  shows "case r of
      Fin_Queued p \<Rightarrow> conversation_parent (agents_run result ops) c = Some p \<and> agent_state (agents_run result ops) c = Some Ag_Active \<and>
        agent_state db c = Some Ag_Finished \<and>
        (\<exists>m. db_queue db = db_queue (agents_run result ops) @ [m] \<and> am_to m = p \<and> am_from m = Some c \<and> am_kind m = Kind_Report
          \<and> am_body m = report \<and> \<not> am_delivered m)
    | _ \<Rightarrow> db = agents_run result ops"
proof (cases "\<exists>p. r = Fin_Queued p")
  case True
  then obtain p where p: "r = Fin_Queued p" "conversation_parent (agents_run result ops) c = Some p"
      "agent_state (agents_run result ops) c = Some Ag_Active"
      "db = set_state {c} {Ag_Active} Ag_Finished (queue_agent_message p (Some c) label Kind_Report report (begin_tx (agents_run result ops)))"
    using finish_result [OF assms] by blast
  have "agent_state db c = Some Ag_Finished" using p(3) unfolding p(4) by (simp add: state_of_set)
  then show ?thesis using p by simp
next
  case False
  then show ?thesis using finish_result [OF assms] by (cases r) auto
qed

theorem a_finish_reports_or_changes_nothing_witness:
  "agent_state (snd (finish_agent 2 ''agent 2'' ''12 tests'' (agents_run as_text child_works))) 2 = Some Ag_Finished"
proof -
  have "fst (finish_agent 2 ''agent 2'' ''12 tests'' (agents_run as_text child_works)) = Fin_Queued 1" by code_simp
  then have "finish_agent 2 ''agent 2'' ''12 tests'' (agents_run as_text child_works) =
      (Fin_Queued 1, snd (finish_agent 2 ''agent 2'' ''12 tests'' (agents_run as_text child_works)))" by (simp add: prod_eq_iff)
  from a_finish_reports_or_changes_nothing [OF this] show ?thesis by simp
qed

text \<open>A delete that fails puts back what it stopped, whatever was stopped since: the parent's own stop finds the agent already stopped and
  is then undone.\<close>

lemma failed_delete_undoes_a_stop:
  "fst (stop_subtree 1 2 (agents_run as_text (child_works @ [Op_Mark 2]))) = Stop_AlreadyEnded Ag_Stopped"
  "agent_state (agents_run as_text (child_works @ [Op_Mark 2, Op_Stop 1 2, Op_Unmark 0])) 2 = Some Ag_Active"
  by code_simp+

text \<open>
  (C?) The card over a conversation lists exactly the agents below it, at any depth, that wait for the user, each once and by id: never
  one that only waits for its parent.\<close>

theorem waiting_under_is_complete:
  "agents_waiting_under c (agents_run result ops) =
    sorted_list_of_set {d. below (agents_run result ops) c d \<and> waits_for_user (agents_run result ops) d}"
proof -
  let ?db = "agents_run result ops"
  let ?under = "filter (waits_for_user ?db) (levels_below (length (db_conversations ?db)) ?db [c])"
  have "set ?under = {d. below ?db c d \<and> waits_for_user ?db d}"
    using set_levels [OF agents_okD(7) [OF run_ok]] by auto
  moreover have "sort (remdups ?under) = sorted_list_of_set (set ?under)" by (rule sorted_list_of_set_sort_remdups [symmetric])
  ultimately show ?thesis by (simp add: agents_waiting_under_def)
qed

end
