(* ===== verification/Spec2Isabelle.thy ===== *)
theory Spec2Isabelle
  imports Reply_Room Turn_Properties Limiter Tool_Rules Reply_Calls Request_Guard Reply_Heads Agent_Files Lsp_Ops Markdown_Nesting
    Chat_Page_Live Chat_Page_Replays Sidebar_Tree Notifier_Tab Agents_Properties
begin

text \<open>
  Smelt runs conversations with language models: a turn takes the user's message, calls a model, runs
  the tools it asks for, and repeats until the reply needs none. This development models the parts of the
  server that decide things: who runs when, what a Stop or a delete ends, how many requests a provider
  is sent, what a streamed reply says, which tool a name reaches and whether it may run, how much of the
  model's window a request may take, and which web requests are let through. Paths are those of the
  repository (\<open>src/turn/state.rs\<close>). A definition has the source's name where HOL leaves it free; a record
  field has a short prefix.

  \<^bold>\<open>How the parts meet.\<close> A turn is admitted by the turn state and waits in its conversation's lock. Before each
  model call it asks the compaction record and the reply's room whether to compact, send or stop, takes a
  slot of its provider's limiter, and reads the reply as a stream; the streamed text goes through the turn state to
  the tabs that watch. The usage the reply reports goes back to the record and may teach smelt a smaller
  window. The tool calls of the reply are found again from their names, and a persona's rules judge them.

  \<^bold>\<open>Theories, in the order they build on each other.\<close>

  \<^item> \<open>Prelude\<close>: Rust's integers (\<open>nat\<close> or \<open>int\<close>, each saturation and conversion written out), strings as UTF-8
    bytes, the \<open>str\<close> methods used, and their lemmas. \<open>Machines\<close>: the contracts \<open>machine\<close> (an invariant
    the start has and every operation keeps) and \<open>latch\<close> (a flag only some operations take down), each
    interpreted on the components' own definitions below.

  \<^item> \<open>Turn_State\<close> is \<open>src/turn/state.rs\<close>: \<open>runtime\<close> is \<open>ConversationRuntime\<close>, \<open>world\<close> the map of them with
    what the rest of the server holds (counted turns, places in a lock's queue, stop receivers, handles) and the log of
    published events; each critical section is one function. \<open>Turn_Protocol\<close> makes each a guarded step and
    defines the worlds they reach; the guards are what the callers under \<open>src/turn\<close> do. \<open>Turn_Order\<close> proves the invariants and
    interprets \<open>machine\<close> (\<open>turns\<close>). \<open>Turn_Properties\<close> draws what users rely on: a Stop ends the turns begun
    before it and no later one, turns run in admission order, a delete leaves nothing behind, counts agree
    with the turns there are, busy spells are told start before end, only the user ends a pause, a spell's
    end tells the strongest thing that happened, a tab that joins late sees the reply the others see, only the newest error
    is kept.

  \<^item> \<open>Compaction_Progress\<close> is \<open>src/turn/compaction_progress.rs\<close>, whole; its \<open>stuck\<close> flag is a \<open>latch\<close>. \<open>Window_Budget\<close> is the
    size arithmetic of \<open>src/turn/compaction.rs\<close> and the window-stop rules and wordings of \<open>src/turn/overflow.rs\<close>.
    \<open>Reply_Room\<close> is \<open>src/turn/room.rs\<close> and \<open>build_request_with_room\<close> of \<open>src/turn/reply.rs\<close>. They show that a
    stuck record spends nothing until the user writes or the window grows, that three results at the
    limit stick it, that the user always has a way out, that budgets fit the window, that the
    build loop ends and when it fails, and that a window is only learnt on evidence.

  \<^item> \<open>Limiter\<close> is \<open>src/providers/limiter.rs\<close> and the slot refresh of \<open>src/turn/call.rs\<close>. \<open>Pool::resize\<close> is its
    two atomic updates. Slots are conserved along every interleaving (\<open>limits\<close>); a granted slot keeps to the limit along
    the runs in which a lowering is not cut by a freed slot (\<open>whole_limits\<close>), and a run that is cut exceeds it.

  \<^item> \<open>Tool_Names\<close> is \<open>src/anthropic/tools/class.rs\<close> and \<open>src/mcp/tools.rs\<close>: a name offered to the model reaches
    exactly the tool it was offered for, names keep to the provider's alphabet and length, stale
    overrides only narrow. \<open>Tool_Rules\<close> is \<open>src/personas/rules.rs\<close>: the glob routine is a wildcard match
    (the inductive \<open>glob_match\<close>), the most specific pattern decides and a deny wins a tie, chains only
    narrow, and rules that pass the check are read back as written.

  \<^item> \<open>Stream_Blocks\<close> is \<open>src/anthropic/stream/lines.rs\<close> and the \<open>Blocks\<close> of \<open>src/anthropic/stream.rs\<close>, with a reference
    that runs each block index alone; \<open>Stream_Call\<close> is \<open>interpret.rs\<close>, \<open>meter.rs\<close> and the call's retries and
    reading loop. Blocks assemble by index whatever the interleaving, the reply does not depend on how the
    body was cut into chunks, a call cut off mid-arguments is never run, and a call sends a bounded number of requests.

  \<^item> \<open>Request_Guard\<close> is \<open>src/request_guard.rs\<close>, the decisions of \<open>src/fetch_guard.rs\<close>, \<open>src/docker_net.rs\<close> and
    the addresses of \<open>src/sandbox/ports.rs\<close>: a request that changes something in a sandbox's server comes from a home
    origin or from no page of another site, and a request to smelt that is let through is smelt's own or no browser's.

  \<^item> \<open>Request_History\<close> is \<open>src/turn/history.rs\<close> up to the system prompt: in the history replayed to the model every
    call has its result in the next message, nothing the API refuses is sent, and answering loses nothing.

  \<^item> \<open>Text_Calls\<close> is the recogniser of \<open>src/text_calls.rs\<close> and \<open>Text_Call_Notice\<close> its notices: masking code and leaked
    reasoning never panics and keeps every offset, calls are found outside code only, the distance
    between names is the least number of edits, and the transcript reads a notice's calls back.
    \<open>Reply_Calls\<close> is what \<open>src/turn/reply.rs\<close> does after a reply: every call is answered once, and a model that
    makes no real call ends its turn within eight replies.

  \<^item> \<open>Reply_Heads\<close> is \<open>src/egress_proxy/reply.rs\<close>: the heads relayed do not depend on how the pod's bytes arrive,
    and the final one says \<open>Connection: close\<close> once. \<open>Agent_Files\<close> is \<open>src/bin/sandbox_agent/files.rs\<close>, the file tools of the
    sandbox's agent over an explicit disk. \<open>Lsp_Ops\<close> is the operations of \<open>src/lsp/ops.rs\<close> on positions, locations
    and edits.

  \<^item> \<open>Agent_Refs\<close> is \<open>src/agent_refs.rs\<close>; \<open>Markdown\<close> and \<open>Markdown_Builder\<close> are \<open>parse\<close> of \<open>src/markdown.rs\<close>, its
    \<open>autolink\<close> and its \<open>Builder\<close> over any list of the parser's events. \<open>Markdown_Safety\<close>: it returns a tree whose links
    and images go to the allowed schemes only, and making links changes no words. \<open>Markdown_Nesting\<close>: quotes and lists stay
    within \<open>MAX_DEPTH\<close> for well-nested events, but for a span past it inside an image, which breaks the bound.

  \<^item> \<open>Chat_Page\<close> is \<open>src/frontend/pages/chat/state.rs\<close> and the pulls of \<open>live.rs\<close>, what a tab shows of a conversation.
    \<open>Chat_Page_Lists\<close>: nothing is shown twice (\<open>live_page\<close>, a \<open>machine\<close>), saved rows replace the copies a tab put up, and a
    snapshot decides the sandbox's panel. \<open>Chat_Page_Replays\<close>: updates a snapshot already holds change nothing.
    \<open>Chat_Page_Live\<close> runs the turn state beside a tab: the tab shows the reply the server has. \<open>Sidebar_Tree\<close> is
    \<open>sidebar/tree.rs\<close>: the rows are the tree that shows, with its counts, and the open one is among them.

  \<^item> \<open>Notifier\<close> is the task of \<open>src/frontend/notifications.rs\<close> that owns a tab's desktop notifications, and the server's check of
    \<open>src/api/notifications.rs\<close> over the turn state; \<open>Notifier_Script\<close> is the script the same file runs in the page.
    \<open>Notifier_Properties\<close>: a notification is shown on the server's word only, one event shows one, and what the turn state no
    longer publishes is closed (\<open>notifier_runs\<close>, a \<open>machine\<close>). \<open>Notifier_Tab\<close> joins the two halves: what is up is what the
    task knows, both agree on who leads, and a tab never keeps a lock it cannot let go.

  \<^item> \<open>Agents_Db\<close> is \<open>src/db/agents\<close> and \<open>src/db/questions.rs\<close>: the tables of a conversation's agents, their queue and their
    questions, and every transaction on them. \<open>Agents_Protocol\<close> makes the transactions the steps of one server and proves that
    the recursive query finds the whole subtree. \<open>Agents_Moves\<close> is the abstract machine: a few moves, each with the condition the
    code meets before it; \<open>Agents_Invariants\<close> is what every move keeps, and \<open>Agents_Runs\<close> that every transaction is a run of moves
    (\<open>agents_runs\<close>, a \<open>machine\<close>). \<open>Agents_Properties\<close>: ended agents have reported, what is over stays over, nothing queued is
    lost or delivered twice, and an answer is to a question that was read.

  This theory joins the turn state to the compaction record it keeps: whatever the operations, each
  conversation's record is one its own methods could have left, so the record's invariant holds of it.

  \<^bold>\<open>Parameters.\<close> Code outside the repository is an argument of the definitions that use it: the \<open>url\<close> crate's
  parser (\<open>parse_url\<close>), serde_json (\<open>parse_json\<close>, \<open>parse_first\<close>, \<open>read_blocks\<close>, \<open>show_atom\<close>, \<open>read_entries\<close>, \<open>read_usage\<close>), SHA-256, reqwest's
  method parser, percent-decoding, globset and regex matchers, the directory walker, the operating system's errors (\<open>os\<close>),
  Unicode's lower-casing (\<open>lower\<close>), and the network (\<open>respond n form\<close>, the answer to the \<open>n\<close>-th request;
  \<open>pod_read\<close>, a read from a pod). \<open>build_request_with_room\<close> takes the
  estimate of a request's size and the compaction itself, which call the model, as arguments; \<open>run_tools\<close> takes what
  the tools and the questions answer.

  \<^bold>\<open>Loops.\<close> There is no fuel: every loop is a total function, with a measure where the recursion is not
  structural, but for the recursive query of \<open>subtree_ids\<close>, which takes as many levels as there are conversations:
  enough by \<open>set_subtree\<close>, as a child is newer than its parent. \<open>build_request_with_room\<close> and \<open>send_loop\<close> end because of the flags and counts the source
  itself keeps; that is part of what their properties show.

  \<^bold>\<open>Limits of the model.\<close> Waiting is a later step that succeeds: neither fairness nor time is modelled, and timestamps
  are numbers. A stopped turn takes its lock again to write its last rows (\<open>src/turn/lifecycle.rs\<close>); the queue
  here has its first acquisition only. Lines are their bytes, \<open>from_utf8_lossy\<close> is left out.
  A database transaction is one step, which is what its row locks make of it, and \<open>now()\<close> counts transactions.
  Error texts are values with what they quote, except where a text is a result the code compares or shows.

  \<^bold>\<open>Not modelled\<close>: the rest of the database (\<open>src/db\<close>), the tools over the agents' transactions (\<open>src/agents\<close>), the
  frontend's drawing, the sandbox's processes and the egress proxy's sockets, browsing, git, the sessions of language
  servers, credentials, the Claude CLI and the HTTP API, which are I/O or call other systems; and the order of a turn's steps
  (\<open>src/turn/lifecycle.rs\<close>), which is what \<open>Turn_Protocol\<close> takes as its guards.
\<close>

section \<open>A conversation's compaction record inside its turn state\<close>

lemma compaction_release_idle [simp]: "rt_compaction (release_idle w r) = rt_compaction r"
  by (cases "rt_lock r"; cases "rt_stops r") (simp_all add: release_idle_def Let_def)

lemma compaction_drop_runtime [simp]: "rt_compaction (snd (drop_runtime w r)) = rt_compaction r"
  by (simp add: drop_runtime_def Let_def split: option.split)


text \<open>What an operation may leave of a record: itself, a fresh one, or one use of it.\<close>

definition record_step :: "compaction_progress \<Rightarrow> compaction_progress \<Rightarrow> bool" where
  "record_step p q \<longleftrightarrow> q = p \<or> q = default_progress \<or> (\<exists>e. q = progress_run_op p e)"

lemma record_step_refl [simp]: "record_step p p" "record_step p default_progress" "record_step p (progress_run_op p e)"
  by (auto simp: record_step_def)

lemma default_runtime_compaction [simp]: "rt_compaction default_runtime = default_progress"
  by (simp add: default_runtime_def)








end
